(* ===== verification/Prelude.thy ===== *)
theory Prelude
  imports Main "HOL-Library.Word"
begin

text \<open>
  The vocabulary shared by every component: the outcome of a fallible Rust function
  (returned value, typed error, or panic), machine integers and bytes, the standard-library
  string operations the sources call, and generic list lemmas.

  Diagnostic prose inside errors is not modelled: the repository declares it to be context
  and not control flow (docs/components.md, "Shared contract properties"), so an error is
  its typed class together with its structured fields.
\<close>

section \<open>Fallible functions\<close>

text \<open>
  \<open>Ok\<close> and \<open>Err\<close> are the two arms of Rust's \<open>Result\<close>; \<open>Panicked\<close> is an aborted
  call (an index out of bounds, an overflow check, an \<open>expect\<close> or \<open>unreachable!\<close>).
\<close>

datatype ('a, 'e) result = Ok 'a | Err 'e | Panicked

primrec r_bind :: "('a, 'e) result \<Rightarrow> ('a \<Rightarrow> ('b, 'e) result) \<Rightarrow> ('b, 'e) result" where
  "r_bind (Ok x) f = f x"
| "r_bind (Err e) f = Err e"
| "r_bind Panicked f = Panicked"

primrec is_ok :: "('a, 'e) result \<Rightarrow> bool" where
  "is_ok (Ok x) = True"
| "is_ok (Err e) = False"
| "is_ok Panicked = False"

primrec r_map :: "('a \<Rightarrow> 'b) \<Rightarrow> ('a, 'e) result \<Rightarrow> ('b, 'e) result" where
  "r_map f (Ok x) = Ok (f x)"
| "r_map f (Err e) = Err e"
| "r_map f Panicked = Panicked"

primrec r_map_err :: "('e \<Rightarrow> 'd) \<Rightarrow> ('a, 'e) result \<Rightarrow> ('a, 'd) result" where
  "r_map_err f (Ok x) = Ok x"
| "r_map_err f (Err e) = Err (f e)"
| "r_map_err f Panicked = Panicked"

definition ok_or :: "'a option \<Rightarrow> 'e \<Rightarrow> ('a, 'e) result" where
  "ok_or x e = (case x of None \<Rightarrow> Err e | Some v \<Rightarrow> Ok v)"

lemma r_bind_eq_Ok [simp]: "r_bind m f = Ok y \<longleftrightarrow> (\<exists>x. m = Ok x \<and> f x = Ok y)"
  by (cases m) auto

lemma r_bind_eq_Panicked:
  "r_bind m f = Panicked \<longleftrightarrow> m = Panicked \<or> (\<exists>x. m = Ok x \<and> f x = Panicked)"
  by (cases m) auto

lemma r_bind_eq_Err:
  "r_bind m f = Err e \<longleftrightarrow> m = Err e \<or> (\<exists>x. m = Ok x \<and> f x = Err e)"
  by (cases m) auto

lemma r_bind_assoc: "r_bind (r_bind m f) g = r_bind m (\<lambda>x. r_bind (f x) g)"
  by (cases m) auto

lemma r_map_eq_Ok [simp]: "r_map f m = Ok y \<longleftrightarrow> (\<exists>x. m = Ok x \<and> y = f x)"
  by (cases m) auto

lemma is_ok_iff: "is_ok m \<longleftrightarrow> (\<exists>x. m = Ok x)"
  by (cases m) auto

lemma ok_or_simps [simp]: "ok_or None e = Err e" "ok_or (Some v) e = Ok v"
  by (simp_all add: ok_or_def)

section \<open>Machine integers\<close>

type_synonym byte = "8 word"
type_synonym u32 = "32 word"
type_synonym u64 = "64 word"
type_synonym bytes = "8 word list"

text \<open>
  Sizes are \<open>usize\<close> on a 64-bit target, so a \<open>u64\<close> converts to \<open>usize\<close> without loss and
  \<open>usize::try_from\<close> on it never fails. Lengths and offsets are natural numbers.
\<close>

definition checked_add_u64 :: "u64 \<Rightarrow> u64 \<Rightarrow> u64 option" where
  "checked_add_u64 a b = (if unat a + unat b < 2 ^ 64 then Some (a + b) else None)"

definition u64_of_nat :: "nat \<Rightarrow> u64 option" where
  "u64_of_nat n = (if n < 2 ^ 64 then Some (word_of_nat n) else None)"

lemma checked_add_u64_Some:
  "checked_add_u64 a b = Some c \<Longrightarrow> unat c = unat a + unat b"
  by (auto simp: checked_add_u64_def unat_word_ariths split: if_splits)

lemma u64_of_nat_Some: "u64_of_nat n = Some w \<Longrightarrow> unat w = n"
  by (auto simp: u64_of_nat_def unat_of_nat split: if_splits)

lemma u64_of_nat_unat [simp]: "u64_of_nat (unat w) = Some (w :: u64)"
proof -
  have "unat w < 2 ^ 64" using unsigned_less [of w] by simp
  then show ?thesis by (simp add: u64_of_nat_def)
qed

lemma u64_less_iff: "(a :: u64) < b \<longleftrightarrow> unat a < unat b"
  by (rule word_less_nat_alt)

lemma u64_le_iff: "(a :: u64) \<le> b \<longleftrightarrow> unat a \<le> unat b"
  by (rule word_le_nat_alt)

text \<open>An unchecked \<open>usize\<close> sum or product, which wraps in a release build.\<close>

definition wrap_usize :: "nat \<Rightarrow> nat" where
  "wrap_usize n = unat (word_of_nat n :: u64)"

lemma wrap_usize_mod: "wrap_usize n = n mod 2 ^ 64"
  by (simp add: wrap_usize_def unsigned_of_nat take_bit_eq_mod)

lemma wrap_usize_idem [simp]: "wrap_usize (wrap_usize n) = wrap_usize n"
  by (simp add: wrap_usize_mod)

lemma wrap_usize_small [simp]: "n < 2 ^ 64 \<Longrightarrow> wrap_usize n = n"
  by (simp add: wrap_usize_mod)

text \<open>\<open>to_be_bytes\<close> of a 64-bit value: the most significant byte first.\<close>

definition be_bytes_u64 :: "u64 \<Rightarrow> bytes" where
  "be_bytes_u64 w = map (\<lambda>i. word_of_nat (unat w div 256 ^ i)) [7, 6, 5, 4, 3, 2, 1, 0]"

lemma length_be_bytes_u64 [simp]: "length (be_bytes_u64 w) = 8"
  by (simp add: be_bytes_u64_def)

section \<open>Strings\<close>

text \<open>
  A Rust \<open>str\<close> is its UTF-8 bytes, one \<open>char\<close> each. The operations below are those of the
  standard library that the sources call; all of them search for ASCII patterns.
\<close>

fun strip_prefix :: "'a list \<Rightarrow> 'a list \<Rightarrow> 'a list option" where
  "strip_prefix [] s = Some s"
| "strip_prefix (p # ps) [] = None"
| "strip_prefix (p # ps) (c # cs) = (if p = c then strip_prefix ps cs else None)"

text \<open>\<open>split_once pat\<close>: the text before and after the first occurrence of \<open>pat\<close>.\<close>

fun split_once :: "'a list \<Rightarrow> 'a list \<Rightarrow> ('a list \<times> 'a list) option" where
  "split_once pat [] = (if pat = [] then Some ([], []) else None)"
| "split_once pat (c # cs) =
     (case strip_prefix pat (c # cs) of
        Some rest \<Rightarrow> Some ([], rest)
      | None \<Rightarrow> map_option (\<lambda>(a, b). (c # a, b)) (split_once pat cs))"

definition starts_with :: "'a list \<Rightarrow> 'a list \<Rightarrow> bool" where
  "starts_with pat s = (strip_prefix pat s \<noteq> None)"

lemma strip_prefix_Some: "strip_prefix p s = Some r \<longleftrightarrow> s = p @ r"
  by (induction p s rule: strip_prefix.induct) auto

lemma strip_prefix_append [simp]: "strip_prefix p (p @ r) = Some r"
  by (simp add: strip_prefix_Some)

lemma split_once_Some: "split_once p s = Some (a, b) \<Longrightarrow> s = a @ p @ b"
proof (induction p s arbitrary: a rule: split_once.induct)
  case (1 pat)
  then show ?case by (auto split: if_splits)
next
  case (2 pat c cs)
  show ?case
  proof (cases "strip_prefix pat (c # cs)")
    case None
    with "2.prems" obtain a' where "split_once pat cs = Some (a', b)" and "a = c # a'"
      by (auto split: prod.splits)
    with "2.IH" [OF None] show ?thesis by simp
  next
    case (Some r)
    with "2.prems" show ?thesis by (auto simp: strip_prefix_Some)
  qed
qed

lemma split_once_char_None: "split_once [x] s = None \<longleftrightarrow> x \<notin> set s"
  by (induction s) (auto split: option.splits)

lemma split_once_char_append:
  "x \<notin> set a \<Longrightarrow> split_once [x] (a @ x # b) = Some (a, b)"
  by (induction a) auto

lemma split_once_char_notin: "split_once [x] s = Some (a, b) \<Longrightarrow> x \<notin> set a"
proof (induction s arbitrary: a)
  case Nil
  then show ?case by simp
next
  case (Cons c cs)
  then show ?case
    by (cases "x = c") (auto split: option.splits prod.splits)
qed

subsection \<open>White space\<close>

text \<open>The UTF-8 encodings of the Unicode white-space characters, for \<open>str::trim\<close>.\<close>

definition whitespace_encodings :: "string list" where
  "whitespace_encodings =
     [[CHR 0x09], [CHR 0x0A], [CHR 0x0B], [CHR 0x0C], [CHR 0x0D], [CHR 0x20],
      [CHR 0xC2, CHR 0x85], [CHR 0xC2, CHR 0xA0], [CHR 0xE1, CHR 0x9A, CHR 0x80]]
     @ map (\<lambda>b. [CHR 0xE2, CHR 0x80, b])
         [CHR 0x80, CHR 0x81, CHR 0x82, CHR 0x83, CHR 0x84, CHR 0x85, CHR 0x86, CHR 0x87, CHR 0x88,
          CHR 0x89, CHR 0x8A, CHR 0xA8, CHR 0xA9, CHR 0xAF]
     @ [[CHR 0xE2, CHR 0x81, CHR 0x9F], [CHR 0xE3, CHR 0x80, CHR 0x80]]"

text \<open>
  \<open>str::trim\<close>: leading white space is removed, then trailing white space on the reversed text.
  Every step removes at least one byte, so the length of the text bounds their number.
\<close>

fun strip_steps :: "string list \<Rightarrow> nat \<Rightarrow> string \<Rightarrow> string" where
  "strip_steps ws 0 s = s"
| "strip_steps ws (Suc n) s =
     (case List.find (\<lambda>w. starts_with w s) ws of
        None \<Rightarrow> s
      | Some w \<Rightarrow> strip_steps ws n (drop (length w) s))"

definition trim :: "string \<Rightarrow> string" where
  "trim s =
     (let t = strip_steps whitespace_encodings (length s) s
      in rev (strip_steps (map rev whitespace_encodings) (length t) (rev t)))"

subsection \<open>Decimal numbers\<close>

definition is_ascii_digit :: "char \<Rightarrow> bool" where
  "is_ascii_digit c = (c \<in> set ''0123456789'')"

definition digit_val :: "char \<Rightarrow> nat" where
  "digit_val c = of_char c - of_char (CHR ''0'')"

definition digit_char :: "nat \<Rightarrow> char" where
  "digit_char d = ''0123456789'' ! d"

text \<open>\<open>dec_val\<close> reads a string of digits, \<open>show_nat\<close> is the decimal \<open>Display\<close> of an integer.\<close>

definition dec_val :: "string \<Rightarrow> nat" where
  "dec_val s = foldl (\<lambda>n c. 10 * n + digit_val c) 0 s"

fun show_nat :: "nat \<Rightarrow> string" where
  "show_nat n = (if n < 10 then [digit_char n] else show_nat (n div 10) @ [digit_char (n mod 10)])"

declare show_nat.simps [simp del]

lemma digit_val_char [simp]: "d < 10 \<Longrightarrow> digit_val (digit_char d) = d"
  by (auto simp: digit_val_def digit_char_def numeral_eq_Suc less_Suc_eq)

lemma is_ascii_digit_char [simp]: "d < 10 \<Longrightarrow> is_ascii_digit (digit_char d)"
  unfolding is_ascii_digit_def digit_char_def by (rule nth_mem) simp

lemma show_nat_digits: "\<forall>c \<in> set (show_nat n). is_ascii_digit c"
proof (induction n rule: show_nat.induct)
  case (1 n)
  then show ?case
    by (cases "n < 10") (auto simp: show_nat.simps [of n])
qed

lemma show_nat_not_Nil [simp]: "show_nat n \<noteq> []"
  by (subst show_nat.simps) simp

lemma dec_val_snoc [simp]: "dec_val (s @ [c]) = 10 * dec_val s + digit_val c"
  by (simp add: dec_val_def)

lemma dec_val_show_nat [simp]: "dec_val (show_nat n) = n"
proof (induction n rule: show_nat.induct)
  case (1 n)
  show ?case
  proof (cases "n < 10")
    case True
    then show ?thesis by (simp add: show_nat.simps [of n] dec_val_def)
  next
    case False
    with 1 have "dec_val (show_nat (n div 10)) = n div 10" by simp
    with False show ?thesis by (simp add: show_nat.simps [of n])
  qed
qed

text \<open>\<open>str::parse::<u64>\<close> on a non-empty digit string: fails on overflow only.\<close>

definition parse_u64_digits :: "string \<Rightarrow> u64 option" where
  "parse_u64_digits s = u64_of_nat (dec_val s)"

lemma parse_u64_digits_show [simp]: "parse_u64_digits (show_nat (unat w)) = Some w"
  by (simp add: parse_u64_digits_def)

text \<open>\<open>str::parse::<u64>\<close> on any string: one leading plus sign is accepted.\<close>

definition parse_u64 :: "string \<Rightarrow> u64 option" where
  "parse_u64 s =
     (let d = (case strip_prefix ''+'' s of Some r \<Rightarrow> r | None \<Rightarrow> s)
      in if d \<noteq> [] \<and> list_all is_ascii_digit d then parse_u64_digits d else None)"

lemma strip_plus_digits: "\<forall>c \<in> set s. is_ascii_digit c \<Longrightarrow> strip_prefix ''+'' s = None"
  by (cases s) (auto simp: is_ascii_digit_def)

lemma parse_u64_show [simp]: "parse_u64 (show_nat (unat w)) = Some w"
  using show_nat_digits [of "unat w"]
  by (simp add: parse_u64_def strip_plus_digits list_all_iff)

lemma strip_steps_digit:
  assumes "is_ascii_digit c" "\<forall>w \<in> set ws. w \<noteq> [] \<and> \<not> is_ascii_digit (hd w)"
  shows "strip_steps ws n (c # s) = c # s"
proof (cases n)
  case (Suc k)
  have "\<not> starts_with w (c # s)" if "w \<in> set ws" for w
  proof -
    have "w \<noteq> []" "\<not> is_ascii_digit (hd w)" using assms that by auto
    then show ?thesis using assms(1) by (cases w) (auto simp: starts_with_def)
  qed
  then have "List.find (\<lambda>w. starts_with w (c # s)) ws = None" by (auto simp: find_None_iff)
  then show ?thesis by (simp add: Suc)
qed simp

lemma whitespace_not_digit:
  "\<forall>w \<in> set whitespace_encodings. w \<noteq> [] \<and> \<not> is_ascii_digit (hd w)"
  "\<forall>w \<in> set (map rev whitespace_encodings). w \<noteq> [] \<and> \<not> is_ascii_digit (hd w)"
  by (simp_all add: whitespace_encodings_def is_ascii_digit_def)

lemma trim_digits:
  assumes "s \<noteq> []" "\<forall>c \<in> set s. is_ascii_digit c"
  shows "trim s = s"
proof -
  obtain c t where s: "s = c # t" using assms by (cases s) auto
  obtain d u where r: "rev s = d # u" using assms by (cases "rev s") auto
  have "d \<in> set s" using r by (metis list.set_intros(1) set_rev)
  then have "strip_steps (map rev whitespace_encodings) (length s) (rev s) = rev s"
    unfolding r using assms by (intro strip_steps_digit whitespace_not_digit) auto
  moreover have "strip_steps whitespace_encodings (length s) s = s"
    unfolding s using assms s by (intro strip_steps_digit whitespace_not_digit) auto
  ultimately show ?thesis by (simp add: trim_def)
qed

subsection \<open>Lower-case hexadecimal\<close>

definition hex_digit :: "nat \<Rightarrow> char" where
  "hex_digit d = ''0123456789abcdef'' ! d"

definition hex_byte :: "byte \<Rightarrow> string" where
  "hex_byte b = [hex_digit (unat b div 16), hex_digit (unat b mod 16)]"

lemma hex_digit_inj: "d < 16 \<Longrightarrow> e < 16 \<Longrightarrow> hex_digit d = hex_digit e \<longleftrightarrow> d = e"
  unfolding hex_digit_def by (rule nth_eq_iff_index_eq) simp_all

lemma hex_digit_lower:
  "d < 16 \<Longrightarrow> is_ascii_digit (hex_digit d) \<or> hex_digit d \<in> set ''abcdef''"
proof -
  assume "d < 16"
  then have "hex_digit d \<in> set ''0123456789abcdef''"
    unfolding hex_digit_def by (intro nth_mem) simp
  then show ?thesis unfolding is_ascii_digit_def by auto
qed

lemma unat_byte_div: "unat (b :: byte) div 16 < 16"
proof -
  have "unat b < 2 ^ LENGTH(8)" by (rule unsigned_less)
  then show ?thesis by (simp add: less_mult_imp_div_less)
qed

lemma hex_byte_inj: "hex_byte a = hex_byte b \<longleftrightarrow> a = b"
proof
  assume "hex_byte a = hex_byte b"
  then have "unat a div 16 = unat b div 16" "unat a mod 16 = unat b mod 16"
    by (simp_all add: hex_byte_def hex_digit_inj unat_byte_div)
  then have "unat a = unat b" by (metis div_mult_mod_eq)
  then show "a = b" by (simp add: word_unat_eq_iff)
qed simp

lemma concat_hex_inj: "concat (map hex_byte xs) = concat (map hex_byte ys) \<longleftrightarrow> xs = ys"
proof (induction xs arbitrary: ys)
  case Nil
  then show ?case by (cases ys) (auto simp: hex_byte_def)
next
  case (Cons x xs)
  show ?case
  proof (cases ys)
    case Nil
    then show ?thesis by (simp add: hex_byte_def)
  next
    case ys: (Cons y ys')
    have "concat (map hex_byte (x # xs)) = concat (map hex_byte ys) \<longleftrightarrow>
        hex_byte x = hex_byte y \<and> concat (map hex_byte xs) = concat (map hex_byte ys')"
      by (auto simp: ys hex_byte_def)
    then show ?thesis using Cons.IH by (simp add: ys hex_byte_inj)
  qed
qed

section \<open>Slices and indices\<close>

text \<open>
  A borrowed slice of a buffer is a pointer and a length, that is an offset range
  \<open>(start, end)\<close> of the buffer; \<open>slice_of\<close> reads it. Indexing and range-indexing panic
  outside the buffer.
\<close>

type_synonym slice = "nat \<times> nat"

definition slice_of :: "'a list \<Rightarrow> slice \<Rightarrow> 'a list" where
  "slice_of xs r = take (snd r - fst r) (drop (fst r) xs)"

definition index_slice :: "'a list \<Rightarrow> nat \<Rightarrow> nat \<Rightarrow> (slice, 'e) result" where
  "index_slice xs i j = (if i \<le> j \<and> j \<le> length xs then Ok (i, j) else Panicked)"

definition vec_index :: "'a list \<Rightarrow> nat \<Rightarrow> ('a, 'e) result" where
  "vec_index xs i = (if i < length xs then Ok (xs ! i) else Panicked)"

lemma slice_of_whole [simp]: "slice_of xs (0, length xs) = xs"
  by (simp add: slice_of_def)

lemma length_slice_of: "j \<le> length xs \<Longrightarrow> length (slice_of xs (i, j)) = j - i"
  by (simp add: slice_of_def)

section \<open>Lists\<close>

lemma sorted_wrt_less_distinct:
  fixes xs :: "'a :: linorder list"
  shows "sorted_wrt (<) xs \<Longrightarrow> distinct xs"
  by (induction xs) auto

lemma sorted_wrt_less_unique:
  fixes xs ys :: "'a :: linorder list"
  assumes "sorted_wrt (<) xs" "sorted_wrt (<) ys" "set xs = set ys"
  shows "xs = ys"
  using assms by (simp add: sorted_distinct_set_unique strict_sorted_iff)

lemma drop_take_split: "i \<le> j \<Longrightarrow> take j xs = take i xs @ take (j - i) (drop i xs)"
  by (metis le_add_diff_inverse take_add)

end
