(* ===== verification/Ordered_Containers.thy ===== *)
theory Ordered_Containers
  imports Prelude
begin

text \<open>
  The standard library's \<open>BTreeMap\<close> and \<open>BTreeSet\<close>, which hold almost all state of the
  graph and ledger crates. What the sources rely on is lookup, insertion, removal and
  iteration in ascending key order, so a map is its entry list in strictly ascending key
  order and a set its member list in strictly ascending order. The locales state the
  contract the client theories use; they are interpreted on these definitions below.
\<close>

section \<open>Sets\<close>

type_synonym 'k btree_set = "'k list"

definition bs_ok :: "'k :: linorder btree_set \<Rightarrow> bool" where
  "bs_ok s = sorted_wrt (<) s"

fun bs_insert :: "'k :: linorder \<Rightarrow> 'k btree_set \<Rightarrow> 'k btree_set" where
  "bs_insert x [] = [x]"
| "bs_insert x (y # ys) =
     (if x = y then y # ys else if y < x then y # bs_insert x ys else x # y # ys)"

definition bs_remove :: "'k :: linorder \<Rightarrow> 'k btree_set \<Rightarrow> 'k btree_set" where
  "bs_remove x s = filter (\<lambda>y. y \<noteq> x) s"

definition bs_of_list :: "'k :: linorder list \<Rightarrow> 'k btree_set" where
  "bs_of_list xs = foldl (\<lambda>s x. bs_insert x s) [] xs"

lemma bs_ok_Nil [simp]: "bs_ok []"
  by (simp add: bs_ok_def)

lemma set_bs_insert [simp]: "set (bs_insert x s) = insert x (set s)"
  by (induction s) auto

lemma bs_ok_insert [simp]: "bs_ok s \<Longrightarrow> bs_ok (bs_insert x s)"
  by (induction s) (auto simp: bs_ok_def)

lemma bs_insert_absorb: "bs_ok s \<Longrightarrow> x \<in> set s \<Longrightarrow> bs_insert x s = s"
  by (induction s) (auto simp: bs_ok_def)

lemma set_bs_remove [simp]: "set (bs_remove x s) = set s - {x}"
  by (auto simp: bs_remove_def)

lemma bs_ok_filter [simp]: "bs_ok s \<Longrightarrow> bs_ok (filter P s)"
  by (simp add: bs_ok_def sorted_wrt_filter)

lemma bs_ok_remove [simp]: "bs_ok s \<Longrightarrow> bs_ok (bs_remove x s)"
  by (simp add: bs_remove_def)

lemma bs_ok_distinct: "bs_ok s \<Longrightarrow> distinct s"
  by (simp add: bs_ok_def sorted_wrt_less_distinct)

lemma bs_ok_eqI: "bs_ok s \<Longrightarrow> bs_ok t \<Longrightarrow> set s = set t \<Longrightarrow> s = t"
  unfolding bs_ok_def by (rule sorted_wrt_less_unique)

lemma foldl_bs_insert:
  "set (foldl (\<lambda>s x. bs_insert x s) s xs) = set s \<union> set xs"
  "bs_ok s \<Longrightarrow> bs_ok (foldl (\<lambda>s x. bs_insert x s) s xs)"
  by (induction xs arbitrary: s) auto

lemma set_bs_of_list [simp]: "set (bs_of_list xs) = set xs"
  by (simp add: bs_of_list_def foldl_bs_insert)

lemma bs_ok_of_list [simp]: "bs_ok (bs_of_list xs)"
  by (simp add: bs_of_list_def foldl_bs_insert)

lemma length_bs_insert:
  "bs_ok s \<Longrightarrow> length (bs_insert x s) = (if x \<in> set s then length s else Suc (length s))"
proof -
  assume "bs_ok s"
  then have "distinct (bs_insert x s)" "distinct s" by (simp_all add: bs_ok_distinct)
  then have "length (bs_insert x s) = card (insert x (set s))" "length s = card (set s)"
    by (simp_all add: distinct_card [symmetric])
  then show ?thesis by (simp add: card_insert_if)
qed

section \<open>Maps\<close>

type_synonym ('k, 'v) btree_map = "('k \<times> 'v) list"

definition bt_ok :: "('k :: linorder, 'v) btree_map \<Rightarrow> bool" where
  "bt_ok m = sorted_wrt (<) (map fst m)"

definition bt_get :: "('k :: linorder, 'v) btree_map \<Rightarrow> 'k \<Rightarrow> 'v option" where
  "bt_get m = map_of m"

definition bt_contains_key :: "('k :: linorder, 'v) btree_map \<Rightarrow> 'k \<Rightarrow> bool" where
  "bt_contains_key m k = (bt_get m k \<noteq> None)"

fun bt_insert :: "'k :: linorder \<Rightarrow> 'v \<Rightarrow> ('k, 'v) btree_map \<Rightarrow> ('k, 'v) btree_map" where
  "bt_insert k v [] = [(k, v)]"
| "bt_insert k v (e # m) =
     (if k = fst e then (k, v) # m else if fst e < k then e # bt_insert k v m else (k, v) # e # m)"

definition bt_remove :: "'k :: linorder \<Rightarrow> ('k, 'v) btree_map \<Rightarrow> ('k, 'v) btree_map" where
  "bt_remove k m = filter (\<lambda>e. fst e \<noteq> k) m"

definition bt_keys :: "('k :: linorder, 'v) btree_map \<Rightarrow> 'k list" where
  "bt_keys m = map fst m"

definition bt_values :: "('k :: linorder, 'v) btree_map \<Rightarrow> 'v list" where
  "bt_values m = map snd m"

text \<open>\<open>entry(k).or_default()\<close> and \<open>entry(k).or_insert(d)\<close>, followed by an update of the value.\<close>

definition bt_entry_update ::
    "'k :: linorder \<Rightarrow> 'v \<Rightarrow> ('v \<Rightarrow> 'v) \<Rightarrow> ('k, 'v) btree_map \<Rightarrow> ('k, 'v) btree_map" where
  "bt_entry_update k d f m = bt_insert k (f (case bt_get m k of None \<Rightarrow> d | Some v \<Rightarrow> v)) m"

lemma bt_ok_Nil [simp]: "bt_ok []"
  by (simp add: bt_ok_def)

lemma bt_get_Nil [simp]: "bt_get [] k = None"
  by (simp add: bt_get_def)

lemma bt_get_insert [simp]: "bt_get (bt_insert k v m) j = (if j = k then Some v else bt_get m j)"
  by (induction m) (auto simp: bt_get_def)

lemma keys_bt_insert [simp]: "fst ` set (bt_insert k v m) = insert k (fst ` set m)"
  by (induction m) auto

lemma bt_ok_insert [simp]: "bt_ok m \<Longrightarrow> bt_ok (bt_insert k v m)"
  by (induction m) (auto simp: bt_ok_def dest: arg_cong [where f = "(`) fst"])

lemma bt_ok_distinct: "bt_ok m \<Longrightarrow> distinct (map fst m)"
  by (simp add: bt_ok_def sorted_wrt_less_distinct)

lemma bt_get_eq_Some_iff: "bt_ok m \<Longrightarrow> bt_get m k = Some v \<longleftrightarrow> (k, v) \<in> set m"
  by (simp add: bt_get_def bt_ok_distinct)

lemma bt_get_SomeD: "bt_get m k = Some v \<Longrightarrow> (k, v) \<in> set m"
  by (simp add: bt_get_def map_of_SomeD)

lemma bt_get_None_iff: "bt_get m k = None \<longleftrightarrow> k \<notin> fst ` set m"
  by (simp add: bt_get_def map_of_eq_None_iff)

lemma bt_contains_key_iff: "bt_contains_key m k \<longleftrightarrow> k \<in> fst ` set m"
  by (simp add: bt_contains_key_def bt_get_None_iff)

lemma set_bt_keys: "set (bt_keys m) = fst ` set m"
  by (simp add: bt_keys_def)

lemma bs_ok_bt_keys [simp]: "bt_ok m \<Longrightarrow> bs_ok (bt_keys m)"
  by (simp add: bt_ok_def bs_ok_def bt_keys_def)

lemma set_bt_values: "set (bt_values m) = snd ` set m"
  by (simp add: bt_values_def)

lemma bt_get_remove [simp]: "bt_get (bt_remove k m) j = (if j = k then None else bt_get m j)"
  by (induction m) (auto simp: bt_get_def bt_remove_def)

lemma bt_ok_remove [simp]: "bt_ok m \<Longrightarrow> bt_ok (bt_remove k m)"
  by (induction m) (auto simp: bt_ok_def bt_remove_def)

lemma bt_get_entry_update [simp]:
  "bt_get (bt_entry_update k d f m) j =
     (if j = k then Some (f (case bt_get m k of None \<Rightarrow> d | Some v \<Rightarrow> v)) else bt_get m j)"
  by (simp add: bt_entry_update_def)

lemma bt_ok_entry_update [simp]: "bt_ok m \<Longrightarrow> bt_ok (bt_entry_update k d f m)"
  by (simp add: bt_entry_update_def)

lemma set_bt_insert:
  "bt_ok m \<Longrightarrow> set (bt_insert k v m) = insert (k, v) {e \<in> set m. fst e \<noteq> k}"
proof -
  assume ok: "bt_ok m"
  have "(a, b) \<in> set (bt_insert k v m) \<longleftrightarrow> (a, b) \<in> insert (k, v) {e \<in> set m. fst e \<noteq> k}" for a b
    using ok by (auto simp: bt_get_eq_Some_iff [symmetric] bt_ok_insert)
  then show ?thesis by auto
qed

text \<open>
  A key above every present key is appended: the shape of an append-only ledger keyed by
  an increasing ordinal.
\<close>

lemma bt_insert_last: "\<forall>k' \<in> fst ` set m. k' < k \<Longrightarrow> bt_insert k v m = m @ [(k, v)]"
  by (induction m) auto

lemma length_bt_insert:
  "bt_ok m \<Longrightarrow> length (bt_insert k v m) = (if k \<in> fst ` set m then length m else Suc (length m))"
  by (induction m) (auto simp: bt_ok_def)

lemma assoc_eqI:
  "map fst xs = map fst ys \<Longrightarrow> distinct (map fst xs) \<Longrightarrow> set xs = set ys \<Longrightarrow> xs = ys"
proof (induction xs arbitrary: ys)
  case Nil
  then show ?case by simp
next
  case (Cons e xs)
  then obtain e' ys' where ys: "ys = e' # ys'" and keys: "map fst xs = map fst ys'"
    and key: "fst e = fst e'"
    by (cases ys) auto
  have fresh: "fst e \<notin> fst ` set xs" "fst e \<notin> fst ` set ys'"
    using Cons.prems(2) keys by (simp_all flip: set_map)
  have "e \<in> set ys" using Cons.prems(3) by auto
  with fresh(2) ys have e: "e = e'" by force
  have "set xs = set ys'"
    using Cons.prems(3) fresh unfolding ys e [symmetric]
    by (metis Diff_insert_absorb image_eqI list.simps(15))
  with Cons.IH [OF keys] Cons.prems(2) show ?case by (simp add: ys e)
qed

section \<open>The contract of an ordered map\<close>

locale ordered_map =
  fixes empty :: "'m"
    and get :: "'m \<Rightarrow> 'k :: linorder \<Rightarrow> 'v option"
    and ins :: "'k \<Rightarrow> 'v \<Rightarrow> 'm \<Rightarrow> 'm"
    and del :: "'k \<Rightarrow> 'm \<Rightarrow> 'm"
    and entries :: "'m \<Rightarrow> ('k \<times> 'v) list"
    and ok :: "'m \<Rightarrow> bool"
  assumes get_empty: "get empty k = None"
    and get_ins: "ok m \<Longrightarrow> get (ins k v m) j = (if j = k then Some v else get m j)"
    and get_del: "ok m \<Longrightarrow> get (del k m) j = (if j = k then None else get m j)"
    and get_entries: "ok m \<Longrightarrow> get m k = Some v \<longleftrightarrow> (k, v) \<in> set (entries m)"
    and ascending: "ok m \<Longrightarrow> sorted_wrt (<) (map fst (entries m))"
    and ok_empty: "ok empty"
    and ok_ins: "ok m \<Longrightarrow> ok (ins k v m)"
    and ok_del: "ok m \<Longrightarrow> ok (del k m)"
begin

text \<open>Iteration order is a function of the contents, not of the insertion history.\<close>

lemma entries_determined:
  assumes "ok m" "ok n" "\<And>k. get m k = get n k"
  shows "entries m = entries n"
proof -
  have "(k, v) \<in> set (entries m) \<longleftrightarrow> (k, v) \<in> set (entries n)" for k v
    using assms get_entries [of m k v] get_entries [of n k v] by simp
  then have set_eq: "set (entries m) = set (entries n)" by auto
  have "sorted_wrt (<) (map fst (entries m))" "sorted_wrt (<) (map fst (entries n))"
    using assms ascending by auto
  then have "map fst (entries m) = map fst (entries n)"
    by (rule sorted_wrt_less_unique) (simp add: set_eq)
  moreover have "distinct (map fst (entries m))"
    using assms(1) ascending sorted_wrt_less_distinct by blast
  ultimately show ?thesis
    using set_eq by (simp add: assoc_eqI)
qed

lemma ins_commute:
  "ok m \<Longrightarrow> j \<noteq> k \<Longrightarrow> entries (ins j u (ins k v m)) = entries (ins k v (ins j u m))"
  by (rule entries_determined) (auto simp: ok_ins get_ins)

lemma ins_overwrite: "ok m \<Longrightarrow> entries (ins k v (ins k u m)) = entries (ins k v m)"
  by (rule entries_determined) (auto simp: ok_ins get_ins)

lemma del_ins_fresh: "ok m \<Longrightarrow> get m k = None \<Longrightarrow> entries (del k (ins k v m)) = entries m"
  by (rule entries_determined) (auto simp: ok_ins ok_del get_ins get_del)

end

interpretation btm: ordered_map "[]" bt_get bt_insert bt_remove "\<lambda>m. m" bt_ok
  by unfold_locales (simp_all add: bt_get_eq_Some_iff, simp add: bt_ok_def)

section \<open>The contract of an ordered set\<close>

locale ordered_set =
  fixes empty :: "'s"
    and ins :: "'k :: linorder \<Rightarrow> 's \<Rightarrow> 's"
    and del :: "'k \<Rightarrow> 's \<Rightarrow> 's"
    and elems :: "'s \<Rightarrow> 'k list"
    and ok :: "'s \<Rightarrow> bool"
  assumes elems_empty: "set (elems empty) = {}"
    and elems_ins: "ok s \<Longrightarrow> set (elems (ins x s)) = insert x (set (elems s))"
    and elems_del: "ok s \<Longrightarrow> set (elems (del x s)) = set (elems s) - {x}"
    and ascending: "ok s \<Longrightarrow> sorted_wrt (<) (elems s)"
    and ok_empty: "ok empty"
    and ok_ins: "ok s \<Longrightarrow> ok (ins x s)"
    and ok_del: "ok s \<Longrightarrow> ok (del x s)"
begin

lemma elems_determined:
  "ok s \<Longrightarrow> ok t \<Longrightarrow> set (elems s) = set (elems t) \<Longrightarrow> elems s = elems t"
  by (rule sorted_wrt_less_unique) (auto intro: ascending)

lemma ins_absorb: "ok s \<Longrightarrow> x \<in> set (elems s) \<Longrightarrow> elems (ins x s) = elems s"
  by (rule elems_determined) (auto simp: ok_ins elems_ins)

lemma ins_left_commute: "ok s \<Longrightarrow> elems (ins x (ins y s)) = elems (ins y (ins x s))"
  by (rule elems_determined) (auto simp: ok_ins elems_ins)

end

interpretation bts: ordered_set "[]" bs_insert bs_remove "\<lambda>s. s" bs_ok
  by unfold_locales (simp_all, simp add: bs_ok_def)

end
