(* ===== verification/Zero_Ref.thy ===== *)
theory Zero_Ref
  imports Ordered_Containers
begin

unbundle bit_operations_syntax

text \<open>
  The portable blob reference of \<^verbatim>\<open>crates/zerostack/zero-ref/src/lib.rs\<close>: the grammar
  \<open>z://blob/<sha256>[#B..|#L..]\<close>, its printer, the byte and line fragment selectors, and the
  digest-bound span references. SHA-256 itself is third-party code and is the parameter
  \<open>sha\<close>, a function from byte strings to byte strings. A selector returns a slice of the
  blob, as an offset range.
\<close>

section \<open>Error classes and schemes\<close>

datatype zero_ref_error_class =
    Malformed | Unsupported | RangeOutOfBounds | NotUtf8 | Missing | Io | DigestMismatch | PolicyDenied

fun zero_ref_error_as_str :: "zero_ref_error_class \<Rightarrow> string" where
  "zero_ref_error_as_str Malformed = ''malformed''"
| "zero_ref_error_as_str Unsupported = ''unsupported''"
| "zero_ref_error_as_str RangeOutOfBounds = ''range_out_of_bounds''"
| "zero_ref_error_as_str NotUtf8 = ''not_utf8''"
| "zero_ref_error_as_str Missing = ''missing''"
| "zero_ref_error_as_str Io = ''io''"
| "zero_ref_error_as_str DigestMismatch = ''digest_mismatch''"
| "zero_ref_error_as_str PolicyDenied = ''policy_denied''"

definition zero_ref_error_all :: "zero_ref_error_class list" where
  "zero_ref_error_all =
     [Malformed, Unsupported, RangeOutOfBounds, NotUtf8, Missing, Io, DigestMismatch, PolicyDenied]"

definition reserved_for_resolution :: "zero_ref_error_class list" where
  "reserved_for_resolution = [Missing, Io, PolicyDenied]"

definition parser_and_selector :: "zero_ref_error_class list" where
  "parser_and_selector = [Malformed, Unsupported, RangeOutOfBounds, NotUtf8, DigestMismatch]"

datatype zero_scheme = Z

definition zero_scheme_all :: "zero_scheme list" where
  "zero_scheme_all = [Z]"

fun zero_scheme_as_str :: "zero_scheme \<Rightarrow> string" where
  "zero_scheme_as_str Z = ''z''"

definition zero_scheme_parse :: "string \<Rightarrow> zero_scheme option" where
  "zero_scheme_parse s = List.find (\<lambda>scheme. zero_scheme_as_str scheme = s) zero_scheme_all"

definition portable_kinds :: "string list" where
  "portable_kinds = [''blob'']"

section \<open>References and their text form\<close>

datatype zero_fragment = NoFragment | Bytes u64 u64 | Lines u64 u64

record zero_ref =
  scheme :: zero_scheme
  hash :: string
  fragment :: zero_fragment

definition is_full_lower_hex :: "string \<Rightarrow> bool" where
  "is_full_lower_hex s =
     (length s = 64 \<and> list_all (\<lambda>b. is_ascii_digit b \<or> b \<in> set ''abcdef'') s)"

definition parse_u64_strict :: "string \<Rightarrow> (u64, zero_ref_error_class) result" where
  "parse_u64_strict s =
     (if s = [] \<or> \<not> list_all is_ascii_digit s then Err Malformed
      else ok_or (parse_u64_digits s) Malformed)"

definition parse_fragment :: "string \<Rightarrow> (zero_fragment, zero_ref_error_class) result" where
  "parse_fragment f =
     (case strip_prefix ''B'' f of
        Some span \<Rightarrow>
          (case split_once ''-'' span of
             Some (s, e) \<Rightarrow>
               r_bind (parse_u64_strict s) (\<lambda>start.
               r_bind (parse_u64_strict e) (\<lambda>end.
                 if start > end then Err Malformed else Ok (Bytes start end)))
           | None \<Rightarrow> Err Malformed)
      | None \<Rightarrow>
          (case strip_prefix ''L'' f of
             Some span \<Rightarrow>
               (case split_once ''-'' span of
                  None \<Rightarrow> Err Malformed
                | Some (a, b) \<Rightarrow>
                    r_bind (parse_u64_strict a) (\<lambda>start.
                    r_bind (parse_u64_strict b) (\<lambda>end.
                      if start = 0 then Err Malformed
                      else if start > end then Err Malformed
                      else Ok (Lines start end))))
           | None \<Rightarrow> Err Malformed))"

definition parse_zero_ref :: "string \<Rightarrow> (zero_ref, zero_ref_error_class) result" where
  "parse_zero_ref input =
     (case split_once ''://'' input of
        None \<Rightarrow>
          if starts_with ''g:'' input \<or> starts_with ''q:'' input then Err Unsupported
          else Err Malformed
      | Some (scheme_str, rest) \<Rightarrow>
          (case zero_scheme_parse scheme_str of
             None \<Rightarrow> Err Unsupported
           | Some sch \<Rightarrow>
               (case split_once ''/'' rest of
                  None \<Rightarrow> Err Malformed
                | Some (kind, tail) \<Rightarrow>
                    if kind \<notin> set portable_kinds then Err Unsupported
                    else
                      let (h, frag) =
                        (case split_once ''#'' tail of
                           Some (h, f) \<Rightarrow> (h, Some f)
                         | None \<Rightarrow> (tail, None))
                      in if CHR ''/'' \<in> set h then Err Malformed
                         else if \<not> is_full_lower_hex h then Err Malformed
                         else
                           r_bind (case frag of None \<Rightarrow> Ok NoFragment | Some f \<Rightarrow> parse_fragment f)
                             (\<lambda>fr. Ok \<lparr>scheme = sch, hash = h, fragment = fr\<rparr>))))"

definition display_fragment :: "zero_fragment \<Rightarrow> string" where
  "display_fragment fr =
     (case fr of
        NoFragment \<Rightarrow> []
      | Bytes s e \<Rightarrow> ''#B'' @ show_nat (unat s) @ ''-'' @ show_nat (unat e)
      | Lines s e \<Rightarrow> ''#L'' @ show_nat (unat s) @ ''-'' @ show_nat (unat e))"

definition display_zero_ref :: "zero_ref \<Rightarrow> string" where
  "display_zero_ref r =
     zero_scheme_as_str (scheme r) @ ''://blob/'' @ hash r @ display_fragment (fragment r)"

section \<open>Content hashes\<close>

definition content_hash_hex :: "(bytes \<Rightarrow> bytes) \<Rightarrow> bytes \<Rightarrow> string" where
  "content_hash_hex sha bs = concat (map hex_byte (sha bs))"

section \<open>Fragment selection\<close>

text \<open>\<open>std::str::from_utf8\<close>: the well-formed byte sequences of UTF-8.\<close>

definition utf8_ascii :: "byte \<Rightarrow> bool" where
  "utf8_ascii b = (b < 0x80)"

definition utf8_cont :: "byte \<Rightarrow> bool" where
  "utf8_cont b = (0x80 \<le> b \<and> b \<le> 0xBF)"

definition utf8_lead2 :: "byte \<Rightarrow> bool" where
  "utf8_lead2 b = (0xC2 \<le> b \<and> b \<le> 0xDF)"

definition utf8_lead3 :: "byte \<Rightarrow> byte \<Rightarrow> bool" where
  "utf8_lead3 b c =
     (0xE0 \<le> b \<and> b \<le> 0xEF \<and> utf8_cont c \<and> (b = 0xE0 \<longrightarrow> 0xA0 \<le> c) \<and> (b = 0xED \<longrightarrow> c \<le> 0x9F))"

definition utf8_lead4 :: "byte \<Rightarrow> byte \<Rightarrow> bool" where
  "utf8_lead4 b c =
     (0xF0 \<le> b \<and> b \<le> 0xF4 \<and> utf8_cont c \<and> (b = 0xF0 \<longrightarrow> 0x90 \<le> c) \<and> (b = 0xF4 \<longrightarrow> c \<le> 0x8F))"

fun utf8_valid :: "bytes \<Rightarrow> bool" where
  "utf8_valid [] = True"
| "utf8_valid (b # bs) =
     (if utf8_ascii b then utf8_valid bs
      else
        case bs of
          [] \<Rightarrow> False
        | c1 # r1 \<Rightarrow>
            if utf8_lead2 b then utf8_cont c1 \<and> utf8_valid r1
            else
              (case r1 of
                 [] \<Rightarrow> False
               | c2 # r2 \<Rightarrow>
                   if utf8_lead3 b c1 then utf8_cont c2 \<and> utf8_valid r2
                   else
                     (case r2 of
                        [] \<Rightarrow> False
                      | c3 # r3 \<Rightarrow>
                          utf8_lead4 b c1 \<and> utf8_cont c2 \<and> utf8_cont c3 \<and> utf8_valid r3)))"

datatype line_end_policy = Strict | ClampEnd

definition canonical_line_end_policy :: line_end_policy where
  "canonical_line_end_policy = ClampEnd"

abbreviation LF :: byte where
  "LF \<equiv> 0x0A"

definition line_start_offsets :: "bytes \<Rightarrow> nat list" where
  "line_start_offsets bs =
     (if bs \<noteq> []
      then 0 # map Suc (filter (\<lambda>i. bs ! i = LF \<and> i + 1 < length bs) [0..<length bs])
      else [])"

fun resolve_policy_end ::
    "line_end_policy \<Rightarrow> u64 \<Rightarrow> u64 \<Rightarrow> nat \<Rightarrow> (nat, zero_ref_error_class) result" where
  "resolve_policy_end Strict start end line_count =
     (if unat end > line_count then Err RangeOutOfBounds else Ok (unat end))"
| "resolve_policy_end ClampEnd start end line_count =
     (if line_count = 0 then Err RangeOutOfBounds
      else if unat start > line_count then Err RangeOutOfBounds
      else Ok (min (unat end) line_count))"

definition line_span_bytes :: "bytes \<Rightarrow> nat list \<Rightarrow> nat \<Rightarrow> nat \<Rightarrow> (slice, 'e) result" where
  "line_span_bytes bs line_starts start end =
     (if start = 0 then Panicked
      else
        r_bind (vec_index line_starts (start - 1)) (\<lambda>start_byte.
        r_bind (if end < length line_starts then vec_index line_starts end else Ok (length bs))
          (\<lambda>end_byte. index_slice bs start_byte end_byte)))"

definition select_lines ::
    "bytes \<Rightarrow> u64 \<Rightarrow> u64 \<Rightarrow> line_end_policy \<Rightarrow> (slice, zero_ref_error_class) result" where
  "select_lines bs start end policy =
     (if \<not> utf8_valid bs then Err NotUtf8
      else
        let line_starts = line_start_offsets bs in
        r_bind (resolve_policy_end policy start end (length line_starts)) (\<lambda>end'.
          line_span_bytes bs line_starts (unat start) end'))"

definition select_fragment_with_policy ::
    "bytes \<Rightarrow> zero_fragment \<Rightarrow> line_end_policy \<Rightarrow> (slice, zero_ref_error_class) result" where
  "select_fragment_with_policy bs fr policy =
     (case fr of
        NoFragment \<Rightarrow> Ok (0, length bs)
      | Bytes start end \<Rightarrow>
          if start > end then Err Malformed
          else if unat end > length bs then Err RangeOutOfBounds
          else index_slice bs (unat start) (unat end)
      | Lines start end \<Rightarrow>
          if start = 0 \<or> start > end then Err Malformed
          else select_lines bs start end policy)"

definition select_fragment ::
    "bytes \<Rightarrow> zero_fragment \<Rightarrow> (slice, zero_ref_error_class) result" where
  "select_fragment bs fr = select_fragment_with_policy bs fr canonical_line_end_policy"

definition unchecked_select ::
    "zero_ref \<Rightarrow> bytes \<Rightarrow> (slice, zero_ref_error_class) result" where
  "unchecked_select r bs = select_fragment bs (fragment r)"

definition select_with_policy ::
    "zero_ref \<Rightarrow> bytes \<Rightarrow> line_end_policy \<Rightarrow> (slice, zero_ref_error_class) result" where
  "select_with_policy r bs policy = select_fragment_with_policy bs (fragment r) policy"

definition verify_and_select ::
    "(bytes \<Rightarrow> bytes) \<Rightarrow> zero_ref \<Rightarrow> bytes \<Rightarrow> (slice, zero_ref_error_class) result" where
  "verify_and_select sha r bs =
     (if content_hash_hex sha bs \<noteq> hash r then Err DigestMismatch else unchecked_select r bs)"

definition verify_and_select_with_policy ::
    "(bytes \<Rightarrow> bytes) \<Rightarrow> zero_ref \<Rightarrow> bytes \<Rightarrow> line_end_policy \<Rightarrow>
       (slice, zero_ref_error_class) result" where
  "verify_and_select_with_policy sha r bs policy =
     (if content_hash_hex sha bs \<noteq> hash r then Err DigestMismatch
      else select_with_policy r bs policy)"

section \<open>Digest-bound spans\<close>

record span_ref =
  byte_len :: u64
  byte_start :: u64
  object_digest :: bytes
  object_id :: bytes
  span_digest :: bytes

datatype span_ref_error =
    Selection zero_ref_error_class | RangeOverflow | SpanRangeOutOfBounds | ObjectIdentityMismatch
  | ObjectDigestMismatch | SpanDigestMismatch | PayloadLengthMismatch

definition span_from_fragment ::
    "(bytes \<Rightarrow> bytes) \<Rightarrow> bytes \<Rightarrow> zero_fragment \<Rightarrow> (span_ref \<times> slice, span_ref_error) result" where
  "span_from_fragment sha object fr =
     r_bind (r_map_err Selection (select_fragment object fr)) (\<lambda>selected.
     r_bind (ok_or (u64_of_nat (fst selected)) RangeOverflow) (\<lambda>start.
     r_bind (ok_or (u64_of_nat (snd selected - fst selected)) RangeOverflow) (\<lambda>len.
     r_bind (ok_or (checked_add_u64 start len) RangeOverflow) (\<lambda>_.
       Ok (\<lparr>byte_len = len, byte_start = start, object_digest = sha object,
            object_id = sha object, span_digest = sha (slice_of object selected)\<rparr>,
           selected)))))"

definition verify_span ::
    "(bytes \<Rightarrow> bytes) \<Rightarrow> span_ref \<Rightarrow> bytes \<Rightarrow> (unit, span_ref_error) result" where
  "verify_span sha sp payload =
     (if u64_of_nat (length payload) \<noteq> Some (byte_len sp) then Err PayloadLengthMismatch
      else if sha payload \<noteq> span_digest sp then Err SpanDigestMismatch
      else Ok ())"

definition span_verify_and_select ::
    "(bytes \<Rightarrow> bytes) \<Rightarrow> span_ref \<Rightarrow> bytes \<Rightarrow> (slice, span_ref_error) result" where
  "span_verify_and_select sha sp object =
     (let actual = sha object in
      if actual \<noteq> object_id sp then Err ObjectIdentityMismatch
      else if actual \<noteq> object_digest sp then Err ObjectDigestMismatch
      else
        r_bind (ok_or (checked_add_u64 (byte_start sp) (byte_len sp)) RangeOverflow) (\<lambda>end.
          if unat (byte_start sp) \<le> unat end \<and> unat end \<le> length object then
            let selected = (unat (byte_start sp), unat end) in
            r_bind (verify_span sha sp (slice_of object selected)) (\<lambda>_. Ok selected)
          else Err SpanRangeOutOfBounds))"

section \<open>The grammar\<close>

text \<open>
  The reference grammar, independent of the parser's control flow: a decimal numeral
  denotes a 64-bit value, a fragment is ordered (and one-based for lines), and a reference
  is the fixed prefix, a full hash and an optional fragment.
\<close>

definition dec_text :: "u64 \<Rightarrow> string \<Rightarrow> bool" where
  "dec_text w t = (t \<noteq> [] \<and> list_all is_ascii_digit t \<and> dec_val t = unat w)"

inductive fragment_text :: "zero_fragment \<Rightarrow> string \<Rightarrow> bool" where
  no_fragment: "fragment_text NoFragment []"
| byte_fragment: "dec_text s a \<Longrightarrow> dec_text e b \<Longrightarrow> s \<le> e \<Longrightarrow>
    fragment_text (Bytes s e) (''#B'' @ a @ ''-'' @ b)"
| line_fragment: "dec_text s a \<Longrightarrow> dec_text e b \<Longrightarrow> 0 < s \<Longrightarrow> s \<le> e \<Longrightarrow>
    fragment_text (Lines s e) (''#L'' @ a @ ''-'' @ b)"

definition ref_text :: "zero_ref \<Rightarrow> string \<Rightarrow> bool" where
  "ref_text r s =
     (is_full_lower_hex (hash r) \<and>
      (\<exists>f. fragment_text (fragment r) f \<and> s = ''z://blob/'' @ hash r @ f))"

text \<open>A reference value is well-formed when it has a text form at all.\<close>

fun fragment_ok :: "zero_fragment \<Rightarrow> bool" where
  "fragment_ok NoFragment = True"
| "fragment_ok (Bytes s e) = (s \<le> e)"
| "fragment_ok (Lines s e) = (0 < s \<and> s \<le> e)"

definition zero_ref_ok :: "zero_ref \<Rightarrow> bool" where
  "zero_ref_ok r = (is_full_lower_hex (hash r) \<and> fragment_ok (fragment r))"

lemma zero_scheme_as_str_z [simp]: "zero_scheme_as_str s = ''z''"
  by (cases s) simp

lemma zero_scheme_single [simp]: "(a :: zero_scheme) = b"
  by (cases a; cases b) simp

lemma zero_ref_rebuild [simp]: "\<lparr>scheme = a, hash = hash r, fragment = fragment r\<rparr> = (r :: zero_ref)"
  by (rule zero_ref.equality) simp_all

lemma zero_scheme_parse_Some: "zero_scheme_parse s = Some sch \<longleftrightarrow> s = ''z''"
  by (auto simp: zero_scheme_parse_def zero_scheme_all_def)

lemma dec_text_show: "dec_text w (show_nat (unat w))"
  using show_nat_digits by (auto simp: dec_text_def list_all_iff)

lemma parse_u64_strict_Ok: "parse_u64_strict t = Ok w \<longleftrightarrow> dec_text w t"
proof
  assume "parse_u64_strict t = Ok w"
  then show "dec_text w t"
    by (auto simp: parse_u64_strict_def dec_text_def parse_u64_digits_def ok_or_def
        split: if_splits option.splits dest: u64_of_nat_Some)
next
  assume "dec_text w t"
  then show "parse_u64_strict t = Ok w"
    by (auto simp: parse_u64_strict_def dec_text_def parse_u64_digits_def)
qed

lemma digit_chars:
  "\<not> is_ascii_digit (CHR ''-'')" "\<not> is_ascii_digit (CHR ''#'')" "\<not> is_ascii_digit (CHR ''/'')"
  by (simp_all add: is_ascii_digit_def)

lemma dec_text_no_dash: "dec_text w t \<Longrightarrow> CHR ''-'' \<notin> set t"
  using digit_chars(1) by (auto simp: dec_text_def list_all_iff)

lemma full_hex_chars: "is_full_lower_hex h \<Longrightarrow> CHR ''#'' \<notin> set h \<and> CHR ''/'' \<notin> set h"
  using digit_chars by (auto simp: is_full_lower_hex_def list_all_iff)

lemma parse_fragment_Ok_text:
  assumes "parse_fragment f = Ok fr"
  shows "fragment_text fr (''#'' @ f)"
proof (cases "strip_prefix ''B'' f")
  case (Some span)
  with assms obtain a b s e where
    "split_once ''-'' span = Some (a, b)" "dec_text s a" "dec_text e b" "s \<le> e" "fr = Bytes s e"
    by (auto simp: parse_fragment_def parse_u64_strict_Ok split: option.splits if_splits)
  moreover have "f = ''B'' @ span" using Some by (simp add: strip_prefix_Some)
  ultimately show ?thesis
    using byte_fragment [of s a e b] by (auto dest!: split_once_Some)
next
  case None
  with assms obtain span a b s e where
    "f = ''L'' @ span" "split_once ''-'' span = Some (a, b)" "dec_text s a" "dec_text e b"
    "s \<noteq> 0" "s \<le> e" "fr = Lines s e"
    by (auto simp: parse_fragment_def parse_u64_strict_Ok strip_prefix_Some
        split: option.splits if_splits)
  then show ?thesis
    using line_fragment [of s a e b] by (auto dest!: split_once_Some simp: word_gt_0)
qed

lemma parse_fragment_text_Ok:
  assumes "fragment_text fr (''#'' @ f)"
  shows "parse_fragment f = Ok fr"
  using assms
proof cases
  case (byte_fragment s a e b)
  then show ?thesis
    using split_once_char_append [OF dec_text_no_dash, of s a b]
    by (auto simp: parse_fragment_def parse_u64_strict_Ok [symmetric])
next
  case (line_fragment s a e b)
  then show ?thesis
    using split_once_char_append [OF dec_text_no_dash, of s a b]
    by (auto simp: parse_fragment_def parse_u64_strict_Ok [symmetric])
qed simp

lemma fragment_text_hash: "fragment_text fr f \<Longrightarrow> f = [] \<and> fr = NoFragment \<or> (\<exists>g. f = ''#'' @ g)"
  by (auto elim!: fragment_text.cases)

lemma parse_zero_ref_text:
  assumes "parse_zero_ref s = Ok r"
  shows "ref_text r s"
proof -
  from assms obtain a rest where s1: "split_once ''://'' s = Some (a, rest)"
    by (auto simp: parse_zero_ref_def split: option.splits if_splits)
  with assms have a: "a = ''z''"
    by (auto simp: parse_zero_ref_def zero_scheme_parse_Some split: option.splits)
  from assms s1 obtain kind tl where s2: "split_once ''/'' rest = Some (kind, tl)"
    by (auto simp: parse_zero_ref_def split: option.splits)
  from assms s1 s2 have kind: "kind = ''blob''"
    by (auto simp: parse_zero_ref_def portable_kinds_def split: option.splits if_splits)
  have s: "s = ''z://blob/'' @ tl"
    using split_once_Some [OF s1] split_once_Some [OF s2] a kind by simp
  show ?thesis
  proof (cases "split_once ''#'' tl")
    case None
    with assms s1 s2 have "is_full_lower_hex tl" "hash r = tl" "fragment r = NoFragment"
      by (auto simp: parse_zero_ref_def split: option.splits if_splits)
    then show ?thesis
      using s by (auto simp: ref_text_def intro: fragment_text.no_fragment)
  next
    case (Some hf)
    then obtain h f where hf: "split_once ''#'' tl = Some (h, f)" by (cases hf) auto
    with assms s1 s2 have "is_full_lower_hex h" "hash r = h" "parse_fragment f = Ok (fragment r)"
      by (auto simp: parse_zero_ref_def split: option.splits if_splits)
    then show ?thesis
      using s split_once_Some [OF hf] parse_fragment_Ok_text [of f "fragment r"]
      by (auto simp: ref_text_def)
  qed
qed

lemma text_parse_zero_ref:
  assumes "ref_text r s"
  shows "parse_zero_ref s = Ok r"
proof -
  from assms obtain f where hex: "is_full_lower_hex (hash r)" and f: "fragment_text (fragment r) f"
    and s: "s = ''z://blob/'' @ hash r @ f"
    by (auto simp: ref_text_def)
  have sch: "zero_scheme_parse ''z'' = Some Z" by (simp add: zero_scheme_parse_Some)
  have step: "parse_zero_ref s =
      (let (h, frag) = (case split_once ''#'' (hash r @ f) of
           Some (h, f) \<Rightarrow> (h, Some f) | None \<Rightarrow> (hash r @ f, None))
       in if CHR ''/'' \<in> set h then Err Malformed
          else if \<not> is_full_lower_hex h then Err Malformed
          else r_bind (case frag of None \<Rightarrow> Ok NoFragment | Some f \<Rightarrow> parse_fragment f)
                 (\<lambda>fr. Ok \<lparr>scheme = Z, hash = h, fragment = fr\<rparr>))"
    by (simp add: s parse_zero_ref_def sch portable_kinds_def)
  from fragment_text_hash [OF f] show ?thesis
  proof
    assume "f = [] \<and> fragment r = NoFragment"
    then have "f = []" and fr: "NoFragment = fragment r" by simp_all
    then show ?thesis
      using hex full_hex_chars [OF hex]
      by (simp add: step split_once_char_None [THEN iffD2] fr del: r_bind_eq_Ok)
  next
    assume "\<exists>g. f = ''#'' @ g"
    then obtain g where g: "f = ''#'' @ g" by blast
    with f have "parse_fragment g = Ok (fragment r)" by (simp add: parse_fragment_text_Ok)
    then show ?thesis
      using hex full_hex_chars [OF hex] split_once_char_append [of "CHR ''#''" "hash r" g]
      by (simp add: step g)
  qed
qed

lemma display_fragment_text: "fragment_ok fr \<Longrightarrow> fragment_text fr (display_fragment fr)"
  using dec_text_show
  by (cases fr) (auto simp: display_fragment_def intro: fragment_text.intros [simplified])

lemma display_text: "zero_ref_ok r \<Longrightarrow> ref_text r (display_zero_ref r)"
  by (auto simp: zero_ref_ok_def ref_text_def display_zero_ref_def
      intro!: exI [of _ "display_fragment (fragment r)"] display_fragment_text)

lemma text_ok: "ref_text r s \<Longrightarrow> zero_ref_ok r"
  by (auto simp: ref_text_def zero_ref_ok_def elim!: fragment_text.cases)

lemma parse_u64_strict_class: "parse_u64_strict t = Err e \<Longrightarrow> e = Malformed"
  by (auto simp: parse_u64_strict_def ok_or_def split: if_splits option.splits)

lemma parse_u64_strict_total: "parse_u64_strict t \<noteq> Panicked"
  by (auto simp: parse_u64_strict_def ok_or_def split: if_splits option.splits)

lemma parse_fragment_class: "parse_fragment f = Err e \<Longrightarrow> e = Malformed"
  by (auto simp: parse_fragment_def r_bind_eq_Err dest: parse_u64_strict_class
      split: option.splits if_splits)

lemma parse_fragment_total: "parse_fragment f \<noteq> Panicked"
  by (auto simp: parse_fragment_def r_bind_eq_Panicked parse_u64_strict_total
      split: option.splits if_splits)

section \<open>Lines\<close>

text \<open>
  The reference notion of a line: \<open>split_inclusive\<close> cuts after every LF and keeps the
  terminator, so the lines concatenate to the text and the empty text has none.
\<close>

fun split_inclusive_lf :: "bytes \<Rightarrow> bytes list" where
  "split_inclusive_lf [] = []"
| "split_inclusive_lf (b # bs) =
     (if b = LF then [b] # split_inclusive_lf bs
      else case split_inclusive_lf bs of [] \<Rightarrow> [[b]] | l # ls \<Rightarrow> (b # l) # ls)"

fun line_offsets :: "nat \<Rightarrow> 'a list list \<Rightarrow> nat list" where
  "line_offsets n [] = []"
| "line_offsets n (l # ls) = n # line_offsets (n + length l) ls"

lemma concat_split_inclusive [simp]: "concat (split_inclusive_lf bs) = bs"
  by (induction bs) (auto split: list.splits)

lemma split_inclusive_Nil_iff [simp]: "split_inclusive_lf bs = [] \<longleftrightarrow> bs = []"
  by (cases bs) (auto split: list.splits)

lemma line_offsets_Suc: "line_offsets (Suc n) ls = map Suc (line_offsets n ls)"
  by (induction ls arbitrary: n) auto

lemma length_line_offsets [simp]: "length (line_offsets n ls) = length ls"
  by (induction ls arbitrary: n) auto

lemma nth_line_offsets:
  "i < length ls \<Longrightarrow> line_offsets n ls ! i = n + length (concat (take i ls))"
proof (induction ls arbitrary: n i)
  case Nil
  then show ?case by simp
next
  case (Cons l ls)
  then show ?case by (cases i) auto
qed

lemma upt_0_Suc: "[0..<Suc n] = 0 # map Suc [0..<n]"
  by (simp only: map_Suc_upt) (simp add: upt_conv_Cons del: upt_Suc)

lemma line_start_offsets_Cons:
  assumes "bs \<noteq> []"
  shows "line_start_offsets (b # bs) =
     0 # (if b = LF then [1] else []) @ map Suc (tl (line_start_offsets bs))"
proof -
  have "filter (\<lambda>i. (b # bs) ! i = LF \<and> i + 1 < length (b # bs)) [0..<length (b # bs)] =
      (if b = LF then [0] else []) @
      map Suc (filter (\<lambda>i. bs ! i = LF \<and> i + 1 < length bs) [0..<length bs])"
    using assms by (simp add: upt_0_Suc filter_map o_def del: upt_Suc)
  then show ?thesis
    using assms by (simp add: line_start_offsets_def)
qed

lemma line_start_offsets_eq: "line_start_offsets bs = line_offsets 0 (split_inclusive_lf bs)"
proof (induction bs)
  case Nil
  then show ?case by (simp add: line_start_offsets_def)
next
  case (Cons b bs)
  show ?case
  proof (cases "bs = []")
    case True
    then show ?thesis by (simp add: line_start_offsets_def)
  next
    case False
    then obtain l ls where ls: "split_inclusive_lf bs = l # ls"
      by (cases "split_inclusive_lf bs") auto
    then show ?thesis
      using False Cons.IH by (simp add: line_start_offsets_Cons line_offsets_Suc [symmetric])
  qed
qed

lemma take_concat_lines: "take (length (concat (take i ls))) (concat ls) = concat (take i ls)"
  by (metis append_eq_conv_conj append_take_drop_id concat_append)

lemma drop_concat_lines: "drop (length (concat (take i ls))) (concat ls) = concat (drop i ls)"
  by (metis append_eq_conv_conj append_take_drop_id concat_append)

lemma length_concat_take_mono:
  "i \<le> j \<Longrightarrow> length (concat (take i ls)) \<le> length (concat (take j ls))"
  by (simp add: drop_take_split [of i j ls])

lemma slice_lines:
  assumes "i \<le> j"
  shows "slice_of (concat ls) (length (concat (take i ls)), length (concat (take j ls))) =
    concat (drop i (take j ls))"
proof -
  have "slice_of (concat ls) (length (concat (take i ls)), length (concat (take j ls))) =
      drop (length (concat (take i ls))) (take (length (concat (take j ls))) (concat ls))"
    by (simp add: slice_of_def drop_take)
  also have "\<dots> = drop (length (concat (take i (take j ls)))) (concat (take j ls))"
    using assms by (simp add: take_concat_lines min_def)
  also have "\<dots> = concat (drop i (take j ls))"
    by (rule drop_concat_lines)
  finally show ?thesis .
qed

abbreviation line_count :: "bytes \<Rightarrow> nat" where
  "line_count bs \<equiv> length (split_inclusive_lf bs)"

lemma length_line_start_offsets [simp]: "length (line_start_offsets bs) = line_count bs"
  by (simp add: line_start_offsets_eq)

lemma line_start_offsets_Nil [simp]: "line_start_offsets bs = [] \<longleftrightarrow> bs = []"
  by (simp add: line_start_offsets_def)

text \<open>The offset where line \<open>i\<close> (zero-based) begins; the blob's length past the last line.\<close>

definition line_offset :: "bytes \<Rightarrow> nat \<Rightarrow> nat" where
  "line_offset bs i = length (concat (take i (split_inclusive_lf bs)))"

lemma line_offset_le: "line_offset bs i \<le> length bs"
  unfolding line_offset_def
  by (metis append_take_drop_id concat_append concat_split_inclusive le_add1 length_append)

lemma line_offset_mono: "i \<le> j \<Longrightarrow> line_offset bs i \<le> line_offset bs j"
  by (simp add: line_offset_def length_concat_take_mono)

lemma line_offset_end: "line_count bs \<le> i \<Longrightarrow> line_offset bs i = length bs"
  by (simp add: line_offset_def)

lemma line_span_bytes_Ok:
  assumes "0 < start" "start \<le> line_count bs" "start \<le> end"
  shows "line_span_bytes bs (line_start_offsets bs) start end =
    Ok (line_offset bs (start - 1), line_offset bs end)"
proof -
  have "line_offset bs (start - 1) \<le> line_offset bs end"
    using assms by (intro line_offset_mono) simp
  with assms show ?thesis
    by (auto simp: line_span_bytes_def line_start_offsets_eq vec_index_def nth_line_offsets
        index_slice_def line_offset_le line_offset_end line_offset_def [symmetric])
qed

lemma select_lines_cases:
  assumes "0 < unat s" "unat s \<le> unat e"
  shows "select_lines bs s e ClampEnd =
     (if \<not> utf8_valid bs then Err NotUtf8
      else if line_count bs < unat s then Err RangeOutOfBounds
      else Ok (line_offset bs (unat s - 1), line_offset bs (min (unat e) (line_count bs))))"
    and "select_lines bs s e Strict =
     (if \<not> utf8_valid bs then Err NotUtf8
      else if line_count bs < unat e then Err RangeOutOfBounds
      else Ok (line_offset bs (unat s - 1), line_offset bs (unat e)))"
  using assms by (auto simp: select_lines_def Let_def line_span_bytes_Ok)

lemma slice_line_offsets:
  "i \<le> j \<Longrightarrow> slice_of bs (line_offset bs i, line_offset bs j) =
     concat (drop i (take j (split_inclusive_lf bs)))"
  using slice_lines [of i j "split_inclusive_lf bs"] by (simp add: line_offset_def)

text \<open>Cutting valid UTF-8 after an LF gives two valid pieces.\<close>

lemma LF_ascii: "utf8_ascii LF"
  by (simp add: utf8_ascii_def)

lemma LF_not_cont: "\<not> utf8_cont LF"
  by (simp add: utf8_cont_def)

lemma utf8_lead_conts: "utf8_lead3 b c \<Longrightarrow> utf8_cont c" "utf8_lead4 b c \<Longrightarrow> utf8_cont c"
  by (simp_all add: utf8_lead3_def utf8_lead4_def)

lemma utf8_valid_multi:
  assumes "utf8_valid (b # bs)" "\<not> utf8_ascii b"
  shows "\<exists>c r. bs = c @ r \<and> LF \<notin> set c \<and> utf8_valid r \<and> (\<forall>r'. utf8_valid r' \<longrightarrow> utf8_valid (b # c @ r'))"
proof -
  obtain c1 r1 where bs: "bs = c1 # r1" using assms by (cases bs) auto
  show ?thesis
  proof (cases "utf8_lead2 b")
    case True
    with assms bs LF_not_cont show ?thesis by (intro exI [of _ "[c1]"] exI [of _ r1]) auto
  next
    case False
    then obtain c2 r2 where r1: "r1 = c2 # r2" using assms bs by (cases r1) auto
    show ?thesis
    proof (cases "utf8_lead3 b c1")
      case True
      with False assms bs r1 LF_not_cont utf8_lead_conts(1) show ?thesis 
        by (intro exI [of _ "[c1, c2]"] exI [of _ r2]) auto
    next
      case nl3: False
      then obtain c3 r3 where "r2 = c3 # r3" using False assms bs r1 by (cases r2) auto
      with nl3 False assms bs r1 LF_not_cont utf8_lead_conts(2) show ?thesis 
        by (intro exI [of _ "[c1, c2, c3]"] exI [of _ r3]) auto
    qed
  qed
qed

lemma utf8_valid_cut: "utf8_valid (xs @ LF # ys) \<Longrightarrow> utf8_valid (xs @ [LF]) \<and> utf8_valid ys"
proof (induction xs rule: length_induct)
  case (1 xs)
  show ?case
  proof (cases xs)
    case Nil
    with 1 LF_ascii show ?thesis by simp
  next
    case (Cons b bs)
    show ?thesis
    proof (cases "utf8_ascii b")
      case True
      with Cons "1.prems" "1.IH" [rule_format, of bs] show ?thesis by simp
    next
      case False
      have "utf8_valid (b # (bs @ LF # ys))" using Cons "1.prems" by simp
      from utf8_valid_multi [OF this False] obtain c r
        where c: "bs @ LF # ys = c @ r" "LF \<notin> set c" "utf8_valid r"
          and ext: "\<And>r'. utf8_valid r' \<Longrightarrow> utf8_valid (b # c @ r')"
        by blast
      from c(1,2) obtain bs' where bs: "bs = c @ bs'" "r = bs' @ LF # ys"
        by (auto simp: append_eq_append_conv2 Cons_eq_append_conv)
      then have "utf8_valid (bs' @ [LF]) \<and> utf8_valid ys"
        using "1.IH" [rule_format, of bs'] Cons c(3) by simp
      with ext bs Cons show ?thesis by auto
    qed
  qed
qed

lemma split_inclusive_inner_LF:
  "Suc i < line_count bs \<Longrightarrow> \<exists>p. split_inclusive_lf bs ! i = p @ [LF]"
proof (induction bs arbitrary: i)
  case Nil
  then show ?case by simp
next
  case (Cons b bs)
  show ?case
  proof (cases "b = LF")
    case True
    then show ?thesis using Cons by (cases i) auto
  next
    case False
    then obtain l ls where ls: "split_inclusive_lf bs = l # ls" "split_inclusive_lf (b # bs) = (b # l) # ls"
      using Cons.prems by (auto split: list.splits)
    with Cons.prems have "Suc i < line_count bs" by simp
    from Cons.IH [OF this] obtain p where "split_inclusive_lf bs ! i = p @ [LF]" by blast
    then have "split_inclusive_lf (b # bs) ! i = (if i = 0 then b # p else p) @ [LF]"
      using ls by (cases i) auto
    then show ?thesis by blast
  qed
qed

lemma lines_prefix_LF:
  assumes "i < j" "j < line_count bs"
  shows "\<exists>q. concat (drop i (take j (split_inclusive_lf bs))) = q @ [LF]"
proof -
  obtain k where j: "j = Suc k" using assms(1) by (cases j) auto
  obtain p where p: "split_inclusive_lf bs ! k = p @ [LF]"
    using split_inclusive_inner_LF [of k bs] assms(2) j by auto
  have "take j (split_inclusive_lf bs) = take k (split_inclusive_lf bs) @ [split_inclusive_lf bs ! k]"
    using assms(2) j by (simp add: take_Suc_conv_app_nth)
  then show ?thesis using assms j p by simp
qed

lemma utf8_valid_lines:
  assumes "utf8_valid bs"
  shows "utf8_valid (concat (drop i (take j (split_inclusive_lf bs))))"
proof -
  let ?ls = "split_inclusive_lf bs"
  have from_line: "utf8_valid (concat (drop i ?ls))"
  proof (cases "0 < i \<and> i < line_count bs")
    case True
    then obtain q where "concat (take i ?ls) = q @ [LF]"
      using lines_prefix_LF [of 0 i bs] by auto
    then have "bs = q @ LF # concat (drop i ?ls)"
      using concat_append [of "take i ?ls" "drop i ?ls"] by simp
    with assms utf8_valid_cut [of q "concat (drop i ?ls)"] show ?thesis by simp
  next
    case False
    with assms show ?thesis by auto
  qed
  show ?thesis
  proof (cases "i < j \<and> j < line_count bs")
    case True
    then obtain q where q: "concat (drop i (take j ?ls)) = q @ [LF]"
      using lines_prefix_LF by blast
    have "drop i ?ls = drop i (take j ?ls @ drop j ?ls)" by simp
    also have "\<dots> = drop i (take j ?ls) @ drop j ?ls"
      using True by (subst drop_append) simp
    finally have "drop i ?ls = drop i (take j ?ls) @ drop j ?ls" .
    then have "concat (drop i ?ls) = q @ LF # concat (drop j ?ls)" using q by simp
    with from_line utf8_valid_cut [of q "concat (drop j ?ls)"] q show ?thesis by simp
  next
    case False
    then show ?thesis using from_line by (cases "i < j") auto
  qed
qed

section \<open>Hashes as identities\<close>

lemma content_hash_hex_eq: "content_hash_hex sha a = content_hash_hex sha b \<longleftrightarrow> sha a = sha b"
  by (simp add: content_hash_hex_def concat_hex_inj)

lemma content_hash_hex_full:
  assumes "length (sha bs) = 32"
  shows "is_full_lower_hex (content_hash_hex sha bs)"
proof -
  have "length (concat (map hex_byte xs)) = 2 * length xs" for xs
    by (induction xs) (auto simp: hex_byte_def)
  moreover have "list_all (\<lambda>b. is_ascii_digit b \<or> b \<in> set ''abcdef'') (hex_byte b)" for b
    using hex_digit_lower [OF unat_byte_div [of b]] hex_digit_lower [of "unat b mod 16"]
    by (simp add: hex_byte_def)
  ultimately show ?thesis
    using assms by (auto simp: is_full_lower_hex_def content_hash_hex_def list_all_iff)
qed

section \<open>Properties\<close>

text \<open>
  C33: the parser accepts exactly the portable grammar. A string parses to a reference
  if and only if it is the prefix \<open>z://blob/\<close>, the reference's full lower-case hash and
  a text of its fragment with ordered 64-bit bounds (one-based for lines).
\<close>

theorem parse_iff_grammar: "parse_zero_ref s = Ok r \<longleftrightarrow> ref_text r s"
  by (blast intro: parse_zero_ref_text text_parse_zero_ref)

text \<open>
  C34: printing then parsing gives the reference back, for exactly the well-formed
  references: a full lower-case 64-digit hash and an ordered fragment.
\<close>

theorem parse_display_roundtrip: "parse_zero_ref (display_zero_ref r) = Ok r \<longleftrightarrow> zero_ref_ok r"
  by (blast intro: text_parse_zero_ref display_text dest: parse_zero_ref_text text_ok)

text \<open>
  The parser is total. On every input it returns a well-formed reference or one of
  the two classes \<open>Malformed\<close> and \<open>Unsupported\<close>; it never panics and never emits a class
  reserved for store resolution.
\<close>

theorem parse_outcomes:
  "(\<exists>r. parse_zero_ref s = Ok r \<and> zero_ref_ok r) \<or>
   parse_zero_ref s = Err Malformed \<or> parse_zero_ref s = Err Unsupported"
proof (cases "parse_zero_ref s")
  case (Ok r)
  then show ?thesis using parse_zero_ref_text text_ok by blast
next
  case (Err e)
  then have "e \<in> {Malformed, Unsupported}"
    by (auto simp: parse_zero_ref_def Let_def r_bind_eq_Err dest: parse_fragment_class
        split: option.splits if_splits prod.splits)
  with Err show ?thesis by auto
next
  case Panicked
  then show ?thesis
    by (auto simp: parse_zero_ref_def Let_def r_bind_eq_Panicked parse_fragment_total
        split: option.splits if_splits prod.splits)
qed

text \<open>The selection contract, over the reference notion of a line.\<close>

definition select_spec :: "bytes \<Rightarrow> zero_fragment \<Rightarrow> (bytes, zero_ref_error_class) result" where
  "select_spec bs fr =
     (case fr of
        NoFragment \<Rightarrow> Ok bs
      | Bytes s e \<Rightarrow>
          if e < s then Err Malformed
          else if length bs < unat e then Err RangeOutOfBounds
          else Ok (take (unat e - unat s) (drop (unat s) bs))
      | Lines s e \<Rightarrow>
          if s = 0 \<or> e < s then Err Malformed
          else if \<not> utf8_valid bs then Err NotUtf8
          else if line_count bs < unat s then Err RangeOutOfBounds
          else Ok (concat (take (unat e - (unat s - 1)) (drop (unat s - 1) (split_inclusive_lf bs)))))"

lemma select_lines_content:
  assumes "s \<noteq> 0" "\<not> e < s" "utf8_valid bs" "unat s \<le> line_count bs"
  shows "r_map (slice_of bs) (select_lines bs s e ClampEnd) =
    Ok (concat (take (unat e - (unat s - 1)) (drop (unat s - 1) (split_inclusive_lf bs))))"
proof -
  have bounds: "0 < unat s" "unat s \<le> unat e"
    using assms(1,2) by (simp_all add: u64_less_iff unat_gt_0)
  have "take (min j (length ls)) ls = take j ls" for j and ls :: "bytes list"
    by (simp add: min_def)
  moreover have "unat s - 1 \<le> min (unat e) (line_count bs)"
    using bounds assms(4) by arith
  ultimately show ?thesis
    using bounds assms(3,4) slice_line_offsets [of "unat s - 1" "min (unat e) (line_count bs)" bs]
    by (simp add: select_lines_cases drop_take)
qed

text \<open>
  C35: the canonical selector computes the selection contract on every blob and every
  fragment, ill-formed ones included: byte spans are exact and half-open, line spans are
  the inclusive run of LF-terminated lines with only the end clamped to the last line, and
  each failure has its class. In particular no selection panics.
\<close>

theorem select_fragment_refines: "r_map (slice_of bs) (select_fragment bs fr) = select_spec bs fr"
proof (cases fr)
  case NoFragment
  then show ?thesis
    by (simp add: select_spec_def select_fragment_def select_fragment_with_policy_def)
next
  case (Bytes s e)
  then show ?thesis
    by (auto simp: select_spec_def select_fragment_def select_fragment_with_policy_def
        index_slice_def slice_of_def u64_less_iff)
next
  case (Lines s e)
  show ?thesis
  proof (cases "s = 0 \<or> e < s")
    case True
    then show ?thesis
      by (auto simp: Lines select_spec_def select_fragment_def select_fragment_with_policy_def)
  next
    case False
    then have "0 < unat s" "unat s \<le> unat e" by (simp_all add: u64_less_iff unat_gt_0)
    then have "utf8_valid bs \<and> unat s \<le> line_count bs \<or> select_lines bs s e ClampEnd =
        Err (if utf8_valid bs then RangeOutOfBounds else NotUtf8)"
      by (auto simp: select_lines_cases(1))
    with False show ?thesis
      by (auto simp: Lines select_spec_def select_fragment_def select_fragment_with_policy_def
          canonical_line_end_policy_def select_lines_content simp del: r_map_eq_Ok)
  qed
qed

text \<open>
  C36: the two line-end policies differ only past the end. A selection that succeeds under
  the strict policy is the same slice under the canonical clamping policy.
\<close>

theorem strict_selection_is_canonical:
  assumes "select_fragment_with_policy bs fr Strict = Ok sl"
  shows "select_fragment bs fr = Ok sl"
proof (cases fr)
  case (Lines s e)
  with assms have "s \<noteq> 0" "\<not> e < s"
    by (auto simp: select_fragment_with_policy_def split: if_splits)
  then have "0 < unat s" "unat s \<le> unat e" by (simp_all add: u64_less_iff unat_gt_0)
  with assms show ?thesis
    by (auto simp: Lines select_fragment_def select_fragment_with_policy_def
        canonical_line_end_policy_def select_lines_cases split: if_splits)
qed (use assms in \<open>auto simp: select_fragment_def select_fragment_with_policy_def
    canonical_line_end_policy_def split: if_splits\<close>)

theorem strict_selection_is_canonical_witness:
  "select_fragment_with_policy [0x61, 0x0A, 0x62] (Lines 1 2) Strict = Ok (0, 3) \<and>
   select_fragment [0x61, 0x0A, 0x62] (Lines 1 2) = Ok (0, 3)"
proof -
  have h: "select_fragment_with_policy [0x61, 0x0A, 0x62] (Lines 1 2) Strict = Ok (0, 3)"
    by code_simp
  show ?thesis using h strict_selection_is_canonical [OF h] by simp
qed

text \<open>
  C37: a line selection is valid UTF-8. Line fragments are only served from valid UTF-8
  blobs, and cutting at LF boundaries keeps every multi-byte character whole.
\<close>

theorem line_selection_utf8:
  assumes "select_fragment bs (Lines s e) = Ok sl"
  shows "utf8_valid (slice_of bs sl)"
proof -
  have "select_spec bs (Lines s e) = Ok (slice_of bs sl)"
    using select_fragment_refines [of bs "Lines s e"] assms by simp
  then have "utf8_valid bs"
    and "slice_of bs sl =
      concat (drop (unat s - 1) (take (unat s - 1 + (unat e - (unat s - 1))) (split_inclusive_lf bs)))"
    by (auto simp: select_spec_def take_drop add.commute split: if_splits)
  then show ?thesis by (simp only: utf8_valid_lines)
qed

theorem line_selection_utf8_witness:
  "select_fragment [0xC3, 0xA9, 0x0A, 0x62] (Lines 1 1) = Ok (0, 3) \<and>
   utf8_valid (slice_of [0xC3, 0xA9, 0x0A, 0x62] (0, 3))"
proof -
  have h: "select_fragment [0xC3, 0xA9, 0x0A, 0x62] (Lines 1 1) = Ok (0, 3)"
    by code_simp
  show ?thesis using h line_selection_utf8 [OF h] by simp
qed

text \<open>
  C38: a reference identifies one byte string. Under a 32-byte hash, every blob has a
  well-formed reference that verifies and returns exactly its bytes; and two blobs that
  verify against one reference are equal unless they are a collision of the hash.
\<close>

theorem reference_identifies_bytes:
  assumes "\<And>b. length (sha b) = 32"
    and "verify_and_select sha r bs = Ok sl" and "verify_and_select sha r bs' = Ok sl'"
    and "inj_on sha {bs, bs'}"
  shows "bs = bs' \<and> zero_ref_ok (r\<lparr>fragment := NoFragment\<rparr>) \<and>
    r_map (slice_of bs) (verify_and_select sha (r\<lparr>fragment := NoFragment\<rparr>) bs) = Ok bs"
proof -
  have h: "content_hash_hex sha bs = hash r" "content_hash_hex sha bs' = hash r"
    using assms(2,3) by (auto simp: verify_and_select_def split: if_splits)
  then have "sha bs = sha bs'" by (metis content_hash_hex_eq)
  with assms(4) have "bs = bs'" by (auto dest: inj_onD)
  moreover have "is_full_lower_hex (hash r)"
    using content_hash_hex_full [of sha bs] assms(1) h(1) by simp
  ultimately show ?thesis
    using h by (simp add: zero_ref_ok_def verify_and_select_def unchecked_select_def
        select_fragment_def select_fragment_with_policy_def)
qed

text \<open>A concrete 32-byte function for the witnesses: the input padded with zeros and cut.\<close>

definition pad_hash :: "bytes \<Rightarrow> bytes" where
  "pad_hash bs = take 32 (bs @ replicate 32 0)"

lemma length_pad_hash: "length (pad_hash bs) = 32"
  by (simp add: pad_hash_def)

theorem reference_identifies_bytes_witness:
  "verify_and_select pad_hash
     \<lparr>scheme = Z, hash = content_hash_hex pad_hash [7, 9], fragment = Bytes 1 2\<rparr> [7, 9] = Ok (1, 2) \<and>
   r_map (slice_of ([7, 9] :: bytes)) (verify_and_select pad_hash
     \<lparr>scheme = Z, hash = content_hash_hex pad_hash [7, 9], fragment = NoFragment\<rparr> [7, 9]) = Ok [7, 9]"
proof -
  let ?r = "\<lparr>scheme = Z, hash = content_hash_hex pad_hash [7, 9], fragment = Bytes 1 2\<rparr>"
  have h: "verify_and_select pad_hash ?r [7, 9] = Ok (1, 2)"
    by (simp add: verify_and_select_def unchecked_select_def select_fragment_def
        select_fragment_with_policy_def index_slice_def)
  show ?thesis
    using h reference_identifies_bytes [of pad_hash ?r "[7, 9]" "(1, 2)" "[7, 9]" "(1, 2)",
        OF length_pad_hash h h]
    by simp
qed

lemma select_fragment_bounds:
  assumes "select_fragment bs fr = Ok (i, j)"
  shows "i \<le> j \<and> j \<le> length bs"
proof (cases fr)
  case (Lines s e)
  with assms have "s \<noteq> 0" "\<not> e < s"
    by (auto simp: select_fragment_def select_fragment_with_policy_def split: if_splits)
  then have "0 < unat s" "unat s \<le> unat e" by (simp_all add: u64_less_iff unat_gt_0)
  moreover from this have "\<not> line_count bs < unat s \<Longrightarrow>
      line_offset bs (unat s - 1) \<le> line_offset bs (min (unat e) (line_count bs))"
    by (intro line_offset_mono) arith
  ultimately show ?thesis
    using assms by (auto simp: Lines select_fragment_def select_fragment_with_policy_def
        canonical_line_end_policy_def select_lines_cases line_offset_le split: if_splits)
qed (use assms in \<open>auto simp: select_fragment_def select_fragment_with_policy_def
    index_slice_def split: if_splits\<close>)

lemma r_map_err_eq_Ok: "r_map_err f m = Ok x \<longleftrightarrow> m = Ok x"
  by (cases m) auto

text \<open>
  C39: a span reference built from a fragment of an object verifies against that object and
  returns the selected slice, empty selections included, and its payload verifies on its own.
  Against any other object the outcome is determined: a different object digest, an object
  shorter than the range and a different slice digest are each refused, in that order, and
  otherwise the same range is returned. So the bytes it ever returns are the selected ones
  unless the hash collides on them. The span's range never overflows.
\<close>

theorem span_ref_binds_bytes:
  assumes "span_from_fragment sha object fr = Ok (sp, sel)"
  shows "span_verify_and_select sha sp object = Ok sel
    \<and> verify_span sha sp (slice_of object sel) = Ok ()
    \<and> (\<forall>object'. span_verify_and_select sha sp object' =
         (if sha object' \<noteq> sha object then Err ObjectIdentityMismatch
          else if length object' < snd sel then Err SpanRangeOutOfBounds
          else if sha (slice_of object' sel) \<noteq> sha (slice_of object sel) then Err SpanDigestMismatch
          else Ok sel))
    \<and> (\<forall>object' sel'. span_verify_and_select sha sp object' = Ok sel'
         \<and> inj_on sha {slice_of object sel, slice_of object' sel'}
         \<longrightarrow> slice_of object' sel' = slice_of object sel)
    \<and> unat (byte_start sp) + unat (byte_len sp) < 2 ^ 64"
proof -
  from assms obtain i j where sel: "sel = (i, j)" "select_fragment object fr = Ok (i, j)"
    and sp: "u64_of_nat i = Some (byte_start sp)" "u64_of_nat (j - i) = Some (byte_len sp)"
      "checked_add_u64 (byte_start sp) (byte_len sp) \<noteq> None"
      "object_id sp = sha object" "object_digest sp = sha object"
      "span_digest sp = sha (slice_of object (i, j))"
    by (cases sel) (auto simp: span_from_fragment_def ok_or_def r_map_err_eq_Ok
        split: option.splits)
  have ij: "i \<le> j" "j \<le> length object" using select_fragment_bounds [OF sel(2)] by auto
  from sp(3) obtain e where e: "checked_add_u64 (byte_start sp) (byte_len sp) = Some e" by auto
  have ue: "unat (byte_start sp) = i" "unat (byte_len sp) = j - i" "unat e = j"
    using sp(1,2) checked_add_u64_Some [OF e] ij by (auto dest!: u64_of_nat_Some)
  have outcome: "span_verify_and_select sha sp object' =
      (if sha object' \<noteq> sha object then Err ObjectIdentityMismatch
       else if length object' < snd sel then Err SpanRangeOutOfBounds
       else if sha (slice_of object' sel) \<noteq> sha (slice_of object sel) then Err SpanDigestMismatch
       else Ok sel)" for object'
    using ij sp by (simp add: span_verify_and_select_def e ue verify_span_def length_slice_of sel(1))
  moreover have "verify_span sha sp (slice_of object sel) = Ok ()"
    using ij sp by (simp add: verify_span_def length_slice_of sel(1))
  moreover have "unat (byte_start sp) + unat (byte_len sp) < 2 ^ 64"
    using e by (auto simp: checked_add_u64_def split: if_splits)
  moreover have "slice_of object' sel' = slice_of object sel"
    if "span_verify_and_select sha sp object' = Ok sel'"
      "inj_on sha {slice_of object sel, slice_of object' sel'}" for object' sel'
    using that outcome [of object'] by (auto split: if_splits dest: inj_onD)
  ultimately show ?thesis using ij sel(1) by simp
qed

theorem span_ref_binds_bytes_witness:
  "span_from_fragment pad_hash [7, 9, 9] (Bytes 1 1) =
     Ok (\<lparr>byte_len = 0, byte_start = 1, object_digest = pad_hash [7, 9, 9],
          object_id = pad_hash [7, 9, 9], span_digest = pad_hash []\<rparr>, (1, 1)) \<and>
   span_verify_and_select pad_hash
     \<lparr>byte_len = 0, byte_start = 1, object_digest = pad_hash [7, 9, 9],
      object_id = pad_hash [7, 9, 9], span_digest = pad_hash []\<rparr> [7, 9, 9] = Ok (1, 1) \<and>
   span_verify_and_select pad_hash
     \<lparr>byte_len = 0, byte_start = 1, object_digest = pad_hash [7, 9, 9],
      object_id = pad_hash [7, 9, 9], span_digest = pad_hash []\<rparr> [8] = Err ObjectIdentityMismatch"
proof -
  let ?sp = "\<lparr>byte_len = 0, byte_start = 1, object_digest = pad_hash [7, 9, 9],
      object_id = pad_hash [7, 9, 9], span_digest = pad_hash []\<rparr>"
  have mk: "span_from_fragment pad_hash [7, 9, 9] (Bytes 1 1) = Ok (?sp, (1, 1))"
    by (simp add: span_from_fragment_def select_fragment_def select_fragment_with_policy_def
        index_slice_def u64_of_nat_def checked_add_u64_def slice_of_def)
  have "pad_hash [8] \<noteq> pad_hash [7, 9, 9]" by (simp add: pad_hash_def)
  then show ?thesis
    using mk span_ref_binds_bytes [OF mk] by simp
qed

end
