(* ===== verification/Canonical_Json.thy ===== *)
theory Canonical_Json
  imports Ordered_Containers "HOL-Library.Char_ord" "HOL-Library.List_Lexorder"
begin

text \<open>
  Canonical JSON and schema comparison (\<^verbatim>\<open>crates/zerostack/zero-abi/src/schema.rs\<close>), the
  encoding under every digest of the program. The JSON value type is that of \<open>serde_json\<close>,
  whose object map is a \<open>BTreeMap\<close> (the workspace does not enable \<open>preserve_order\<close>).
  String quoting is third-party code and is the parameter \<open>quote\<close>; what the sources rely on
  is that a quoted string is self-delimiting. A floating-point number is carried as the text
  that \<open>serde_json\<close> prints for it, the shortest decimal that reads back as the same \<open>f64\<close>; the
  equality of values compares floats as \<open>f64\<close>, which identifies the two zeros.
\<close>

section \<open>Values\<close>

datatype json_number = PosInt nat | NegInt nat | Float string

datatype json =
    JNull
  | JBool bool
  | JNumber json_number
  | JString string
  | JArray "json list"
  | JObject "(string \<times> json) list"

fun show_number :: "json_number \<Rightarrow> string" where
  "show_number (PosInt n) = show_nat n"
| "show_number (NegInt n) = CHR ''-'' # show_nat n"
| "show_number (Float t) = t"

definition number_char :: "char \<Rightarrow> bool" where
  "number_char c = (c \<in> set ''0123456789+-.eE'')"

fun number_ok :: "json_number \<Rightarrow> bool" where
  "number_ok (Float t) \<longleftrightarrow> list_all number_char t \<and> t \<noteq> [] \<and>
     (CHR ''.'' \<in> set t \<or> CHR ''e'' \<in> set t)"
| "number_ok n \<longleftrightarrow> True"

text \<open>
  \<open>==\<close> on values. Finite floats are equal as \<open>f64\<close> when their shortest texts are equal, or when
  both are zeros, which print with their sign.
\<close>

definition zero_texts :: "string list" where
  "zero_texts = [''0.0'', ''-0.0'']"

fun number_eq :: "json_number \<Rightarrow> json_number \<Rightarrow> bool" where
  "number_eq (Float s) (Float t) \<longleftrightarrow> s = t \<or> s \<in> set zero_texts \<and> t \<in> set zero_texts"
| "number_eq m n \<longleftrightarrow> m = n"

fun json_eq :: "json \<Rightarrow> json \<Rightarrow> bool"
  and items_eq :: "json list \<Rightarrow> json list \<Rightarrow> bool"
  and entries_eq :: "(string \<times> json) list \<Rightarrow> (string \<times> json) list \<Rightarrow> bool" where
  "json_eq (JNumber m) (JNumber n) \<longleftrightarrow> number_eq m n"
| "json_eq (JArray xs) (JArray ys) \<longleftrightarrow> items_eq xs ys"
| "json_eq (JObject l) (JObject m) \<longleftrightarrow> entries_eq l m"
| "json_eq v w \<longleftrightarrow> v = w"
| "items_eq (v # vs) (w # ws) \<longleftrightarrow> json_eq v w \<and> items_eq vs ws"
| "items_eq vs ws \<longleftrightarrow> vs = ws"
| "entries_eq ((k, v) # l) ((k', w) # m) \<longleftrightarrow> k = k' \<and> json_eq v w \<and> entries_eq l m"
| "entries_eq l m \<longleftrightarrow> l = m"

fun json_ok :: "json \<Rightarrow> bool" where
  "json_ok (JNumber n) \<longleftrightarrow> number_ok n"
| "json_ok (JArray xs) \<longleftrightarrow> (\<forall>v \<in> set xs. json_ok v)"
| "json_ok (JObject m) \<longleftrightarrow> bt_ok m \<and> (\<forall>(k, v) \<in> set m. json_ok v)"
| "json_ok v \<longleftrightarrow> True"

section \<open>The canonical encoding\<close>

fun join :: "string \<Rightarrow> string list \<Rightarrow> string" where
  "join sep [] = []"
| "join sep [p] = p"
| "join sep (p # q # ps) = p @ sep @ join sep (q # ps)"

fun canonical_json :: "(string \<Rightarrow> string) \<Rightarrow> json \<Rightarrow> string" where
  "canonical_json quote JNull = ''null''"
| "canonical_json quote (JBool b) = (if b then ''true'' else ''false'')"
| "canonical_json quote (JNumber n) = show_number n"
| "canonical_json quote (JString s) = quote s"
| "canonical_json quote (JArray arr) =
     ''['' @ join '','' (map (canonical_json quote) arr) @ '']''"
| "canonical_json quote (JObject m) =
     (let texts = map (\<lambda>(k, v). (k, canonical_json quote v)) m;
          keys = sort (map fst m)
      in ''{'' @ join '','' (map (\<lambda>k. quote k @ '':'' @ the (map_of texts k)) keys) @ ''}'')"

definition str_bytes :: "string \<Rightarrow> bytes" where
  "str_bytes s = map (\<lambda>c. word_of_nat (of_char c)) s"

section \<open>Schema normalisation\<close>

definition doc_keys :: "string list" where
  "doc_keys = [''description'', ''title'', ''$comment'']"

definition opaque_payload_keys :: "string list" where
  "opaque_payload_keys = [''default'', ''const'', ''examples'']"

fun is_string :: "json \<Rightarrow> bool" where
  "is_string (JString s) = True"
| "is_string _ = False"

fun as_str :: "json \<Rightarrow> string option" where
  "as_str (JString s) = Some s"
| "as_str _ = None"

definition normalize_strings :: "json list \<Rightarrow> json" where
  "normalize_strings arr =
     (if list_all is_string arr
      then JArray (map JString (sort (List.map_filter as_str arr)))
      else JArray arr)"

definition normalize_required :: "json \<Rightarrow> json" where
  "normalize_required v = (case v of JArray required \<Rightarrow> normalize_strings required | _ \<Rightarrow> v)"

definition normalize_dependent_required :: "json \<Rightarrow> json" where
  "normalize_dependent_required v =
     (case v of
        JObject dependencies \<Rightarrow> JObject (map (\<lambda>(k, r). (k, normalize_required r)) dependencies)
      | _ \<Rightarrow> v)"

definition normalize_enum :: "json \<Rightarrow> json" where
  "normalize_enum v = (case v of JArray arr \<Rightarrow> normalize_strings arr | _ \<Rightarrow> v)"

text \<open>How the value under a key is normalised: the arms of the \<open>match k.as_str()\<close>.\<close>

datatype key_class =
    Opaque | RequiredKey | TypeKey | DependentKey | EnumKey | SchemaMap | Items | BoolOrSchema
  | SchemaList | Plain

definition key_class :: "string \<Rightarrow> key_class" where
  "key_class k =
     (if k \<in> set opaque_payload_keys then Opaque
      else if k = ''required'' then RequiredKey
      else if k = ''type'' then TypeKey
      else if k = ''dependentRequired'' then DependentKey
      else if k = ''enum'' then EnumKey
      else if k \<in> {''properties'', ''patternProperties'', ''definitions'', ''$defs''} then SchemaMap
      else if k = ''items'' then Items
      else if k \<in> {''additionalProperties'', ''additionalItems'', ''not'', ''contains'',
                     ''propertyNames''} then BoolOrSchema
      else if k \<in> {''allOf'', ''anyOf'', ''oneOf'', ''prefixItems''} then SchemaList
      else Plain)"

text \<open>
  Iterating a map in key order and inserting the kept keys into an empty map builds the
  entry list in the same order.
\<close>

lemma json_size_value: "(k, v) \<in> set m \<Longrightarrow> size v < size (JObject m)"
  by (induction m) auto

lemma json_size_elem: "v \<in> set xs \<Longrightarrow> size v < size (JArray xs)"
  by (induction xs) auto

function (sequential) normalize_schema :: "json \<Rightarrow> json"
  and normalize_under :: "key_class \<Rightarrow> json \<Rightarrow> json"
  and normalize_schema_map :: "json \<Rightarrow> json" where
  "normalize_schema (JObject m) =
     JObject (map (\<lambda>(k, v). (k, normalize_under (key_class k) v))
                  (filter (\<lambda>(k, v). k \<notin> set doc_keys) m))"
| "normalize_schema (JArray arr) = JArray (map normalize_schema arr)"
| "normalize_schema v = v"
| "normalize_under Opaque v = v"
| "normalize_under RequiredKey v = normalize_required v"
| "normalize_under TypeKey (JArray arr) = normalize_required (JArray arr)"
| "normalize_under TypeKey v = normalize_schema v"
| "normalize_under DependentKey v = normalize_dependent_required v"
| "normalize_under EnumKey v = normalize_enum v"
| "normalize_under SchemaMap v = normalize_schema_map v"
| "normalize_under Items (JArray items) = JArray (map normalize_schema items)"
| "normalize_under Items v = normalize_schema v"
| "normalize_under BoolOrSchema (JBool b) = JBool b"
| "normalize_under BoolOrSchema v = normalize_schema v"
| "normalize_under SchemaList (JArray schemas) = JArray (map normalize_schema schemas)"
| "normalize_under SchemaList v = v"
| "normalize_under Plain v = normalize_schema v"
| "normalize_schema_map (JObject m) = JObject (map (\<lambda>(k, child). (k, normalize_schema child)) m)"
| "normalize_schema_map v = normalize_schema v"
  by pat_completeness auto
termination
  by (relation "measure (\<lambda>c. case c of Inl v \<Rightarrow> 3 * size v
      | Inr (Inl (k, v)) \<Rightarrow> 3 * size v + 2 | Inr (Inr v) \<Rightarrow> 3 * size v + 1)")
    (auto dest!: json_size_value json_size_elem)

definition canonical_schema_json :: "(string \<Rightarrow> string) \<Rightarrow> json \<Rightarrow> string" where
  "canonical_schema_json quote schema = canonical_json quote (normalize_schema schema)"

definition schemas_structurally_equal :: "(string \<Rightarrow> string) \<Rightarrow> json \<Rightarrow> json \<Rightarrow> bool" where
  "schemas_structurally_equal quote a b =
     (canonical_schema_json quote a = canonical_schema_json quote b)"

text \<open>
  The first divergence of two normalised schemas, with its path. The report text is a
  structured value: the path is the list of keys and indices it prints.
\<close>

datatype path_step = Key string | Index nat

datatype divergence =
    MissingInRight string
  | ExtraInRight string
  | ObjectValuesDiffer
  | ArrayLength nat nat
  | ArraysDiffer
  | Unequal json json

lemma json_size_object:
  "length am \<le> Suc (size_list (size_prod (\<lambda>x. 0) size) am)"
  "Some v = map_of am k \<Longrightarrow> size v \<le> size_list (size_prod (\<lambda>x. 0) size) am"
  by (induction am) (auto split: if_splits)

lemma json_size_array: "length aa = length ba \<Longrightarrow> length ba \<le> Suc (size_list size aa)"
proof -
  have "length aa \<le> size_list size aa" by (induction aa) auto
  then show "length aa = length ba \<Longrightarrow> length ba \<le> Suc (size_list size aa)" by simp
qed

function (sequential) diff_normalized :: "json \<Rightarrow> json \<Rightarrow> path_step list \<Rightarrow> (path_step list \<times> divergence) option"
  and diff_keys :: "string list \<Rightarrow> (string \<times> json) list \<Rightarrow> (string \<times> json) list \<Rightarrow> path_step list \<Rightarrow>
    (path_step list \<times> divergence) option"
  and diff_items :: "nat \<Rightarrow> json list \<Rightarrow> json list \<Rightarrow> path_step list \<Rightarrow>
    (path_step list \<times> divergence) option" where
  "diff_normalized (JObject am) (JObject bm) path =
     (if json_eq (JObject am) (JObject bm) then None
      else let ak = map fst am; bk = map fst bm in
        case filter (\<lambda>k. k \<notin> set bk) ak of
          k # _ \<Rightarrow> Some (path, MissingInRight k)
        | [] \<Rightarrow>
          (case filter (\<lambda>k. k \<notin> set ak) bk of
             k # _ \<Rightarrow> Some (path, ExtraInRight k)
           | [] \<Rightarrow>
             (case diff_keys ak am bm path of
                Some d \<Rightarrow> Some d
              | None \<Rightarrow> Some (path, ObjectValuesDiffer))))"
| "diff_normalized (JArray aa) (JArray ba) path =
     (if json_eq (JArray aa) (JArray ba) then None
      else if length aa \<noteq> length ba then Some (path, ArrayLength (length aa) (length ba))
      else case diff_items 0 aa ba path of
             Some d \<Rightarrow> Some d
           | None \<Rightarrow> Some (path, ArraysDiffer))"
| "diff_normalized a b path = (if json_eq a b then None else Some (path, Unequal a b))"
| "diff_keys [] am bm path = None"
| "diff_keys (k # ks) am bm path =
     (case (map_of am k, map_of bm k) of
        (Some l, Some r) \<Rightarrow>
          (case diff_normalized l r (path @ [Key k]) of
             Some d \<Rightarrow> Some d
           | None \<Rightarrow> diff_keys ks am bm path)
      | _ \<Rightarrow> None)"
| "diff_items i (l # ls) (r # rs) path =
     (case diff_normalized l r (path @ [Index i]) of
        Some d \<Rightarrow> Some d
      | None \<Rightarrow> diff_items (Suc i) ls rs path)"
| "diff_items i _ _ path = None"
  by pat_completeness auto
termination
  by (relation "measures [\<lambda>c. case c of Inl (a, b, p) \<Rightarrow> size a
        | Inr (Inl (ks, am, bm, p)) \<Rightarrow> size (JObject am) | Inr (Inr (i, ls, rs, p)) \<Rightarrow> size (JArray ls),
      \<lambda>c. case c of Inl (a, b, p) \<Rightarrow> Suc (size a)
        | Inr (Inl (ks, am, bm, p)) \<Rightarrow> length ks | Inr (Inr (i, ls, rs, p)) \<Rightarrow> length ls]")
    (auto dest!: json_size_object(2) simp: less_Suc_eq_le json_size_object(1) json_size_array)

definition schema_diff :: "json \<Rightarrow> json \<Rightarrow> (path_step list \<times> divergence) option" where
  "schema_diff a b = diff_normalized (normalize_schema a) (normalize_schema b) []"

definition as_object :: "json \<Rightarrow> (string \<times> json) list option" where
  "as_object v = (case v of JObject m \<Rightarrow> Some m | _ \<Rightarrow> None)"

definition as_array :: "json \<Rightarrow> json list option" where
  "as_array v = (case v of JArray xs \<Rightarrow> Some xs | _ \<Rightarrow> None)"

definition json_get :: "json \<Rightarrow> string \<Rightarrow> json option" where
  "json_get v k = Option.bind (as_object v) (\<lambda>m. bt_get m k)"

definition schema_property_keys :: "json \<Rightarrow> string list" where
  "schema_property_keys schema =
     sort (case Option.bind (json_get schema ''properties'') as_object of
             Some m \<Rightarrow> bt_keys m | None \<Rightarrow> [])"

definition schema_required_keys :: "json \<Rightarrow> string list" where
  "schema_required_keys schema =
     sort (case Option.bind (json_get schema ''required'') as_array of
             Some a \<Rightarrow> List.map_filter as_str a | None \<Rightarrow> [])"


section \<open>The encoding is injective\<close>

text \<open>
  What the encoder needs of the quoting function: a quoted string starts with a double quote
  and is self-delimiting.
\<close>

definition quote_ok :: "(string \<Rightarrow> string) \<Rightarrow> bool" where
  "quote_ok quote \<longleftrightarrow> (\<forall>s. \<exists>r. quote s = CHR 0x22 # r) \<and>
     (\<forall>s t x y. quote s @ x = quote t @ y \<longrightarrow> s = t \<and> x = y)"

lemma quote_head: "quote_ok quote \<Longrightarrow> \<exists>r. quote s = CHR 0x22 # r"
  unfolding quote_ok_def by blast

lemma quote_inject: "quote_ok quote \<Longrightarrow> quote s @ x = quote t @ y \<Longrightarrow> s = t \<and> x = y"
  unfolding quote_ok_def by blast

definition delimited :: "string \<Rightarrow> bool" where
  "delimited x \<longleftrightarrow> x = [] \<or> hd x \<in> {CHR '','', CHR '']'', CHR ''}''}"

lemma join_Cons: "join sep (p # ps) = p @ concat (map (\<lambda>q. sep @ q) ps)"
  by (induction ps arbitrary: p) auto

lemma tail_items_inject:
  assumes "\<forall>v \<in> set xs. \<forall>w \<in> set ys. \<forall>x y. delimited x \<longrightarrow> delimited y \<longrightarrow>
      f v @ x = f w @ y \<longrightarrow> v = w \<and> x = y"
    and "c \<in> {CHR '']'', CHR ''}''}"
    and "concat (map (\<lambda>v. '','' @ f v) xs) @ c # x = concat (map (\<lambda>v. '','' @ f v) ys) @ c # y"
  shows "xs = ys \<and> x = y"
  using assms
proof (induction xs arbitrary: ys)
  case Nil
  then show ?case by (cases ys) auto
next
  case (Cons v vs)
  show ?case
  proof (cases ys)
    case Nil
    with Cons.prems show ?thesis by auto
  next
    case ys: (Cons w ws)
    let ?r = "concat (map (\<lambda>v. '','' @ f v) vs) @ c # x"
    let ?s = "concat (map (\<lambda>v. '','' @ f v) ws) @ c # y"
    have "f v @ ?r = f w @ ?s" using Cons.prems(3) by (simp add: ys)
    moreover have "delimited ?r" "delimited ?s"
      using Cons.prems(2) by (cases vs; auto simp: delimited_def)
        (cases ws; use Cons.prems(2) in \<open>auto simp: delimited_def\<close>)
    ultimately have "v = w" "?r = ?s" using Cons.prems(1) by (auto simp: ys)
    with Cons.IH [of ws] Cons.prems(1,2) show ?thesis by (auto simp: ys)
  qed
qed

lemma items_inject:
  assumes inj: "\<forall>v \<in> set xs. \<forall>w \<in> set ys. \<forall>x y. delimited x \<longrightarrow> delimited y \<longrightarrow>
      f v @ x = f w @ y \<longrightarrow> v = w \<and> x = y"
    and start: "\<forall>v \<in> set xs \<union> set ys. f v \<noteq> [] \<and> hd (f v) \<noteq> c"
    and c: "c \<in> {CHR '']'', CHR ''}''}"
    and eq: "join '','' (map f xs) @ c # x = join '','' (map f ys) @ c # y"
  shows "xs = ys \<and> x = y"
proof (cases xs)
  case Nil
  then show ?thesis
    using eq start by (cases ys) (auto simp: join_Cons, metis hd_append2 list.sel(1))
next
  case xs: (Cons v vs)
  show ?thesis
  proof (cases ys)
    case Nil
    then show ?thesis
      using eq start by (auto simp: xs join_Cons) (metis hd_append2 list.sel(1))+
  next
    case ys: (Cons w ws)
    let ?r = "concat (map (\<lambda>v. '','' @ f v) vs) @ c # x"
    let ?s = "concat (map (\<lambda>v. '','' @ f v) ws) @ c # y"
    have "f v @ ?r = f w @ ?s" using eq by (simp add: xs ys join_Cons comp_def)
    moreover have "delimited ?r" "delimited ?s"
      using c by (cases vs; auto simp: delimited_def)
        (cases ws; use c in \<open>auto simp: delimited_def\<close>)
    ultimately have "v = w" "?r = ?s" using inj by (auto simp: xs ys)
    moreover from this have "vs = ws \<and> x = y"
      using inj c by (intro tail_items_inject [where f = f and c = c]) (auto simp: xs ys)
    ultimately show ?thesis by (simp add: xs ys)
  qed
qed

lemma show_nat_inject [simp]: "show_nat m = show_nat n \<longleftrightarrow> m = n"
  by (metis dec_val_show_nat)

lemma number_char_digit: "is_ascii_digit c \<Longrightarrow> number_char c"
  by (auto simp: is_ascii_digit_def number_char_def)

lemma show_number_chars: "number_ok n \<Longrightarrow> list_all number_char (show_number n) \<and> show_number n \<noteq> []"
  using show_nat_digits by (cases n) (auto simp: list_all_iff number_char_digit, simp add: number_char_def)

lemma show_nat_no_mark: "\<not> is_ascii_digit c \<Longrightarrow> c \<notin> set (show_nat n)"
  using show_nat_digits by blast

lemma marks_not_digits [simp]:
  "\<not> is_ascii_digit (CHR ''-'')" "\<not> is_ascii_digit (CHR ''.'')" "\<not> is_ascii_digit (CHR ''e'')"
  by (simp_all add: is_ascii_digit_def)

lemma show_nat_marked [simp]:
  "show_nat m \<noteq> CHR ''-'' # s" "CHR ''-'' # s \<noteq> show_nat m"
  "CHR ''.'' \<in> set (show_nat m) \<longleftrightarrow> False" "CHR ''e'' \<in> set (show_nat m) \<longleftrightarrow> False"
proof -
  have "CHR ''-'' \<notin> set (show_nat m)" by (rule show_nat_no_mark) simp
  then show "show_nat m \<noteq> CHR ''-'' # s" "CHR ''-'' # s \<noteq> show_nat m"
    by (metis list.set_intros(1))+
qed (simp_all add: show_nat_no_mark)

lemma show_number_inject:
  assumes "number_ok m" "number_ok n" "show_number m = show_number n"
  shows "m = n"
  using assms by (cases m; cases n) auto

lemma delimited_number_split:
  assumes "list_all number_char a" "list_all number_char b" "delimited x" "delimited y"
    and "a @ x = b @ y"
  shows "a = b \<and> x = y"
proof -
  have "takeWhile number_char (z @ r) = z" if "list_all number_char z" "delimited r" for z r
    using that by (cases r) (auto simp: takeWhile_append2 list_all_iff delimited_def number_char_def
        takeWhile_append)
  then have "a = b" using assms by metis
  with assms(5) show ?thesis by simp
qed


lemma canonical_json_object:
  assumes "bt_ok m"
  shows "canonical_json quote (JObject m) =
    ''{'' @ join '','' (map (\<lambda>(k, v). quote k @ '':'' @ canonical_json quote v) m) @ ''}''"
proof -
  have dist: "distinct (map fst m)" and "sorted (map fst m)"
    using assms by (auto simp: bt_ok_def strict_sorted_iff)
  then have keys: "sort (map fst m) = map fst m" by (simp add: sorted_sort_id)
  have "map (\<lambda>k. quote k @ '':'' @ the (map_of (map (\<lambda>(k, v). (k, canonical_json quote v)) m) k))
      (map fst m) = map (\<lambda>(k, v). quote k @ '':'' @ canonical_json quote v) m"
    using dist by (auto simp: map_of_map split: prod.splits)
  with keys show ?thesis by (simp only: canonical_json.simps Let_def)
qed

fun head_ok :: "json \<Rightarrow> char \<Rightarrow> bool" where
  "head_ok JNull c \<longleftrightarrow> c = CHR ''n''"
| "head_ok (JBool b) c \<longleftrightarrow> c = (if b then CHR ''t'' else CHR ''f'')"
| "head_ok (JNumber n) c \<longleftrightarrow> number_char c"
| "head_ok (JString s) c \<longleftrightarrow> c = CHR 0x22"
| "head_ok (JArray xs) c \<longleftrightarrow> c = CHR ''[''"
| "head_ok (JObject m) c \<longleftrightarrow> c = CHR ''{''"

lemma number_char_heads [simp]:
  "\<not> number_char (CHR ''n'')" "\<not> number_char (CHR ''t'')" "\<not> number_char (CHR ''f'')"
  "\<not> number_char (CHR 0x22)" "\<not> number_char (CHR ''['')" "\<not> number_char (CHR ''{'')"
  "\<not> number_char (CHR '']'')" "\<not> number_char (CHR ''}'')"
  by (simp_all add: number_char_def)

lemma canonical_json_head:
  assumes "quote_ok quote" "json_ok v"
  shows "\<exists>c r. canonical_json quote v = c # r \<and> head_ok v c"
proof (cases v)
  case (JNumber n)
  with assms show ?thesis
    using show_number_chars [of n] by (cases "show_number n") auto
next
  case (JString s)
  with quote_head [OF assms(1), of s] show ?thesis by auto
next
  case (JObject m)
  with assms show ?thesis by (simp add: canonical_json_object)
qed auto

lemma head_ok_cases:
  assumes "head_ok v c" "head_ok w c"
  shows "(\<exists>b. v = JBool b \<and> w = JBool b) \<or> (v = JNull \<and> w = JNull) \<or>
    (\<exists>m n. v = JNumber m \<and> w = JNumber n) \<or> (\<exists>s t. v = JString s \<and> w = JString t) \<or>
    (\<exists>xs ys. v = JArray xs \<and> w = JArray ys) \<or> (\<exists>l m. v = JObject l \<and> w = JObject m)"
  using assms by (cases v; cases w) (auto split: if_splits)

lemma entry_inject:
  assumes "quote_ok quote"
    and "\<forall>x y. delimited x \<longrightarrow> delimited y \<longrightarrow>
      canonical_json quote v @ x = canonical_json quote w @ y \<longrightarrow> v = w \<and> x = y"
    and "delimited x" "delimited y"
    and "(quote k @ '':'' @ canonical_json quote v) @ x = (quote l @ '':'' @ canonical_json quote w) @ y"
  shows "(k, v) = (l, w) \<and> x = y"
proof -
  from assms(5) have "quote k @ ('':'' @ canonical_json quote v @ x) =
      quote l @ ('':'' @ canonical_json quote w @ y)" by simp
  from quote_inject [OF assms(1) this]
  have "k = l" "canonical_json quote v @ x = canonical_json quote w @ y" by auto
  with assms(2-4) show ?thesis by blast
qed

lemma canonical_json_prefix_free:
  assumes q: "quote_ok quote"
  shows "\<lbrakk>json_ok v; json_ok w; delimited x; delimited y;
      canonical_json quote v @ x = canonical_json quote w @ y\<rbrakk> \<Longrightarrow> v = w \<and> x = y"
proof (induction v arbitrary: w x y rule: measure_induct_rule [of size])
  case (less v)
  obtain c r d s where cr: "canonical_json quote v = c # r" "head_ok v c"
      and ds: "canonical_json quote w = d # s" "head_ok w d"
    using canonical_json_head [OF q] less.prems(1,2) by meson
  with less.prems(5) have "d = c" by simp
  with head_ok_cases [OF cr(2)] ds(2) consider
      (same) "v = w" | (num) m n where "v = JNumber m" "w = JNumber n"
    | (str) s t where "v = JString s" "w = JString t"
    | (arr) xs ys where "v = JArray xs" "w = JArray ys"
    | (obj) l m where "v = JObject l" "w = JObject m"
    by blast
  then show ?case
  proof cases
    case same
    with less.prems(5) show ?thesis by simp
  next
    case num
    with less.prems show ?thesis
      using show_number_chars [of m] show_number_chars [of n]
        delimited_number_split [of "show_number m" "show_number n" x y]
        show_number_inject [of m n] by simp
  next
    case str
    with less.prems(5) quote_inject [OF q, of s x t y] show ?thesis by simp
  next
    case arr
    have "xs = ys \<and> x = y"
    proof (rule items_inject [where f = "canonical_json quote" and c = "CHR '']''"])
      show "\<forall>v \<in> set xs. \<forall>w \<in> set ys. \<forall>x y. delimited x \<longrightarrow> delimited y \<longrightarrow>
          canonical_json quote v @ x = canonical_json quote w @ y \<longrightarrow> v = w \<and> x = y"
        using less.IH less.prems(1,2) json_size_elem unfolding arr by (meson json_ok.simps(2))
      show "\<forall>v \<in> set xs \<union> set ys. canonical_json quote v \<noteq> [] \<and>
          hd (canonical_json quote v) \<noteq> CHR '']''"
      proof
        fix v assume "v \<in> set xs \<union> set ys"
        with less.prems(1,2) arr have "json_ok v" by auto
        with canonical_json_head [OF q] obtain c r where
          "canonical_json quote v = c # r" "head_ok v c" by blast
        then show "canonical_json quote v \<noteq> [] \<and> hd (canonical_json quote v) \<noteq> CHR '']''"
          by (cases v) auto
      qed
    qed (use less.prems(5) arr in auto)
    with arr show ?thesis by simp
  next
    case obj
    let ?f = "\<lambda>(k, v). quote k @ '':'' @ canonical_json quote v"
    have "l = m \<and> x = y"
    proof (rule items_inject [where f = ?f and c = "CHR ''}''"])
      show "\<forall>v \<in> set l. \<forall>w \<in> set m. \<forall>x y. delimited x \<longrightarrow> delimited y \<longrightarrow>
          ?f v @ x = ?f w @ y \<longrightarrow> v = w \<and> x = y"
      proof (intro ballI allI impI)
        fix e e' x y
        assume e: "e \<in> set l" "e' \<in> set m" "delimited x" "delimited y" "?f e @ x = ?f e' @ y"
        obtain k v k' w where kv: "e = (k, v)" "e' = (k', w)" by (cases e, cases e') auto
        have "size v < size (JObject l)" "json_ok v" "json_ok w"
          using json_size_value e(1,2) less.prems(1,2) unfolding obj kv by fastforce+
        then have "\<forall>x y. delimited x \<longrightarrow> delimited y \<longrightarrow>
            canonical_json quote v @ x = canonical_json quote w @ y \<longrightarrow> v = w \<and> x = y"
          using less.IH obj(1) by blast
        from entry_inject [OF q this e(3,4)] e(5) show "e = e' \<and> x = y" by (simp add: kv)
      qed
      show "\<forall>v \<in> set l \<union> set m. ?f v \<noteq> [] \<and> hd (?f v) \<noteq> CHR ''}''"
      proof
        fix e assume "e \<in> set l \<union> set m"
        obtain k v where "e = (k, v)" by (cases e)
        moreover obtain r where "quote k = CHR 0x22 # r" using quote_head [OF q] by blast
        ultimately show "?f e \<noteq> [] \<and> hd (?f e) \<noteq> CHR ''}''" by simp
      qed
    qed (use less.prems(1,2,5) obj in \<open>auto simp: canonical_json_object simp del: canonical_json.simps(6)\<close>)
    with obj show ?thesis by simp
  qed
qed


section \<open>Normalisation\<close>

lemma json_ok_normalize_strings: "\<forall>v \<in> set xs. json_ok v \<Longrightarrow> json_ok (normalize_strings xs)"
  by (auto simp: normalize_strings_def)

lemma json_ok_normalize_required: "json_ok v \<Longrightarrow> json_ok (normalize_required v)"
  by (cases v) (auto simp: normalize_required_def intro: json_ok_normalize_strings)

lemma bt_ok_map_values:
  "bt_ok m \<Longrightarrow> bt_ok (map (\<lambda>(k, v). (k, f k v)) (filter P m))"
  unfolding bt_ok_def
  by (induction m) (auto simp: comp_def case_prod_beta)

lemmas bt_ok_map_all = bt_ok_map_values [where P = "\<lambda>_. True", simplified]

lemma normalize_enum_required: "normalize_enum v = normalize_required v"
  by (simp add: normalize_enum_def normalize_required_def)

lemma json_ok_normalize_dependent: "json_ok v \<Longrightarrow> json_ok (normalize_dependent_required v)"
  by (cases v) (auto simp: normalize_dependent_required_def bt_ok_map_all json_ok_normalize_required)

lemma json_ok_normalize:
  "json_ok v \<Longrightarrow> json_ok (normalize_schema v)"
  "json_ok v \<Longrightarrow> json_ok (normalize_under k v)"
  "json_ok v \<Longrightarrow> json_ok (normalize_schema_map v)"
  by (induction v and k v and v rule: normalize_schema_normalize_under_normalize_schema_map.induct)
    (auto simp: bt_ok_map_values bt_ok_map_all json_ok_normalize_required json_ok_normalize_dependent
      normalize_enum_required)

lemma map_filter_as_str: "List.map_filter as_str (map JString xs) = xs"
  by (induction xs) (simp_all add: List.map_filter_simps)

lemma normalize_required_idem [simp]: "normalize_required (normalize_required v) = normalize_required v"
  by (cases v) (auto simp: normalize_required_def normalize_strings_def map_filter_as_str
      list_all_iff sorted_sort_id)

lemma normalize_type_idem:
  "normalize_under TypeKey (normalize_required (JArray arr)) = normalize_required (JArray arr)"
proof -
  obtain arr' where "normalize_required (JArray arr) = JArray arr'"
    by (cases "list_all is_string arr") (auto simp: normalize_required_def normalize_strings_def)
  then show ?thesis using normalize_required_idem [of "JArray arr"] by simp
qed

lemma normalize_dependent_idem:
  "normalize_dependent_required (normalize_dependent_required v) = normalize_dependent_required v"
  by (cases v) (auto simp: normalize_dependent_required_def)

lemma normalize_idem:
  "normalize_schema (normalize_schema v) = normalize_schema v"
  "normalize_under k (normalize_under k v) = normalize_under k v"
  "normalize_schema_map (normalize_schema_map v) = normalize_schema_map v"
  by (induction v and k v and v rule: normalize_schema_normalize_under_normalize_schema_map.induct)
    (auto simp: normalize_type_idem normalize_dependent_idem normalize_enum_required)

section \<open>Equality up to the sign of zero\<close>

text \<open>A value with every negative zero replaced: equality of values is equality of these.\<close>

fun unsigned_number :: "json_number \<Rightarrow> json_number" where
  "unsigned_number (Float t) = Float (if t = ''-0.0'' then ''0.0'' else t)"
| "unsigned_number n = n"

fun unsigned_zero :: "json \<Rightarrow> json" where
  "unsigned_zero (JNumber n) = JNumber (unsigned_number n)"
| "unsigned_zero (JArray xs) = JArray (map unsigned_zero xs)"
| "unsigned_zero (JObject m) = JObject (map (\<lambda>(k, v). (k, unsigned_zero v)) m)"
| "unsigned_zero v = v"

abbreviation unsigned_entries :: "(string \<times> json) list \<Rightarrow> (string \<times> json) list" where
  "unsigned_entries m \<equiv> map (\<lambda>(k, v). (k, unsigned_zero v)) m"

lemma number_eq_iff: "number_eq m n \<longleftrightarrow> unsigned_number m = unsigned_number n"
  by (cases m; cases n) (auto simp: zero_texts_def)

lemma unsigned_zero_leaf [simp]:
  "unsigned_zero v = JNull \<longleftrightarrow> v = JNull" "JNull = unsigned_zero v \<longleftrightarrow> v = JNull"
  "unsigned_zero v = JBool b \<longleftrightarrow> v = JBool b" "JBool b = unsigned_zero v \<longleftrightarrow> v = JBool b"
  "unsigned_zero v = JString s \<longleftrightarrow> v = JString s" "JString s = unsigned_zero v \<longleftrightarrow> v = JString s"
  by (cases v; auto)+

lemma json_eq_iff:
  "json_eq v w \<longleftrightarrow> unsigned_zero v = unsigned_zero w"
  "items_eq vs ws \<longleftrightarrow> map unsigned_zero vs = map unsigned_zero ws"
  "entries_eq l m \<longleftrightarrow> unsigned_entries l = unsigned_entries m"
  by (induction v w and vs ws and l m rule: json_eq_items_eq_entries_eq.induct)
    (auto simp: number_eq_iff)

lemma json_ok_unsigned: "json_ok v \<Longrightarrow> json_ok (unsigned_zero v)"
proof (induction v rule: unsigned_zero.induct)
  case (1 n)
  then show ?case by (cases n) (auto simp: number_char_def)
next
  case (3 m)
  then show ?case by (auto simp: bt_ok_map_all)
qed auto

lemma unsigned_strings:
  "list_all is_string (map unsigned_zero xs) \<longleftrightarrow> list_all is_string xs"
  "List.map_filter as_str (map unsigned_zero xs) = List.map_filter as_str xs"
proof -
  have "is_string (unsigned_zero v) = is_string v" "as_str (unsigned_zero v) = as_str v" for v
    by (cases v; simp)+
  then show "list_all is_string (map unsigned_zero xs) \<longleftrightarrow> list_all is_string xs"
    "List.map_filter as_str (map unsigned_zero xs) = List.map_filter as_str xs"
    by (simp_all add: list_all_iff List.map_filter_def comp_def filter_map)
qed

lemma unsigned_normalize_required:
  "unsigned_zero (normalize_required v) = normalize_required (unsigned_zero v)"
  by (cases v) (simp_all add: normalize_required_def normalize_strings_def unsigned_strings)

lemma unsigned_normalize_dependent:
  "unsigned_zero (normalize_dependent_required v) = normalize_dependent_required (unsigned_zero v)"
  by (cases v) (auto simp: normalize_dependent_required_def unsigned_normalize_required)

lemma unsigned_normalize:
  "unsigned_zero (normalize_schema v) = normalize_schema (unsigned_zero v)"
  "unsigned_zero (normalize_under k v) = normalize_under k (unsigned_zero v)"
  "unsigned_zero (normalize_schema_map v) = normalize_schema_map (unsigned_zero v)"
  by (induction v and k v and v rule: normalize_schema_normalize_under_normalize_schema_map.induct)
    (auto simp: unsigned_normalize_required unsigned_normalize_dependent normalize_enum_required filter_map
      comp_def case_prod_unfold)

section \<open>Divergences\<close>

text \<open>The value at a path, and what each divergence says about the two values it relates.\<close>

fun json_at :: "json \<Rightarrow> path_step list \<Rightarrow> json option" where
  "json_at v [] = Some v"
| "json_at (JObject m) (Key k # p) = Option.bind (map_of m k) (\<lambda>v. json_at v p)"
| "json_at (JArray xs) (Index i # p) = (if i < length xs then json_at (xs ! i) p else None)"
| "json_at v p = None"

primrec diverges :: "divergence \<Rightarrow> json \<Rightarrow> json \<Rightarrow> bool" where
  "diverges (MissingInRight k) l r \<longleftrightarrow> (case (as_object l, as_object r) of
     (Some l, Some r) \<Rightarrow> k \<in> fst ` set l \<and> k \<notin> fst ` set r | _ \<Rightarrow> False)"
| "diverges (ExtraInRight k) l r \<longleftrightarrow> (case (as_object l, as_object r) of
     (Some l, Some r) \<Rightarrow> k \<notin> fst ` set l \<and> k \<in> fst ` set r | _ \<Rightarrow> False)"
| "diverges ObjectValuesDiffer l r \<longleftrightarrow> False"
| "diverges (ArrayLength i j) l r \<longleftrightarrow> (case (as_array l, as_array r) of
     (Some l, Some r) \<Rightarrow> i = length l \<and> j = length r \<and> i \<noteq> j | _ \<Rightarrow> False)"
| "diverges ArraysDiffer l r \<longleftrightarrow> False"
| "diverges (Unequal a b) l r \<longleftrightarrow> a = l \<and> b = r \<and> \<not> json_eq l r"

lemma as_container_simps [simp]:
  "as_object (JObject m) = Some m" "as_array (JArray xs) = Some xs"
  by (simp_all add: as_object_def as_array_def)

lemma diff_normalized_None: "diff_normalized a b p = None \<longleftrightarrow> json_eq a b"
  by (cases a; cases b) (auto simp: Let_def split: list.splits option.splits)

lemma diff_keys_None:
  "\<lbrakk>diff_keys ks am bm p = None; \<forall>k \<in> set ks. k \<in> fst ` set am \<and> k \<in> fst ` set bm\<rbrakk>
    \<Longrightarrow> \<forall>k \<in> set ks. map_option unsigned_zero (map_of am k) = map_option unsigned_zero (map_of bm k)"
proof (induction ks)
  case (Cons k ks)
  then obtain l r where "map_of am k = Some l" "map_of bm k = Some r"
    by (metis list.set_intros(1) map_of_eq_None_iff option.exhaust)
  with Cons show ?case by (auto simp: diff_normalized_None json_eq_iff split: option.splits)
qed simp

lemma diff_items_None:
  "\<lbrakk>diff_items i aa ba p = None; length aa = length ba\<rbrakk> \<Longrightarrow> items_eq aa ba"
proof (induction aa arbitrary: i ba)
  case (Cons a aa)
  then show ?case by (cases ba) (auto simp: diff_normalized_None split: option.splits)
qed simp

lemma filter_Nil_subset: "filter (\<lambda>k. k \<notin> S) ks = [] \<longleftrightarrow> set ks \<subseteq> S"
  by (auto simp: filter_empty_conv)

lemma map_of_unsigned: "map_of (unsigned_entries m) k = map_option unsigned_zero (map_of m k)"
  by (induction m) auto

lemma diff_keys_complete:
  assumes "bt_ok am" "bt_ok bm" "fst ` set am = fst ` set bm" "diff_keys (map fst am) am bm p = None"
  shows "entries_eq am bm"
proof -
  have "\<forall>k \<in> fst ` set am. map_of (unsigned_entries am) k = map_of (unsigned_entries bm) k"
    using diff_keys_None [OF assms(4)] assms(3) by (auto simp: map_of_unsigned)
  then have "map_of (unsigned_entries am) k = map_of (unsigned_entries bm) k" for k
    using assms(3) by (cases "k \<in> fst ` set am") (auto simp: map_of_unsigned map_of_eq_None_iff [THEN iffD2])
  then have "bt_get (unsigned_entries am) k = bt_get (unsigned_entries bm) k" for k by (simp add: bt_get_def)
  with bt_ok_map_all [OF assms(1)] bt_ok_map_all [OF assms(2)] show ?thesis
    unfolding json_eq_iff by (intro btm.entries_determined) auto
qed

lemma diff_located:
  "\<lbrakk>diff_normalized a b p = Some (p', d); json_ok a; json_ok b\<rbrakk> \<Longrightarrow>
    \<exists>q l r. p' = p @ q \<and> json_at a q = Some l \<and> json_at b q = Some r \<and> diverges d l r"
  "\<lbrakk>diff_keys ks am bm p = Some (p', d); json_ok (JObject am); json_ok (JObject bm)\<rbrakk> \<Longrightarrow>
    \<exists>k q v w l r. p' = p @ Key k # q \<and> map_of am k = Some v \<and> map_of bm k = Some w \<and>
      json_at v q = Some l \<and> json_at w q = Some r \<and> diverges d l r"
  "\<lbrakk>diff_items i aa ba p = Some (p', d); json_ok (JArray aa); json_ok (JArray ba)\<rbrakk> \<Longrightarrow>
    \<exists>j q l r. p' = p @ Index (i + j) # q \<and> j < length aa \<and> j < length ba \<and>
      json_at (aa ! j) q = Some l \<and> json_at (ba ! j) q = Some r \<and> diverges d l r"
proof (induction a b p and ks am bm p and i aa ba p rule: diff_normalized_diff_keys_diff_items.induct)
  case (1 am bm path)
  consider (missing) k ks where "filter (\<lambda>k. k \<notin> set (map fst bm)) (map fst am) = k # ks"
    | (extra) k ks where "filter (\<lambda>k. k \<notin> set (map fst bm)) (map fst am) = []"
        "filter (\<lambda>k. k \<notin> set (map fst am)) (map fst bm) = k # ks"
    | (same) "filter (\<lambda>k. k \<notin> set (map fst bm)) (map fst am) = []"
        "filter (\<lambda>k. k \<notin> set (map fst am)) (map fst bm) = []"
    by (metis neq_Nil_conv)
  then show ?case
  proof cases
    case missing
    then have "k \<in> fst ` set am \<and> k \<notin> fst ` set bm"
      by (metis filter_eq_ConsD in_set_conv_decomp list.set_map)
    moreover from missing "1.prems"(1) have "p' = path" "d = MissingInRight k"
      by (simp_all add: Let_def split: if_splits)
    ultimately show ?thesis by (intro exI [of _ "[]"]) simp
  next
    case extra
    then have "k \<in> fst ` set bm \<and> k \<notin> fst ` set am"
      by (metis filter_eq_ConsD in_set_conv_decomp list.set_map)
    moreover from extra "1.prems"(1) have "p' = path" "d = ExtraInRight k"
      by (simp_all add: Let_def split: if_splits)
    ultimately show ?thesis by (intro exI [of _ "[]"]) simp
  next
    case same
    then have keys: "fst ` set am = fst ` set bm" by (auto simp: filter_empty_conv)
    from "1.prems"(1) have ne: "\<not> entries_eq am bm" by auto
    with "1.prems"(2,3) keys diff_keys_complete [of am bm path]
    obtain e where e: "diff_keys (map fst am) am bm path = Some e" by fastforce
    with same ne "1.prems"(1) have "e = (p', d)" by (simp add: Let_def)
    with "1.IH" [OF _ refl refl] same e ne "1.prems"(2,3) obtain k q v w l r where
      "p' = path @ Key k # q" "map_of am k = Some v" "map_of bm k = Some w"
      "json_at v q = Some l" "json_at w q = Some r" "diverges d l r"
      by (auto simp: Let_def)
    then show ?thesis by (intro exI [of _ "Key k # q"]) auto
  qed
next
  case (2 aa ba path)
  show ?case
  proof (cases "length aa = length ba")
    case False
    with 2 show ?thesis by (auto split: if_splits)
  next
    case True
    from "2.prems"(1) have ne: "\<not> items_eq aa ba" by auto
    with True diff_items_None obtain e where e: "diff_items 0 aa ba path = Some e" by fastforce
    with True ne "2.prems"(1) have "e = (p', d)" by simp
    with "2.IH" True e ne "2.prems"(2,3) obtain j q l r where
      "p' = path @ Index j # q" "j < length aa" "j < length ba"
      "json_at (aa ! j) q = Some l" "json_at (ba ! j) q = Some r" "diverges d l r"
      by auto
    then show ?thesis by (intro exI [of _ "Index j # q"]) auto
  qed
next
  case (5 k ks am bm path)
  then obtain v w where vw: "map_of am k = Some v" "map_of bm k = Some w"
    by (auto split: option.splits)
  then have ok: "json_ok v" "json_ok w"
    using "5.prems"(2,3) by (auto dest!: map_of_SomeD)
  show ?case
  proof (cases "diff_normalized v w (path @ [Key k])")
    case None
    with 5 vw show ?thesis by auto
  next
    case (Some e)
    with "5.prems"(1) vw have "diff_normalized v w (path @ [Key k]) = Some (p', d)" by simp
    from "5.IH"(1) [OF refl vw this ok] vw show ?thesis by (auto 0 3)
  qed
next
  case (6 i l ls r rs path)
  have ok: "json_ok l" "json_ok r" using "6.prems"(2,3) by auto
  show ?case
  proof (cases "diff_normalized l r (path @ [Index i])")
    case None
    with 6 obtain j q x y where "p' = path @ Index (Suc i + j) # q" "j < length ls"
      "j < length rs" "json_at (ls ! j) q = Some x" "json_at (rs ! j) q = Some y" "diverges d x y"
      by auto
    then show ?thesis by (intro exI [of _ "Suc j"]) auto
  next
    case (Some e)
    with "6.prems"(1) have "diff_normalized l r (path @ [Index i]) = Some (p', d)" by simp
    from "6.IH"(1) [OF this ok] show ?thesis by (intro exI [of _ 0]) auto
  qed
qed (auto split: if_splits)


section \<open>Properties\<close>

text \<open>
  C31: the canonical encoding is injective on JSON values. With a quoting function whose
  output is self-delimiting, two values with the same canonical text are the same value, so
  a digest of the text identifies the value up to hash collisions.
\<close>

theorem canonical_json_injective:
  assumes "quote_ok quote" "json_ok v" "json_ok w"
    and "canonical_json quote v = canonical_json quote w"
  shows "v = w"
  using canonical_json_prefix_free [OF assms(1-3), of "[]" "[]"] assms(4)
  by (simp add: delimited_def)

text \<open>Quoting with backslash escapes, an instance of the contract.\<close>

definition escape_char :: "char \<Rightarrow> string" where
  "escape_char c = (if c \<in> {CHR 0x22, CHR 0x5C} then [CHR 0x5C, c] else [c])"

definition json_quote :: "string \<Rightarrow> string" where
  "json_quote s = CHR 0x22 # concat (map escape_char s) @ [CHR 0x22]"

lemma quote_ok_json_quote: "quote_ok json_quote"
proof -
  have esc: "concat (map escape_char s) @ CHR 0x22 # x = concat (map escape_char t) @ CHR 0x22 # y \<Longrightarrow>
      s = t \<and> x = y" for s t x y
  proof (induction s arbitrary: t)
    case Nil
    then show ?case by (cases t) (auto simp: escape_char_def split: if_splits)
  next
    case (Cons c s)
    then show ?case by (cases t) (auto simp: escape_char_def split: if_splits)
  qed
  show ?thesis
    unfolding quote_ok_def json_quote_def
  proof (intro conjI allI impI)
    fix s t x y
    assume "(CHR 0x22 # concat (map escape_char s) @ [CHR 0x22]) @ x =
      (CHR 0x22 # concat (map escape_char t) @ [CHR 0x22]) @ y"
    then have "concat (map escape_char s) @ CHR 0x22 # x = concat (map escape_char t) @ CHR 0x22 # y"
      by simp
    from esc [OF this] show "s = t" "x = y" by auto
  qed blast
qed

theorem canonical_json_injective_witness:
  "canonical_json json_quote (JObject [(''a'', JArray [JNumber (PosInt 12), JNull]), (''b'', JString ''x'')])
     = ''{'' @ json_quote ''a'' @ '':[12,null],'' @ json_quote ''b'' @ '':'' @ json_quote ''x'' @ ''}'' \<and>
   JObject [(''a'', JArray [JNumber (PosInt 12), JNull]), (''b'', JString ''x'')] =
     JObject [(''a'', JArray [JNumber (PosInt 12), JNull]), (''b'', JString ''x'')]"
proof -
  let ?v = "JObject [(''a'', JArray [JNumber (PosInt 12), JNull]), (''b'', JString ''x'')]"
  have ok: "json_ok ?v" by (simp add: bt_ok_def)
  have n: "show_nat 12 = ''12''" by code_simp
  have "canonical_json json_quote ?v =
      ''{'' @ json_quote ''a'' @ '':[12,null],'' @ json_quote ''b'' @ '':'' @ json_quote ''x'' @ ''}''"
    using n by (simp add: Let_def)
  with canonical_json_injective [OF quote_ok_json_quote ok ok refl] show ?thesis by blast
qed

text \<open>
  Schema normalisation is idempotent and keeps values well formed, so the fingerprint of
  a normalised schema is its own.
\<close>

theorem normalize_schema_idempotent:
  "normalize_schema (normalize_schema v) = normalize_schema v \<and>
   canonical_schema_json quote (normalize_schema v) = canonical_schema_json quote v"
  by (simp add: normalize_idem canonical_schema_json_def)

lemma schemas_equal_iff:
  assumes "quote_ok quote" "json_ok a" "json_ok b"
  shows "schemas_structurally_equal quote a b \<longleftrightarrow> normalize_schema a = normalize_schema b"
  using canonical_json_prefix_free [OF assms(1) json_ok_normalize(1) json_ok_normalize(1), of a b "[]" "[]"] assms
  by (auto simp: schemas_structurally_equal_def canonical_schema_json_def delimited_def)

text \<open>
  C32: the two comparisons of schemas agree up to the sign of zero. The structural walk finds no
  divergence exactly when the canonical texts agree once every negative zero is written as a
  positive one; in particular it finds none when the texts agree. A divergence it reports is a
  real one, at a path that exists in both normalised schemas. The two fallback reports of the
  walk are never produced.
\<close>

theorem schema_comparisons_agree:
  assumes "quote_ok quote" "json_ok a" "json_ok b"
  shows "(schema_diff a b = None \<longleftrightarrow>
      schemas_structurally_equal quote (unsigned_zero a) (unsigned_zero b)) \<and>
    (schemas_structurally_equal quote a b \<longrightarrow> schema_diff a b = None) \<and>
    (\<forall>p d. schema_diff a b = Some (p, d) \<longrightarrow>
      (\<exists>l r. json_at (normalize_schema a) p = Some l \<and> json_at (normalize_schema b) p = Some r \<and>
        diverges d l r))"
proof (intro conjI allI impI)
  have ok: "json_ok (normalize_schema a)" "json_ok (normalize_schema b)"
    using assms by (auto intro: json_ok_normalize)
  show "schema_diff a b = None \<longleftrightarrow> schemas_structurally_equal quote (unsigned_zero a) (unsigned_zero b)"
    unfolding schemas_equal_iff [OF assms(1) json_ok_unsigned [OF assms(2)] json_ok_unsigned [OF assms(3)]]
    by (simp add: schema_diff_def diff_normalized_None json_eq_iff unsigned_normalize)
  show "schemas_structurally_equal quote a b \<Longrightarrow> schema_diff a b = None"
    unfolding schemas_equal_iff [OF assms] by (simp add: schema_diff_def diff_normalized_None json_eq_iff)
  fix p d assume "schema_diff a b = Some (p, d)"
  from diff_located(1) [OF this [unfolded schema_diff_def] ok]
  show "\<exists>l r. json_at (normalize_schema a) p = Some l \<and> json_at (normalize_schema b) p = Some r \<and>
      diverges d l r" by auto
qed

theorem schema_comparisons_agree_witness:
  "\<not> schemas_structurally_equal json_quote
      (JObject [(''required'', JArray [JString ''a''])]) (JObject [(''required'', JArray [])])"
proof -
  let ?a = "JObject [(''required'', JArray [JString ''a''])]"
  let ?b = "JObject [(''required'', JArray [])]"
  have ok: "json_ok ?a" "json_ok ?b" by (simp_all add: bt_ok_def)
  have "schema_diff ?a ?b = Some ([Key ''required''], ArrayLength 1 0)"
    by (simp add: schema_diff_def key_class_def opaque_payload_keys_def doc_keys_def
        normalize_required_def normalize_strings_def List.map_filter_def Let_def)
  with schema_comparisons_agree [OF quote_ok_json_quote ok] show ?thesis by simp
qed

text \<open>The comparisons do disagree on a default of zero and one of negative zero.\<close>

lemma negative_zero_disagreement:
  "\<not> schemas_structurally_equal quote (JObject [(''default'', JNumber (Float ''0.0''))])
      (JObject [(''default'', JNumber (Float ''-0.0''))])"
  "schema_diff (JObject [(''default'', JNumber (Float ''0.0''))])
      (JObject [(''default'', JNumber (Float ''-0.0''))]) = None"
  by (simp_all add: schemas_structurally_equal_def canonical_schema_json_def schema_diff_def key_class_def
      opaque_payload_keys_def doc_keys_def zero_texts_def Let_def)

end
