(* ===== verification/Attempt_Journal.thy ===== *)
theory Attempt_Journal
  imports Canonical_Json
begin

text \<open>
  The durable attempt journal (\<^verbatim>\<open>crates/zerostack/zero-store/src/attempt_journal.rs\<close>): one
  directory per effect attempt, holding write-once entries \<open>attempt-1.json\<close>,
  \<open>attempt-2.json\<close>, and so on, each naming the digest of its predecessor.

  The directory is a map from sequence numbers to what the file system answers for that
  entry's path. Every call takes the I/O step that fails in it, if any, and the injected
  crash plan of the source. SHA-256, JSON string quoting and JSON decoding are third-party
  code: the fields of \<open>attempt_codec\<close>. A digest is its list of bytes. Sequence numbers and
  timestamps are \<open>u64\<close> in the source and natural numbers here: the code computes only
  positions up to nine from them.
\<close>

section \<open>States, failure codes and boundaries\<close>

datatype attempt_state =
  Prepared | DispatchCrossed | Succeeded | Failed | Indeterminate | SafeToRetry | Aborted

primrec attempt_state_as_str :: "attempt_state \<Rightarrow> string" where
  "attempt_state_as_str Prepared = ''prepared''"
| "attempt_state_as_str DispatchCrossed = ''dispatch_crossed''"
| "attempt_state_as_str Succeeded = ''succeeded''"
| "attempt_state_as_str Failed = ''failed''"
| "attempt_state_as_str Indeterminate = ''indeterminate''"
| "attempt_state_as_str SafeToRetry = ''safe_to_retry''"
| "attempt_state_as_str Aborted = ''aborted''"

definition is_terminal :: "attempt_state \<Rightarrow> bool" where
  "is_terminal s = (s \<in> {Succeeded, Failed, Indeterminate, SafeToRetry, Aborted})"

datatype attempt_abort_reason = ExplicitAbort

datatype attempt_recovery_outcome =
    AlreadySucceeded | AlreadyFailed | AlreadyIndeterminate | AlreadySafeToRetry | AlreadyAborted
  | ClassifiedSucceeded | ClassifiedFailed | ClassifiedIndeterminate | ClassifiedSafeToRetry

datatype attempt_failure_code =
    SchemaVersionMismatch | InvalidBinding | ProfileSubstitution | JournalMissing
  | EntryMissing | TornOrNoncanonicalRecord | RecordTooLarge | TooManyEntries
  | SequenceMismatch | InvalidTransition | InvalidEvidence | ReceiptMismatch
  | ImmutableEntryConflict | AlreadyTerminal | IoBeforePublish | DirectorySyncFailedAfterPublish
  | InjectedCrash

primrec attempt_failure_code_as_str :: "attempt_failure_code \<Rightarrow> string" where
  "attempt_failure_code_as_str SchemaVersionMismatch = ''schema_version_mismatch''"
| "attempt_failure_code_as_str InvalidBinding = ''invalid_binding''"
| "attempt_failure_code_as_str ProfileSubstitution = ''profile_substitution''"
| "attempt_failure_code_as_str JournalMissing = ''journal_missing''"
| "attempt_failure_code_as_str EntryMissing = ''entry_missing''"
| "attempt_failure_code_as_str TornOrNoncanonicalRecord = ''torn_or_noncanonical_record''"
| "attempt_failure_code_as_str RecordTooLarge = ''record_too_large''"
| "attempt_failure_code_as_str TooManyEntries = ''too_many_entries''"
| "attempt_failure_code_as_str SequenceMismatch = ''sequence_mismatch''"
| "attempt_failure_code_as_str InvalidTransition = ''invalid_transition''"
| "attempt_failure_code_as_str InvalidEvidence = ''invalid_evidence''"
| "attempt_failure_code_as_str ReceiptMismatch = ''receipt_mismatch''"
| "attempt_failure_code_as_str ImmutableEntryConflict = ''immutable_entry_conflict''"
| "attempt_failure_code_as_str AlreadyTerminal = ''already_terminal''"
| "attempt_failure_code_as_str IoBeforePublish = ''io_before_publish''"
| "attempt_failure_code_as_str DirectorySyncFailedAfterPublish = ''directory_sync_failed_after_publish''"
| "attempt_failure_code_as_str InjectedCrash = ''injected_crash''"

datatype attempt_boundary =
    PrepareBeforeWrite | PrepareAfterFileSync | PrepareAfterRename | PrepareAfterDirectorySync
  | DispatchCrossBeforeWrite | DispatchCrossAfterFileSync | DispatchCrossAfterRename | DispatchCrossAfterDirectorySync
  | SucceedBeforeWrite | SucceedAfterFileSync | SucceedAfterRename | SucceedAfterDirectorySync
  | FailBeforeWrite | FailAfterFileSync | FailAfterRename | FailAfterDirectorySync
  | IndeterminateBeforeWrite | IndeterminateAfterFileSync | IndeterminateAfterRename | IndeterminateAfterDirectorySync
  | AbortBeforeWrite | AbortAfterFileSync | AbortAfterRename | AbortAfterDirectorySync
  | RecoverBeforeWrite | RecoverAfterFileSync | RecoverAfterRename | RecoverAfterDirectorySync

record attempt_journal_error =
  code :: attempt_failure_code
  boundary :: "attempt_boundary option"
  entry_published :: bool

definition error_new :: "attempt_failure_code \<Rightarrow> attempt_journal_error" where
  "error_new c = \<lparr>code = c, boundary = None, entry_published = False\<rparr>"

definition error_at ::
    "attempt_failure_code \<Rightarrow> attempt_boundary \<Rightarrow> bool \<Rightarrow> attempt_journal_error" where
  "error_at c b published = \<lparr>code = c, boundary = Some b, entry_published = published\<rparr>"

type_synonym 'a attempt_result = "('a, attempt_journal_error) result"

abbreviation fail :: "attempt_failure_code \<Rightarrow> 'a attempt_result" where
  "fail c \<equiv> Err (error_new c)"

section \<open>Bindings, evidence and entries\<close>

type_synonym digest = bytes

definition zero_digest :: digest where
  "zero_digest = replicate 32 0"

definition digest_to_hex :: "digest \<Rightarrow> string" where
  "digest_to_hex d = concat (map hex_byte d)"

datatype effect_class = ReadOnly | ReversibleMutation | ApprovalRequiredMutation | Irreversible

datatype durable_profile_id = PortableStrict | ApfsStrict | Ext4XfsStrict | NtfsStrict

primrec durable_profile_id_as_str :: "durable_profile_id \<Rightarrow> string" where
  "durable_profile_id_as_str PortableStrict = ''portable_strict''"
| "durable_profile_id_as_str ApfsStrict = ''apfs_strict''"
| "durable_profile_id_as_str Ext4XfsStrict = ''ext4_xfs_strict''"
| "durable_profile_id_as_str NtfsStrict = ''ntfs_strict''"

primrec durable_profile_filesystem :: "durable_profile_id \<Rightarrow> string" where
  "durable_profile_filesystem PortableStrict = ''portable''"
| "durable_profile_filesystem ApfsStrict = ''apfs''"
| "durable_profile_filesystem Ext4XfsStrict = ''ext4_or_xfs''"
| "durable_profile_filesystem NtfsStrict = ''ntfs''"

record attempt_binding =
  binding_schema_version :: nat
  attempt_id :: digest
  effect_digest :: digest
  effect_class :: effect_class
  admission_anchor_digest :: digest
  durable_profile_id :: durable_profile_id
  durable_profile_digest :: digest
  owner_identity_digest :: digest

datatype attempt_evidence =
    Completion (receipt_digest: digest) (observed_at_unix_ns: nat)
  | Failure (failure_receipt_digest: digest) (observed_at_unix_ns: nat)

record attempt_entry =
  entry_schema_version :: nat
  binding :: attempt_binding
  state :: attempt_state
  sequence :: nat
  predecessor_entry_digest :: "digest option"
  crossed_at_unix_ns :: "nat option"
  abort_reason :: "attempt_abort_reason option"
  evidence :: "attempt_evidence option"

record attempt_recovery_receipt =
  receipt_schema_version :: nat
  binding_digest :: digest
  outcome :: attempt_recovery_outcome
  terminal_entry_digest :: digest
  terminal_state :: attempt_state

text \<open>
  The third-party functions: SHA-256, \<open>serde_json::to_string\<close> on a string, and
  \<open>serde_json::from_slice\<close> at the entry type.
\<close>

record attempt_codec =
  sha256 :: "bytes \<Rightarrow> digest"
  json_string :: "string \<Rightarrow> string"
  from_slice :: "bytes \<Rightarrow> attempt_entry option"


subsection \<open>Serialised form\<close>

text \<open>
  The derived \<open>Serialize\<close> implementations: fields under their names, enums in snake case,
  digests as hexadecimal strings, absent options as null. Objects list their keys in
  ascending order, as the \<open>BTreeMap\<close> of \<open>serde_json\<close> does.
\<close>

primrec effect_class_value :: "effect_class \<Rightarrow> json" where
  "effect_class_value ReadOnly = JString ''read_only''"
| "effect_class_value ReversibleMutation = JString ''reversible_mutation''"
| "effect_class_value ApprovalRequiredMutation = JString ''approval_required_mutation''"
| "effect_class_value Irreversible = JString ''irreversible''"

definition nat_value :: "nat \<Rightarrow> json" where
  "nat_value n = JNumber (PosInt n)"

definition digest_value :: "digest \<Rightarrow> json" where
  "digest_value d = JString (digest_to_hex d)"

definition option_value :: "('a \<Rightarrow> json) \<Rightarrow> 'a option \<Rightarrow> json" where
  "option_value f x = (case x of None \<Rightarrow> JNull | Some v \<Rightarrow> f v)"

definition binding_value :: "attempt_binding \<Rightarrow> json" where
  "binding_value b = JObject
    [(''admission_anchor_digest'', digest_value (admission_anchor_digest b)),
     (''attempt_id'', digest_value (attempt_id b)),
     (''durable_profile_digest'', digest_value (durable_profile_digest b)),
     (''durable_profile_id'', JString (durable_profile_id_as_str (durable_profile_id b))),
     (''effect_class'', effect_class_value (effect_class b)),
     (''effect_digest'', digest_value (effect_digest b)),
     (''owner_identity_digest'', digest_value (owner_identity_digest b)),
     (''schema_version'', nat_value (binding_schema_version b))]"

primrec evidence_value :: "attempt_evidence \<Rightarrow> json" where
  "evidence_value (Completion d t) = JObject
    [(''kind'', JString ''completion''), (''observed_at_unix_ns'', nat_value t),
     (''receipt_digest'', digest_value d)]"
| "evidence_value (Failure d t) = JObject
    [(''failure_receipt_digest'', digest_value d), (''kind'', JString ''failure''),
     (''observed_at_unix_ns'', nat_value t)]"

primrec abort_reason_value :: "attempt_abort_reason \<Rightarrow> json" where
  "abort_reason_value ExplicitAbort = JString ''explicit_abort''"

definition entry_value :: "attempt_entry \<Rightarrow> json" where
  "entry_value e = JObject
    [(''abort_reason'', option_value abort_reason_value (abort_reason e)),
     (''binding'', binding_value (binding e)),
     (''crossed_at_unix_ns'', option_value nat_value (crossed_at_unix_ns e)),
     (''evidence'', option_value evidence_value (evidence e)),
     (''predecessor_entry_digest'', option_value digest_value (predecessor_entry_digest e)),
     (''schema_version'', nat_value (entry_schema_version e)),
     (''sequence'', nat_value (sequence e)),
     (''state'', JString (attempt_state_as_str (state e)))]"

definition attempt_journal_max_record_bytes :: nat where
  "attempt_journal_max_record_bytes = 64 * 1024"

definition attempt_journal_max_entries :: nat where
  "attempt_journal_max_entries = 8"

definition canonical_bytes :: "('a \<Rightarrow> json) \<Rightarrow> attempt_codec \<Rightarrow> 'a \<Rightarrow> bytes attempt_result" where
  "canonical_bytes to_value C v =
     (let bytes = str_bytes (canonical_json (json_string C) (to_value v)) in
      if attempt_journal_max_record_bytes < length bytes then fail RecordTooLarge else Ok bytes)"

definition domain_digest :: "attempt_codec \<Rightarrow> bytes \<Rightarrow> bytes \<Rightarrow> digest" where
  "domain_digest C domain bytes =
     sha256 C (domain @ be_bytes_u64 (word_of_nat (length bytes)) @ bytes)"

definition attempt_binding_domain :: bytes where
  "attempt_binding_domain = str_bytes (''zerostack.attempt_journal.binding'' @ [CHR 0x00])"

definition attempt_entry_domain :: bytes where
  "attempt_entry_domain = str_bytes (''zerostack.attempt_journal.entry'' @ [CHR 0x00])"

definition attempt_recovery_domain :: bytes where
  "attempt_recovery_domain = str_bytes (''zerostack.attempt_journal.recovery'' @ [CHR 0x00])"

text \<open>The canonical digest of a durable profile (\<^verbatim>\<open>zero-abi/src/zbf.rs\<close>).\<close>

definition profile_value :: "durable_profile_id \<Rightarrow> json" where
  "profile_value i = JObject
    [(''atomic_publish'', JBool True),
     (''filesystem'', JString (durable_profile_filesystem i)),
     (''hash'', JString ''sha256''),
     (''max_children'', nat_value 1024),
     (''max_depth'', nat_value 16),
     (''max_object_bytes'', nat_value (16 * 1024 * 1024)),
     (''max_payload_bytes'', nat_value (16 * 1024 * 1024 - 192)),
     (''profile_id'', JString (durable_profile_id_as_str i)),
     (''profile_version'', nat_value 1),
     (''sync_file_before_publish'', JBool True),
     (''sync_parent_directory_after_publish'', JBool True),
     (''unknown_required_versions'', JString ''reject''),
     (''zbf_schema_major'', nat_value 1),
     (''zbf_schema_minor'', nat_value 0)]"

definition profile_digest :: "attempt_codec \<Rightarrow> durable_profile_id \<Rightarrow> digest" where
  "profile_digest C i =
     sha256 C (str_bytes (''zerostack.zbf_profile'' @ [CHR 0x00]) @
       str_bytes (canonical_json (json_string C) (profile_value i)))"

subsection \<open>Validation\<close>

definition binding_new ::
    "attempt_codec \<Rightarrow> digest \<Rightarrow> digest \<Rightarrow> effect_class \<Rightarrow> digest \<Rightarrow> durable_profile_id \<Rightarrow> digest \<Rightarrow>
     attempt_binding" where
  "binding_new C i e c a p ow =
     \<lparr>binding_schema_version = 1, attempt_id = i, effect_digest = e, effect_class = c,
      admission_anchor_digest = a, durable_profile_id = p,
      durable_profile_digest = profile_digest C p, owner_identity_digest = ow\<rparr>"

definition binding_validate :: "attempt_codec \<Rightarrow> attempt_binding \<Rightarrow> unit attempt_result" where
  "binding_validate C b =
     (if binding_schema_version b \<noteq> 1 then fail SchemaVersionMismatch
      else if zero_digest \<in> set [attempt_id b, effect_digest b, admission_anchor_digest b,
          owner_identity_digest b] then fail InvalidBinding
      else if durable_profile_digest b \<noteq> profile_digest C (durable_profile_id b)
        then fail ProfileSubstitution
      else Ok ())"

definition binding_canonical_bytes :: "attempt_codec \<Rightarrow> attempt_binding \<Rightarrow> bytes attempt_result" where
  "binding_canonical_bytes C b =
     r_bind (binding_validate C b) (\<lambda>_. canonical_bytes binding_value C b)"

definition binding_digest_of :: "attempt_codec \<Rightarrow> attempt_binding \<Rightarrow> digest attempt_result" where
  "binding_digest_of C b =
     r_map (domain_digest C attempt_binding_domain) (binding_canonical_bytes C b)"

primrec evidence_validate :: "attempt_evidence \<Rightarrow> unit attempt_result" where
  "evidence_validate (Completion d t) = (if d = zero_digest then fail InvalidEvidence else Ok ())"
| "evidence_validate (Failure d t) = (if d = zero_digest then fail InvalidEvidence else Ok ())"

primrec entry_structural :: "attempt_state \<Rightarrow> attempt_entry \<Rightarrow> bool" where
  "entry_structural Prepared e \<longleftrightarrow> sequence e = 1 \<and> predecessor_entry_digest e = None \<and>
     crossed_at_unix_ns e = None \<and> abort_reason e = None"
| "entry_structural DispatchCrossed e \<longleftrightarrow> 2 \<le> sequence e \<and> predecessor_entry_digest e \<noteq> None \<and>
     crossed_at_unix_ns e \<noteq> None \<and> abort_reason e = None"
| "entry_structural Succeeded e \<longleftrightarrow> 2 \<le> sequence e \<and> predecessor_entry_digest e \<noteq> None \<and>
     crossed_at_unix_ns e = None \<and> abort_reason e = None"
| "entry_structural Failed e \<longleftrightarrow> 2 \<le> sequence e \<and> predecessor_entry_digest e \<noteq> None \<and>
     crossed_at_unix_ns e = None \<and> abort_reason e = None"
| "entry_structural Indeterminate e \<longleftrightarrow> 2 \<le> sequence e \<and> predecessor_entry_digest e \<noteq> None \<and>
     crossed_at_unix_ns e = None \<and> abort_reason e = None"
| "entry_structural SafeToRetry e \<longleftrightarrow> 2 \<le> sequence e \<and> predecessor_entry_digest e \<noteq> None \<and>
     crossed_at_unix_ns e = None \<and> abort_reason e = None"
| "entry_structural Aborted e \<longleftrightarrow> 2 \<le> sequence e \<and> predecessor_entry_digest e \<noteq> None \<and>
     crossed_at_unix_ns e = None \<and> abort_reason e \<noteq> None"

definition entry_paired :: "attempt_entry \<Rightarrow> bool" where
  "entry_paired e =
     (case (state e, evidence e) of
        (Succeeded, Some (Completion d t)) \<Rightarrow> True
      | (Succeeded, _) \<Rightarrow> False
      | (Failed, Some (Failure d t)) \<Rightarrow> True
      | (Failed, _) \<Rightarrow> False
      | (_, None) \<Rightarrow> True
      | (_, Some _) \<Rightarrow> False)"

definition entry_validate :: "attempt_codec \<Rightarrow> attempt_entry \<Rightarrow> unit attempt_result" where
  "entry_validate C e =
     (if entry_schema_version e \<noteq> 1 then fail SchemaVersionMismatch
      else r_bind (binding_validate C (binding e)) (\<lambda>_.
        if \<not> entry_structural (state e) e then fail SequenceMismatch
        else if \<not> entry_paired e then fail InvalidEvidence
        else case evidence e of Some ev \<Rightarrow> evidence_validate ev | None \<Rightarrow> Ok ()))"

definition entry_canonical_bytes :: "attempt_codec \<Rightarrow> attempt_entry \<Rightarrow> bytes attempt_result" where
  "entry_canonical_bytes C e = r_bind (entry_validate C e) (\<lambda>_. canonical_bytes entry_value C e)"

definition entry_digest :: "attempt_codec \<Rightarrow> attempt_entry \<Rightarrow> digest attempt_result" where
  "entry_digest C e = r_map (domain_digest C attempt_entry_domain) (entry_canonical_bytes C e)"

definition receipt_paired :: "attempt_recovery_outcome \<Rightarrow> attempt_state \<Rightarrow> bool" where
  "receipt_paired oc s = ((oc, s) \<in>
     {(AlreadySucceeded, Succeeded), (AlreadyFailed, Failed), (AlreadyIndeterminate, Indeterminate),
      (AlreadyAborted, Aborted), (AlreadySafeToRetry, SafeToRetry),
      (ClassifiedSucceeded, Succeeded), (ClassifiedFailed, Failed),
      (ClassifiedIndeterminate, Indeterminate), (ClassifiedSafeToRetry, SafeToRetry)})"

definition receipt_validate :: "attempt_recovery_receipt \<Rightarrow> unit attempt_result" where
  "receipt_validate r =
     (if receipt_schema_version r \<noteq> 1 then fail SchemaVersionMismatch
      else if binding_digest r = zero_digest \<or> terminal_entry_digest r = zero_digest \<or>
          \<not> is_terminal (terminal_state r) then fail InvalidBinding
      else if \<not> receipt_paired (outcome r) (terminal_state r) then fail InvalidBinding
      else Ok ())"

subsection \<open>Entry constructors\<close>

definition entry_prepared :: "attempt_binding \<Rightarrow> nat \<Rightarrow> attempt_entry" where
  "entry_prepared b n =
     \<lparr>entry_schema_version = 1, binding = b, state = Prepared, sequence = n,
      predecessor_entry_digest = None, crossed_at_unix_ns = None, abort_reason = None,
      evidence = None\<rparr>"

definition entry_dispatch_crossed :: "attempt_entry \<Rightarrow> digest \<Rightarrow> nat \<Rightarrow> nat \<Rightarrow> attempt_entry" where
  "entry_dispatch_crossed prepared d n t =
     \<lparr>entry_schema_version = 1, binding = binding prepared, state = DispatchCrossed, sequence = n,
      predecessor_entry_digest = Some d, crossed_at_unix_ns = Some t, abort_reason = None,
      evidence = None\<rparr>"

definition entry_succeeded :: "attempt_entry \<Rightarrow> digest \<Rightarrow> nat \<Rightarrow> attempt_evidence \<Rightarrow> attempt_entry" where
  "entry_succeeded dispatch d n ev =
     \<lparr>entry_schema_version = 1, binding = binding dispatch, state = Succeeded, sequence = n,
      predecessor_entry_digest = Some d, crossed_at_unix_ns = None, abort_reason = None,
      evidence = Some ev\<rparr>"

definition entry_failed :: "attempt_entry \<Rightarrow> digest \<Rightarrow> nat \<Rightarrow> attempt_evidence \<Rightarrow> attempt_entry" where
  "entry_failed dispatch d n ev =
     \<lparr>entry_schema_version = 1, binding = binding dispatch, state = Failed, sequence = n,
      predecessor_entry_digest = Some d, crossed_at_unix_ns = None, abort_reason = None,
      evidence = Some ev\<rparr>"

definition entry_indeterminate :: "attempt_entry \<Rightarrow> digest \<Rightarrow> nat \<Rightarrow> attempt_entry" where
  "entry_indeterminate prev d n =
     \<lparr>entry_schema_version = 1, binding = binding prev, state = Indeterminate, sequence = n,
      predecessor_entry_digest = Some d, crossed_at_unix_ns = None, abort_reason = None,
      evidence = None\<rparr>"

definition entry_safe_to_retry :: "attempt_entry \<Rightarrow> digest \<Rightarrow> nat \<Rightarrow> attempt_entry" where
  "entry_safe_to_retry prev d n =
     \<lparr>entry_schema_version = 1, binding = binding prev, state = SafeToRetry, sequence = n,
      predecessor_entry_digest = Some d, crossed_at_unix_ns = None, abort_reason = None,
      evidence = None\<rparr>"

definition entry_aborted :: "attempt_entry \<Rightarrow> digest \<Rightarrow> nat \<Rightarrow> attempt_abort_reason \<Rightarrow> attempt_entry" where
  "entry_aborted prepared d n reason =
     \<lparr>entry_schema_version = 1, binding = binding prepared, state = Aborted, sequence = n,
      predecessor_entry_digest = Some d, crossed_at_unix_ns = None, abort_reason = Some reason,
      evidence = None\<rparr>"

section \<open>Files, faults and durable writes\<close>

text \<open>
  For each entry path, what \<open>symlink_metadata\<close> and \<open>read\<close> answer. Nothing relates the two
  answers in general: a path may be a directory, a symbolic link, or unreadable.
\<close>

datatype stat_outcome = StatNotFound | StatFailed | Stat bool nat

datatype read_outcome = ReadOk bytes | ReadNotFound | ReadFailed

record node =
  stat :: stat_outcome
  read :: read_outcome

definition missing_node :: node where
  "missing_node = \<lparr>stat = StatNotFound, read = ReadNotFound\<rparr>"

definition file_node :: "bytes \<Rightarrow> node" where
  "file_node b = \<lparr>stat = Stat True (length b), read = ReadOk b\<rparr>"

record journal =
  entry_files :: "nat \<Rightarrow> node"
  temp_files :: nat

definition empty_journal :: journal where
  "empty_journal = \<lparr>entry_files = \<lambda>_. missing_node, temp_files = 0\<rparr>"

text \<open>The step of a durable write that fails in a call, and whether removing the temporary fails.\<close>

datatype io_step = CreateDir | OpenTemp | WriteAll | SyncFile | RenameTemp | SyncDir

record io_env =
  failing :: "io_step option"
  remove_fails :: bool

record attempt_fault_plan =
  crash_at :: "attempt_boundary option"
  fired :: bool

definition fault_none :: attempt_fault_plan where
  "fault_none = \<lparr>crash_at = None, fired = False\<rparr>"

definition fault_hit ::
    "attempt_fault_plan \<Rightarrow> attempt_boundary \<Rightarrow> bool \<Rightarrow>
     attempt_journal_error option \<times> attempt_fault_plan" where
  "fault_hit p b published =
     (if \<not> fired p \<and> crash_at p = Some b
      then (Some (error_at InjectedCrash b published), p\<lparr>fired := True\<rparr>)
      else (None, p))"

record write_boundaries =
  before :: attempt_boundary
  file_sync :: attempt_boundary
  rename :: attempt_boundary
  dir_sync :: attempt_boundary

definition prepare_boundaries :: write_boundaries where
  "prepare_boundaries = \<lparr>before = PrepareBeforeWrite, file_sync = PrepareAfterFileSync,
     rename = PrepareAfterRename, dir_sync = PrepareAfterDirectorySync\<rparr>"

definition dispatch_cross_boundaries :: write_boundaries where
  "dispatch_cross_boundaries = \<lparr>before = DispatchCrossBeforeWrite, file_sync = DispatchCrossAfterFileSync,
     rename = DispatchCrossAfterRename, dir_sync = DispatchCrossAfterDirectorySync\<rparr>"

definition succeed_boundaries :: write_boundaries where
  "succeed_boundaries = \<lparr>before = SucceedBeforeWrite, file_sync = SucceedAfterFileSync,
     rename = SucceedAfterRename, dir_sync = SucceedAfterDirectorySync\<rparr>"

definition fail_boundaries :: write_boundaries where
  "fail_boundaries = \<lparr>before = FailBeforeWrite, file_sync = FailAfterFileSync,
     rename = FailAfterRename, dir_sync = FailAfterDirectorySync\<rparr>"

definition indeterminate_boundaries :: write_boundaries where
  "indeterminate_boundaries = \<lparr>before = IndeterminateBeforeWrite, file_sync = IndeterminateAfterFileSync,
     rename = IndeterminateAfterRename, dir_sync = IndeterminateAfterDirectorySync\<rparr>"

definition abort_boundaries :: write_boundaries where
  "abort_boundaries = \<lparr>before = AbortBeforeWrite, file_sync = AbortAfterFileSync,
     rename = AbortAfterRename, dir_sync = AbortAfterDirectorySync\<rparr>"

definition recover_boundaries :: write_boundaries where
  "recover_boundaries = \<lparr>before = RecoverBeforeWrite, file_sync = RecoverAfterFileSync,
     rename = RecoverAfterRename, dir_sync = RecoverAfterDirectorySync\<rparr>"

definition io_before :: "attempt_boundary \<Rightarrow> attempt_journal_error" where
  "io_before b = error_at IoBeforePublish b False"

definition publish :: "nat \<Rightarrow> bytes \<Rightarrow> journal \<Rightarrow> journal" where
  "publish n bytes J = J\<lparr>entry_files := (entry_files J)(n := file_node bytes)\<rparr>"

text \<open>
  \<open>durable_replace\<close>: the body is the closure of the source, run with the temporary file
  open; its boolean is the \<open>published\<close> flag, after which the temporary no longer exists.
\<close>

definition durable_replace_body ::
    "io_env \<Rightarrow> nat \<Rightarrow> bytes \<Rightarrow> write_boundaries \<Rightarrow> journal \<Rightarrow> attempt_fault_plan \<Rightarrow>
     unit attempt_result \<times> bool \<times> journal \<times> attempt_fault_plan" where
  "durable_replace_body io n bytes bd J p =
     (case fault_hit p (before bd) False of
        (Some e, p) \<Rightarrow> (Err e, False, J, p)
      | (None, p) \<Rightarrow>
        if failing io = Some WriteAll then (Err (io_before (before bd)), False, J, p)
        else if failing io = Some SyncFile then (Err (io_before (file_sync bd)), False, J, p)
        else (case fault_hit p (file_sync bd) False of
          (Some e, p) \<Rightarrow> (Err e, False, J, p)
        | (None, p) \<Rightarrow>
          if failing io = Some RenameTemp then (Err (io_before (rename bd)), False, J, p)
          else let J = publish n bytes (J\<lparr>temp_files := temp_files J - 1\<rparr>) in
            (case fault_hit p (rename bd) True of
               (Some e, p) \<Rightarrow> (Err e, True, J, p)
             | (None, p) \<Rightarrow>
               if failing io = Some SyncDir
               then (Err (error_at DirectorySyncFailedAfterPublish (dir_sync bd) True), True, J, p)
               else (case fault_hit p (dir_sync bd) True of
                 (Some e, p) \<Rightarrow> (Err e, True, J, p)
               | (None, p) \<Rightarrow> (Ok (), True, J, p)))))"

definition durable_replace ::
    "io_env \<Rightarrow> nat \<Rightarrow> bytes \<Rightarrow> write_boundaries \<Rightarrow> journal \<Rightarrow> attempt_fault_plan \<Rightarrow>
     unit attempt_result \<times> journal \<times> attempt_fault_plan" where
  "durable_replace io n bytes bd J p =
     (if attempt_journal_max_record_bytes < length bytes then (fail RecordTooLarge, J, p)
      else if failing io = Some CreateDir then (Err (io_before (before bd)), J, p)
      else if failing io = Some OpenTemp then (Err (io_before (before bd)), J, p)
      else case durable_replace_body io n bytes bd (J\<lparr>temp_files := temp_files J + 1\<rparr>) p of
        (r, published, J, p) \<Rightarrow>
          (r, if \<not> published \<and> \<not> remove_fails io then J\<lparr>temp_files := temp_files J - 1\<rparr> else J, p))"

definition write_once_entry ::
    "attempt_codec \<Rightarrow> io_env \<Rightarrow> nat \<Rightarrow> attempt_entry \<Rightarrow> write_boundaries \<Rightarrow> journal \<Rightarrow>
     attempt_fault_plan \<Rightarrow> unit attempt_result \<times> journal \<times> attempt_fault_plan" where
  "write_once_entry C io n e bd J p =
     (if attempt_journal_max_entries < n then (fail TooManyEntries, J, p)
      else case entry_canonical_bytes C e of
        Err er \<Rightarrow> (Err er, J, p)
      | Panicked \<Rightarrow> (Panicked, J, p)
      | Ok bytes \<Rightarrow>
        (case read (entry_files J n) of
           ReadOk existing \<Rightarrow>
             if existing = bytes then (Ok (), J, p) else (fail ImmutableEntryConflict, J, p)
         | ReadFailed \<Rightarrow> (fail IoBeforePublish, J, p)
         | ReadNotFound \<Rightarrow> durable_replace io n bytes bd J p))"

section \<open>Reading the chain\<close>

record canonical_read =
  read_value :: attempt_entry
  read_digest :: digest

definition read_canonical ::
    "attempt_codec \<Rightarrow> node \<Rightarrow> attempt_failure_code \<Rightarrow> bytes \<Rightarrow> canonical_read attempt_result" where
  "read_canonical C nd missing domain =
     (case stat nd of
        StatNotFound \<Rightarrow> fail missing
      | StatFailed \<Rightarrow> fail IoBeforePublish
      | Stat is_file len \<Rightarrow>
        if \<not> is_file then fail TornOrNoncanonicalRecord
        else if attempt_journal_max_record_bytes < len then fail RecordTooLarge
        else (case read nd of
          ReadNotFound \<Rightarrow> fail IoBeforePublish
        | ReadFailed \<Rightarrow> fail IoBeforePublish
        | ReadOk bytes \<Rightarrow>
          (case from_slice C bytes of
             None \<Rightarrow> fail TornOrNoncanonicalRecord
           | Some v \<Rightarrow>
             r_bind (canonical_bytes entry_value C v) (\<lambda>canonical.
               if canonical \<noteq> bytes then fail TornOrNoncanonicalRecord
               else Ok \<lparr>read_value = v, read_digest = domain_digest C domain canonical\<rparr>))))"

definition read_canonical_entry ::
    "attempt_codec \<Rightarrow> journal \<Rightarrow> nat \<Rightarrow> canonical_read attempt_result" where
  "read_canonical_entry C J n =
     r_bind (read_canonical C (entry_files J n) EntryMissing attempt_entry_domain) (\<lambda>r.
       r_bind (entry_validate C (read_value r)) (\<lambda>_.
         r_map (\<lambda>d. r\<lparr>read_digest := d\<rparr>) (entry_digest C (read_value r))))"

definition is_valid_transition :: "attempt_state \<Rightarrow> attempt_state \<Rightarrow> bool" where
  "is_valid_transition a b = ((a, b) \<in>
     {(Prepared, DispatchCrossed), (Prepared, Aborted), (Prepared, SafeToRetry),
      (DispatchCrossed, Succeeded), (DispatchCrossed, Failed), (DispatchCrossed, Indeterminate)})"

text \<open>The loop over the sequence numbers, then the probe for entries behind a gap.\<close>

fun read_entries ::
    "attempt_codec \<Rightarrow> journal \<Rightarrow> nat list \<Rightarrow> canonical_read list attempt_result" where
  "read_entries C J [] = Ok []"
| "read_entries C J (n # ns) =
     (case read_canonical_entry C J n of
        Ok e \<Rightarrow> r_map (Cons e) (read_entries C J ns)
      | Err er \<Rightarrow> if code er = EntryMissing then Ok [] else Err er
      | Panicked \<Rightarrow> Panicked)"

fun check_links :: "nat \<Rightarrow> canonical_read option \<Rightarrow> canonical_read list \<Rightarrow> unit attempt_result" where
  "check_links i prev [] = Ok ()"
| "check_links i prev (e # es) =
     (if sequence (read_value e) \<noteq> i + 1 then fail SequenceMismatch
      else case prev of
        None \<Rightarrow> check_links (i + 1) (Some e) es
      | Some previous \<Rightarrow>
        if predecessor_entry_digest (read_value e) \<noteq> Some (read_digest previous)
        then fail SequenceMismatch
        else if \<not> is_valid_transition (state (read_value previous)) (state (read_value e))
        then fail InvalidTransition
        else check_links (i + 1) (Some e) es)"

definition read_chain :: "attempt_codec \<Rightarrow> journal \<Rightarrow> canonical_read list attempt_result" where
  "read_chain C J =
     r_bind (read_entries C J [1..<attempt_journal_max_entries + 1]) (\<lambda>entries.
       if entries = [] then Ok entries
       else if list_ex (\<lambda>n. is_ok (read_canonical_entry C J n))
                 [length entries + 1..<attempt_journal_max_entries + 1]
       then fail SequenceMismatch
       else r_bind (check_links 0 None entries) (\<lambda>_. Ok entries))"

definition read_current_attempt :: "attempt_codec \<Rightarrow> journal \<Rightarrow> attempt_entry option attempt_result" where
  "read_current_attempt C J =
     r_map (\<lambda>chain. if chain = [] then None else Some (read_value (last chain))) (read_chain C J)"

definition read_attempt_entry :: "attempt_codec \<Rightarrow> journal \<Rightarrow> nat \<Rightarrow> attempt_entry attempt_result" where
  "read_attempt_entry C J n = r_map read_value (read_canonical_entry C J n)"

section \<open>Operations\<close>

text \<open>
  A call returns its result, the journal it leaves and the fault plan. \<open>question\<close> is the
  source's \<open>?\<close> on a pure step, \<open>after_write\<close> on a write.
\<close>

type_synonym 'a outcome_of_call = "'a attempt_result \<times> journal \<times> attempt_fault_plan"

definition question ::
    "'a attempt_result \<Rightarrow> journal \<Rightarrow> attempt_fault_plan \<Rightarrow> ('a \<Rightarrow> 'b outcome_of_call) \<Rightarrow>
     'b outcome_of_call" where
  "question r J p f = (case r of Ok x \<Rightarrow> f x | Err e \<Rightarrow> (Err e, J, p) | Panicked \<Rightarrow> (Panicked, J, p))"

definition after_write :: "unit outcome_of_call \<Rightarrow> 'a attempt_result \<Rightarrow> 'a outcome_of_call" where
  "after_write w r = (case w of (u, J, p) \<Rightarrow> (r_bind u (\<lambda>_. r), J, p))"

definition prepare_attempt_with_fault ::
    "attempt_codec \<Rightarrow> io_env \<Rightarrow> attempt_binding \<Rightarrow> journal \<Rightarrow> attempt_fault_plan \<Rightarrow>
     attempt_entry outcome_of_call" where
  "prepare_attempt_with_fault C io b J p =
     question (binding_validate C b) J p (\<lambda>_.
     question (read_chain C J) J p (\<lambda>chain.
       if chain \<noteq> [] then
         (let current = read_value (last chain) in
          if state current = Prepared then
            if binding current = b then (Ok current, J, p)
            else (fail ImmutableEntryConflict, J, p)
          else (fail AlreadyTerminal, J, p))
       else
         (let prepared = entry_prepared b 1 in
          after_write (write_once_entry C io 1 prepared prepare_boundaries J p) (Ok prepared))))"

definition mark_dispatch_crossed_with_fault ::
    "attempt_codec \<Rightarrow> io_env \<Rightarrow> digest \<Rightarrow> nat \<Rightarrow> journal \<Rightarrow> attempt_fault_plan \<Rightarrow>
     attempt_entry outcome_of_call" where
  "mark_dispatch_crossed_with_fault C io prepared_digest t J p =
     question (read_chain C J) J p (\<lambda>chain.
       if chain = [] then (fail JournalMissing, J, p)
       else
         (let current = last chain in
          if state (read_value current) = DispatchCrossed then
            if predecessor_entry_digest (read_value current) = Some prepared_digest
            then (Ok (read_value current), J, p)
            else (fail ReceiptMismatch, J, p)
          else if state (read_value current) \<noteq> Prepared then (fail AlreadyTerminal, J, p)
          else if read_digest current \<noteq> prepared_digest then (fail ReceiptMismatch, J, p)
          else
            (let n = length chain + 1;
                 crossed = entry_dispatch_crossed (read_value current) (read_digest current) n t
             in after_write (write_once_entry C io n crossed dispatch_cross_boundaries J p)
                  (Ok crossed))))"

definition terminal_entry ::
    "attempt_entry \<Rightarrow> digest \<Rightarrow> nat \<Rightarrow> attempt_state \<Rightarrow> attempt_evidence option \<Rightarrow>
     attempt_entry attempt_result" where
  "terminal_entry dispatch d n s ev =
     (case s of
        Succeeded \<Rightarrow> (case ev of Some ev \<Rightarrow> Ok (entry_succeeded dispatch d n ev) | None \<Rightarrow> Panicked)
      | Failed \<Rightarrow> (case ev of Some ev \<Rightarrow> Ok (entry_failed dispatch d n ev) | None \<Rightarrow> Panicked)
      | Indeterminate \<Rightarrow> Ok (entry_indeterminate dispatch d n)
      | _ \<Rightarrow> Panicked)"

text \<open>The last but one element of the chain, \<open>chain[chain.len() - 2]\<close>, which panics below length two.\<close>

definition last_but_one :: "'a list \<Rightarrow> ('a, 'e) result" where
  "last_but_one xs = (if length xs < 2 then Panicked else Ok (xs ! (length xs - 2)))"

definition mark_terminal_with_fault ::
    "attempt_codec \<Rightarrow> io_env \<Rightarrow> digest \<Rightarrow> attempt_state \<Rightarrow> attempt_evidence option \<Rightarrow>
     write_boundaries \<Rightarrow> journal \<Rightarrow> attempt_fault_plan \<Rightarrow> attempt_entry outcome_of_call" where
  "mark_terminal_with_fault C io dispatch_digest s ev bd J p =
     question (read_chain C J) J p (\<lambda>chain.
       if chain = [] then (fail JournalMissing, J, p)
       else
         (let current = last chain in
          if state (read_value current) = s then
            question (last_but_one chain) J p (\<lambda>dispatch.
              if read_digest dispatch \<noteq> dispatch_digest then (fail ReceiptMismatch, J, p)
              else
                question (terminal_entry (read_value dispatch) (read_digest dispatch)
                  (length chain) s ev) J p (\<lambda>candidate.
                  if candidate = read_value current then (Ok (read_value current), J, p)
                  else (fail ImmutableEntryConflict, J, p)))
          else if state (read_value current) \<noteq> DispatchCrossed then (fail InvalidTransition, J, p)
          else if read_digest current \<noteq> dispatch_digest then (fail ReceiptMismatch, J, p)
          else
            (let n = length chain + 1 in
             question (terminal_entry (read_value current) (read_digest current) n s ev) J p
               (\<lambda>terminal. after_write (write_once_entry C io n terminal bd J p) (Ok terminal)))))"

definition mark_succeeded_with_fault ::
    "attempt_codec \<Rightarrow> io_env \<Rightarrow> digest \<Rightarrow> digest \<Rightarrow> nat \<Rightarrow> journal \<Rightarrow> attempt_fault_plan \<Rightarrow>
     attempt_entry outcome_of_call" where
  "mark_succeeded_with_fault C io dispatch_digest receipt t J p =
     (if receipt = zero_digest then (fail InvalidEvidence, J, p)
      else mark_terminal_with_fault C io dispatch_digest Succeeded (Some (Completion receipt t))
        succeed_boundaries J p)"

definition mark_failed_with_fault ::
    "attempt_codec \<Rightarrow> io_env \<Rightarrow> digest \<Rightarrow> digest \<Rightarrow> nat \<Rightarrow> journal \<Rightarrow> attempt_fault_plan \<Rightarrow>
     attempt_entry outcome_of_call" where
  "mark_failed_with_fault C io dispatch_digest receipt t J p =
     (if receipt = zero_digest then (fail InvalidEvidence, J, p)
      else mark_terminal_with_fault C io dispatch_digest Failed (Some (Failure receipt t))
        fail_boundaries J p)"

definition mark_indeterminate_with_fault ::
    "attempt_codec \<Rightarrow> io_env \<Rightarrow> digest \<Rightarrow> journal \<Rightarrow> attempt_fault_plan \<Rightarrow>
     attempt_entry outcome_of_call" where
  "mark_indeterminate_with_fault C io dispatch_digest J p =
     mark_terminal_with_fault C io dispatch_digest Indeterminate None indeterminate_boundaries J p"

definition abort_attempt_with_fault ::
    "attempt_codec \<Rightarrow> io_env \<Rightarrow> digest \<Rightarrow> journal \<Rightarrow> attempt_fault_plan \<Rightarrow>
     attempt_entry outcome_of_call" where
  "abort_attempt_with_fault C io prepared_digest J p =
     question (read_chain C J) J p (\<lambda>chain.
       if chain = [] then (fail JournalMissing, J, p)
       else
         (let current = last chain in
          if state (read_value current) = Prepared then
            if read_digest current \<noteq> prepared_digest then (fail ReceiptMismatch, J, p)
            else
              (let n = length chain + 1;
                   aborted = entry_aborted (read_value current) (read_digest current) n ExplicitAbort
               in after_write (write_once_entry C io n aborted abort_boundaries J p) (Ok aborted))
          else if state (read_value current) = Aborted then
            question (last_but_one chain) J p (\<lambda>prepared.
              if read_digest prepared \<noteq> prepared_digest then (fail ReceiptMismatch, J, p)
              else (Ok (read_value current), J, p))
          else (fail InvalidTransition, J, p)))"

definition make_recovery_receipt ::
    "attempt_codec \<Rightarrow> digest \<Rightarrow> attempt_recovery_outcome \<Rightarrow> attempt_entry \<Rightarrow>
     attempt_recovery_receipt attempt_result" where
  "make_recovery_receipt C bd oc terminal =
     r_bind (entry_digest C terminal) (\<lambda>d.
       let receipt = \<lparr>receipt_schema_version = 1, binding_digest = bd, outcome = oc,
             terminal_entry_digest = d, terminal_state = state terminal\<rparr>
       in r_bind (receipt_validate receipt) (\<lambda>_. Ok receipt))"

primrec already_outcome :: "attempt_state \<Rightarrow> attempt_recovery_outcome option" where
  "already_outcome Succeeded = Some AlreadySucceeded"
| "already_outcome Failed = Some AlreadyFailed"
| "already_outcome Indeterminate = Some AlreadyIndeterminate"
| "already_outcome SafeToRetry = Some AlreadySafeToRetry"
| "already_outcome Aborted = Some AlreadyAborted"
| "already_outcome Prepared = None"
| "already_outcome DispatchCrossed = None"

definition classify_dispatched ::
    "attempt_entry \<Rightarrow> digest \<Rightarrow> nat \<Rightarrow> attempt_evidence option \<Rightarrow>
     attempt_recovery_outcome \<times> attempt_entry" where
  "classify_dispatched current d n ev =
     (case ev of
        Some (Completion r t) \<Rightarrow> (ClassifiedSucceeded, entry_succeeded current d n (Completion r t))
      | Some (Failure r t) \<Rightarrow> (ClassifiedFailed, entry_failed current d n (Failure r t))
      | None \<Rightarrow> (ClassifiedIndeterminate, entry_indeterminate current d n))"

text \<open>The \<open>match\<close> of recovery on the state of the current entry.\<close>

definition recover_by_state ::
    "attempt_codec \<Rightarrow> io_env \<Rightarrow> digest \<Rightarrow> canonical_read list \<Rightarrow> attempt_evidence option \<Rightarrow> journal \<Rightarrow>
     attempt_fault_plan \<Rightarrow> attempt_recovery_receipt outcome_of_call" where
  "recover_by_state C io bd chain ev J p =
     (let current = last chain; n = length chain + 1 in
      case already_outcome (state (read_value current)) of
        Some oc \<Rightarrow> (make_recovery_receipt C bd oc (read_value current), J, p)
      | None \<Rightarrow>
        if state (read_value current) = Prepared then
          (let safe = entry_safe_to_retry (read_value current) (read_digest current) n
           in after_write (write_once_entry C io n safe recover_boundaries J p)
                (make_recovery_receipt C bd ClassifiedSafeToRetry safe))
        else
          (case classify_dispatched (read_value current) (read_digest current) n ev of
             (oc, terminal) \<Rightarrow>
               after_write (write_once_entry C io n terminal recover_boundaries J p)
                 (make_recovery_receipt C bd oc terminal)))"

definition recover_attempt_with_fault ::
    "attempt_codec \<Rightarrow> io_env \<Rightarrow> attempt_binding \<Rightarrow> attempt_evidence option \<Rightarrow> journal \<Rightarrow>
     attempt_fault_plan \<Rightarrow> attempt_recovery_receipt outcome_of_call" where
  "recover_attempt_with_fault C io expected ev J p =
     question (binding_validate C expected) J p (\<lambda>_.
     question (read_chain C J) J p (\<lambda>chain.
       if chain = [] then (fail JournalMissing, J, p)
       else if binding (read_value (hd chain)) \<noteq> expected then (fail InvalidBinding, J, p)
       else question (binding_digest_of C expected) J p (\<lambda>bd.
         recover_by_state C io bd chain ev J p)))"

subsection \<open>Calls and runs\<close>

text \<open>The API of the journal as one type of calls; a run is any sequence of them.\<close>

datatype attempt_call =
    Prepare attempt_binding
  | MarkDispatchCrossed digest nat
  | MarkSucceeded digest digest nat
  | MarkFailed digest digest nat
  | MarkIndeterminate digest
  | Abort digest
  | Recover attempt_binding "attempt_evidence option"

datatype call_value = EntryValue attempt_entry | ReceiptValue attempt_recovery_receipt

definition call_result :: "('a \<Rightarrow> 'b) \<Rightarrow> 'a outcome_of_call \<Rightarrow> 'b outcome_of_call" where
  "call_result f w = (case w of (r, J, p) \<Rightarrow> (r_map f r, J, p))"

primrec run_call ::
    "attempt_codec \<Rightarrow> io_env \<Rightarrow> attempt_call \<Rightarrow> journal \<Rightarrow> attempt_fault_plan \<Rightarrow>
     call_value outcome_of_call" where
  "run_call C io (Prepare b) J p = call_result EntryValue (prepare_attempt_with_fault C io b J p)"
| "run_call C io (MarkDispatchCrossed d t) J p =
     call_result EntryValue (mark_dispatch_crossed_with_fault C io d t J p)"
| "run_call C io (MarkSucceeded d r t) J p =
     call_result EntryValue (mark_succeeded_with_fault C io d r t J p)"
| "run_call C io (MarkFailed d r t) J p =
     call_result EntryValue (mark_failed_with_fault C io d r t J p)"
| "run_call C io (MarkIndeterminate d) J p =
     call_result EntryValue (mark_indeterminate_with_fault C io d J p)"
| "run_call C io (Abort d) J p = call_result EntryValue (abort_attempt_with_fault C io d J p)"
| "run_call C io (Recover b ev) J p =
     call_result ReceiptValue (recover_attempt_with_fault C io b ev J p)"

inductive journal_step :: "attempt_codec \<Rightarrow> journal \<Rightarrow> journal \<Rightarrow> bool" for C where
  journal_step: "run_call C io c J p = (r, J', p') \<Longrightarrow> journal_step C J J'"

abbreviation journal_steps :: "attempt_codec \<Rightarrow> journal \<Rightarrow> journal \<Rightarrow> bool" where
  "journal_steps C \<equiv> (journal_step C)\<^sup>*\<^sup>*"

inductive_cases journal_stepE: "journal_step C J J'"

end
