(* ===== verification/Attempt_Journal_Correct.thy ===== *)
theory Attempt_Journal_Correct
  imports Attempt_Journal
begin

text \<open>
  Correctness of the attempt journal. First the effect of a durable write and of each call
  on an arbitrary directory (all-or-nothing, never a panic, published exactly when
  reported); then the invariant of the journals the API itself builds, by induction over
  runs with arbitrary arguments, I/O failures and injected crashes.
\<close>

section \<open>Writes\<close>

text \<open>A pure step: it never panics and its errors report nothing published.\<close>

definition quiet :: "'a attempt_result \<Rightarrow> bool" where
  "quiet r \<longleftrightarrow> r \<noteq> Panicked \<and> (\<forall>er. r = Err er \<longrightarrow> \<not> entry_published er)"

lemma error_new_simps [simp]:
  "code (error_new c) = c" "entry_published (error_new c) = False"
  "entry_published (error_at c b f) = f" "code (error_at c b f) = c"
  by (simp_all add: error_new_def error_at_def)

lemma entry_published_io_before [simp]: "\<not> entry_published (io_before b)"
  by (simp add: io_before_def)

named_theorems quiets

lemma quiet_Ok [quiets]: "quiet (Ok x)" and quiet_fail [quiets]: "quiet (fail c)"
  by (simp_all add: quiet_def)

lemma quiet_r_bind [quiets]: "quiet r \<Longrightarrow> (\<And>x. quiet (f x)) \<Longrightarrow> quiet (r_bind r f)"
  by (cases r) (auto simp: quiet_def)

lemma quiet_r_map [quiets]: "quiet r \<Longrightarrow> quiet (r_map f r)"
  by (cases r) (auto simp: quiet_def)

lemma quiet_if [quiets]: "(c \<Longrightarrow> quiet x) \<Longrightarrow> (\<not> c \<Longrightarrow> quiet y) \<Longrightarrow> quiet (if c then x else y)"
  by simp

lemma quiet_binding_validate [quiets]: "quiet (binding_validate C b)"
  unfolding binding_validate_def by (intro quiets)

lemma quiet_evidence_validate [quiets]: "quiet (evidence_validate ev)"
  by (cases ev) (auto simp: quiet_def)

lemma quiet_canonical_bytes [quiets]: "quiet (canonical_bytes f C v)"
  unfolding canonical_bytes_def Let_def by (intro quiets)

lemma quiet_entry_validate [quiets]: "quiet (entry_validate C e)"
  unfolding entry_validate_def by (intro quiets) (auto intro: quiets split: option.split)

lemma quiet_entry_canonical_bytes [quiets]: "quiet (entry_canonical_bytes C e)"
  unfolding entry_canonical_bytes_def by (intro quiets)

lemma quiet_entry_digest [quiets]: "quiet (entry_digest C e)"
  unfolding entry_digest_def by (intro quiets)

lemma quiet_binding_digest_of [quiets]: "quiet (binding_digest_of C b)"
  unfolding binding_digest_of_def binding_canonical_bytes_def by (intro quiets)

lemma quiet_read_canonical [quiets]: "quiet (read_canonical C nd m d)"
  unfolding read_canonical_def
  by (auto intro!: quiets split: stat_outcome.split read_outcome.split option.split)

lemma quiet_read_canonical_entry [quiets]: "quiet (read_canonical_entry C J n)"
  unfolding read_canonical_entry_def by (intro quiets)

lemma quiet_read_entries [quiets]: "quiet (read_entries C J ns)"
proof (induction ns)
  case (Cons n ns)
  have "quiet (read_canonical_entry C J n)" by (rule quiets)
  with Cons show ?case
    by (cases "read_canonical_entry C J n"; cases "read_entries C J ns") (auto simp: quiet_def)
qed (simp add: quiets)

lemma quiet_check_links [quiets]: "quiet (check_links i prev es)"
  by (induction i prev es rule: check_links.induct) (auto intro!: quiets split: option.split)

lemma quiet_read_chain [quiets]: "quiet (read_chain C J)"
  unfolding read_chain_def by (intro quiets)

lemma fault_hit_published: "fault_hit p b f = (Some e, p') \<Longrightarrow> entry_published e = f"
  by (auto simp: fault_hit_def split: if_splits)

text \<open>What a write does to the directory: nothing, or one new complete file.\<close>

definition kept :: "io_env \<Rightarrow> journal \<Rightarrow> journal \<Rightarrow> bool" where
  "kept io J J' \<longleftrightarrow> entry_files J' = entry_files J \<and>
     (\<not> remove_fails io \<longrightarrow> temp_files J' = temp_files J)"

definition published_at :: "nat \<Rightarrow> bytes \<Rightarrow> journal \<Rightarrow> journal \<Rightarrow> bool" where
  "published_at n b J J' \<longleftrightarrow> read (entry_files J n) = ReadNotFound \<and>
     entry_files J' = (entry_files J)(n := file_node b) \<and> temp_files J' = temp_files J"

lemma kept_refl [simp]: "kept io J J"
  by (simp add: kept_def)

lemma durable_replace_cases:
  assumes "durable_replace io n b bd J p = (r, J', p')" "read (entry_files J n) = ReadNotFound"
  shows "(kept io J J' \<and> (\<exists>er. r = Err er \<and> \<not> entry_published er)) \<or>
    (published_at n b J J' \<and> (r = Ok () \<or> (\<exists>er. r = Err er \<and> entry_published er)))"
  using assms
  by (auto simp: durable_replace_def durable_replace_body_def kept_def published_at_def publish_def
      Let_def dest: fault_hit_published split: if_splits prod.splits option.splits)

lemma write_once_cases:
  assumes "write_once_entry C io n e bd J p = (r, J', p')"
  obtains (kept) er where "kept io J J'" "r = Err er" "\<not> entry_published er"
  | (present) b where "J' = J" "r = Ok ()" "entry_canonical_bytes C e = Ok b"
      "read (entry_files J n) = ReadOk b" "n \<le> attempt_journal_max_entries"
  | (published) b where "entry_canonical_bytes C e = Ok b" "published_at n b J J'"
      "n \<le> attempt_journal_max_entries" "r = Ok () \<or> (\<exists>er. r = Err er \<and> entry_published er)"
proof -
  have unpub: "quiet (entry_canonical_bytes C e)" by (rule quiets)
  show thesis
  proof (cases "n \<le> attempt_journal_max_entries \<and> (\<exists>b. entry_canonical_bytes C e = Ok b)")
    case False
    then show thesis
      using assms kept unpub
      by (cases "entry_canonical_bytes C e") (auto simp: write_once_entry_def quiet_def split: if_splits)
  next
    case True
    then obtain b where b: "n \<le> attempt_journal_max_entries" "entry_canonical_bytes C e = Ok b"
      by blast
    show thesis
    proof (cases "read (entry_files J n)")
      case (ReadOk ex)
      with assms b present kept show thesis
        by (auto simp: write_once_entry_def split: if_splits)
    next
      case ReadNotFound
      with assms b have "durable_replace io n b bd J p = (r, J', p')"
        by (simp add: write_once_entry_def)
      from durable_replace_cases [OF this ReadNotFound] b kept published show thesis by blast
    next
      case ReadFailed
      with assms b kept show thesis by (auto simp: write_once_entry_def)
    qed
  qed
qed


section \<open>Chains\<close>

definition link :: "canonical_read \<Rightarrow> canonical_read \<Rightarrow> bool" where
  "link a b \<longleftrightarrow> predecessor_entry_digest (read_value b) = Some (read_digest a) \<and>
     is_valid_transition (state (read_value a)) (state (read_value b))"

lemma check_links_iff:
  "check_links i prev es = Ok () \<longleftrightarrow>
    (\<forall>j < length es. sequence (read_value (es ! j)) = i + j + 1) \<and>
    successively link (case prev of None \<Rightarrow> es | Some p \<Rightarrow> p # es)"
proof (induction i prev es rule: check_links.induct)
  case (2 i prev e es)
  have shift: "(\<forall>j < length (e # es). sequence (read_value ((e # es) ! j)) = i + j + 1) \<longleftrightarrow>
      sequence (read_value e) = i + 1 \<and>
      (\<forall>j < length es. sequence (read_value (es ! j)) = (i + 1) + j + 1)"
    by (auto simp: less_Suc_eq_0_disj nth_Cons' split: if_splits)
  show ?case
  proof (cases prev)
    case None
    with 2 show ?thesis by (simp only: shift) (auto split: if_splits)
  next
    case (Some p)
    with 2 show ?thesis by (simp only: shift) (auto simp: link_def split: if_splits)
  qed
qed (auto split: option.split)

lemma read_entries_Ok:
  "read_entries C J ns = Ok es \<Longrightarrow> length es \<le> length ns \<and>
    (\<forall>i < length es. read_canonical_entry C J (ns ! i) = Ok (es ! i))"
proof (induction ns arbitrary: es)
  case (Cons n ns)
  show ?case
  proof (cases "read_canonical_entry C J n")
    case (Ok e)
    with Cons.prems obtain es' where es': "read_entries C J ns = Ok es'" "es = e # es'" by auto
    with Cons.IH [OF es'(1)] Ok show ?thesis by (auto simp: nth_Cons split: nat.split)
  qed (use Cons.prems in \<open>auto split: if_splits\<close>)
qed simp

lemma read_canonical_entry_Ok:
  assumes "read_canonical_entry C J n = Ok r"
  shows "\<exists>b. read (entry_files J n) = ReadOk b \<and> from_slice C b = Some (read_value r) \<and>
    entry_canonical_bytes C (read_value r) = Ok b \<and> entry_validate C (read_value r) = Ok () \<and>
    read_digest r = domain_digest C attempt_entry_domain b"
  using assms
  by (auto simp: read_canonical_entry_def read_canonical_def entry_digest_def
      entry_canonical_bytes_def split: stat_outcome.splits read_outcome.splits option.splits if_splits)

lemma entry_validate_structural: "entry_validate C e = Ok () \<Longrightarrow> entry_structural (state e) e"
  by (auto simp: entry_validate_def split: if_splits)

lemma structural_first: "entry_structural (state e) e \<Longrightarrow> sequence e = 1 \<Longrightarrow> state e = Prepared"
  by (cases "state e") auto

text \<open>The state sequences a chain can have.\<close>

definition state_paths :: "attempt_state list list" where
  "state_paths = [[], [Prepared], [Prepared, DispatchCrossed], [Prepared, Aborted],
     [Prepared, SafeToRetry], [Prepared, DispatchCrossed, Succeeded],
     [Prepared, DispatchCrossed, Failed], [Prepared, DispatchCrossed, Indeterminate]]"

lemma valid_transition_from:
  "is_valid_transition Prepared s \<longleftrightarrow> s \<in> {DispatchCrossed, Aborted, SafeToRetry}"
  "is_valid_transition DispatchCrossed s \<longleftrightarrow> s \<in> {Succeeded, Failed, Indeterminate}"
  "is_terminal a \<Longrightarrow> \<not> is_valid_transition a s"
  by (auto simp: is_valid_transition_def is_terminal_def)

lemma state_paths_transitions:
  assumes "successively is_valid_transition ss" "ss \<noteq> [] \<Longrightarrow> hd ss = Prepared"
  shows "ss \<in> set state_paths"
proof -
  consider "ss = []" | a where "ss = [a]" | a b where "ss = [a, b]" | a b c where "ss = [a, b, c]"
    | a b c d r where "ss = a # b # c # d # r"
    by (metis list.exhaust)
  then show ?thesis
    by cases (use assms in \<open>auto simp: state_paths_def is_valid_transition_def\<close>)
qed

lemma read_chain_Ok:
  assumes "read_chain C J = Ok chain"
  shows "\<forall>i < length chain. read_canonical_entry C J (i + 1) = Ok (chain ! i)"
    and "\<forall>i < length chain. sequence (read_value (chain ! i)) = i + 1"
    and "successively link chain"
    and "map (state \<circ> read_value) chain \<in> set state_paths"
    and "chain \<noteq> [] \<Longrightarrow> \<forall>n. length chain < n \<longrightarrow> n \<le> attempt_journal_max_entries \<longrightarrow>
      \<not> is_ok (read_canonical_entry C J n)"
proof -
  from assms have es: "read_entries C J [1..<attempt_journal_max_entries + 1] = Ok chain"
    and links: "chain \<noteq> [] \<Longrightarrow> check_links 0 None chain = Ok ()"
    and probe: "chain \<noteq> [] \<Longrightarrow> \<not> list_ex (\<lambda>n. is_ok (read_canonical_entry C J n))
        [length chain + 1..<attempt_journal_max_entries + 1]"
    by (auto simp: read_chain_def simp del: upt_Suc split: if_splits)
  from read_entries_Ok [OF es] show rd: "\<forall>i < length chain. read_canonical_entry C J (i + 1) = Ok (chain ! i)"
    by (auto simp del: upt_Suc)
  from links show sq: "\<forall>i < length chain. sequence (read_value (chain ! i)) = i + 1"
    by (cases "chain = []") (simp_all add: check_links_iff)
  from links show sl: "successively link chain"
    by (cases "chain = []") (simp_all add: check_links_iff)
  show "map (state \<circ> read_value) chain \<in> set state_paths"
  proof (rule state_paths_transitions)
    show "successively is_valid_transition (map (state \<circ> read_value) chain)"
      using sl by (auto simp: successively_map link_def elim: successively_mono)
    show "hd (map (state \<circ> read_value) chain) = Prepared" if "map (state \<circ> read_value) chain \<noteq> []"
    proof -
      from that have ne: "chain \<noteq> []" by simp
      then have "entry_validate C (read_value (chain ! 0)) = Ok ()" "sequence (read_value (chain ! 0)) = 1"
        using rd sq read_canonical_entry_Ok [of C J 1 "chain ! 0"] by auto
      then have "state (read_value (chain ! 0)) = Prepared"
        using entry_validate_structural structural_first by blast
      with ne show ?thesis by (simp add: hd_map hd_conv_nth)
    qed
  qed
  from probe show "chain \<noteq> [] \<Longrightarrow> \<forall>n. length chain < n \<longrightarrow> n \<le> attempt_journal_max_entries \<longrightarrow>
      \<not> is_ok (read_canonical_entry C J n)"
    by (auto simp: list_ex_iff simp del: upt_Suc)
qed

lemma length_state_paths: "ss \<in> set state_paths \<Longrightarrow> length ss \<le> 3"
  by (auto simp: state_paths_def)

lemma last_but_one_Ok:
  assumes "map st chain \<in> set state_paths" "chain \<noteq> []" "st (last chain) \<noteq> Prepared"
  shows "last_but_one chain = Ok (chain ! (length chain - 2))"
proof -
  have "\<not> length chain < 2"
  proof
    assume "length chain < 2"
    with assms(2) obtain x where "chain = [x]" by (cases chain) auto
    with assms(1,3) show False by (auto simp: state_paths_def)
  qed
  then show ?thesis by (simp add: last_but_one_def)
qed


section \<open>The shape of every call\<close>

text \<open>
  Every call either returns without touching the journal, or writes one entry that extends
  the chain it read and then returns a result determined by that entry.
\<close>

definition appends :: "canonical_read list \<Rightarrow> attempt_entry \<Rightarrow> bool" where
  "appends chain e \<longleftrightarrow> sequence e = length chain + 1 \<and>
     (if chain = [] then state e = Prepared
      else predecessor_entry_digest e = Some (read_digest (last chain)) \<and>
        binding e = binding (read_value (last chain)) \<and>
        is_valid_transition (state (read_value (last chain))) (state e))"

definition call_shape ::
    "attempt_codec \<Rightarrow> io_env \<Rightarrow> journal \<Rightarrow> attempt_fault_plan \<Rightarrow> canonical_read list \<Rightarrow>
     (attempt_entry \<Rightarrow> 'a attempt_result \<Rightarrow> bool) \<Rightarrow> 'a outcome_of_call \<Rightarrow> bool" where
  "call_shape C io J p chain ok w \<longleftrightarrow> (case w of (r, J', p') \<Rightarrow>
     (J' = J \<and> quiet r) \<or>
     (\<exists>e bd u x. appends chain e \<and> ok e x \<and> r = r_bind u (\<lambda>_. x) \<and>
       write_once_entry C io (length chain + 1) e bd J p = (u, J', p')))"

lemma shape_pure: "quiet r \<Longrightarrow> call_shape C io J p chain ok (r, J, p)"
  by (simp add: call_shape_def)

lemma shape_write:
  assumes "appends chain e" "ok e x" "n = length chain + 1"
  shows "call_shape C io J p chain ok (after_write (write_once_entry C io n e bd J p) x)"
proof -
  obtain u J' p' where w: "write_once_entry C io n e bd J p = (u, J', p')"
    by (cases "write_once_entry C io n e bd J p")
  with assms show ?thesis by (auto simp: call_shape_def after_write_def)
qed

lemma shape_question:
  assumes "quiet r" "\<And>x. r = Ok x \<Longrightarrow> call_shape C io J p chain ok (f x)"
  shows "call_shape C io J p chain ok (question r J p f)"
  using assms by (cases r) (auto simp: question_def shape_pure quiet_def)

lemma shape_if:
  assumes "c \<Longrightarrow> call_shape C io J p chain ok x" "\<not> c \<Longrightarrow> call_shape C io J p chain ok y"
  shows "call_shape C io J p chain ok (if c then x else y)"
  using assms by simp

lemmas shape_intros = shape_question shape_if shape_pure

text \<open>An entry-returning call returns the entry it wrote.\<close>

definition returns_entry :: "attempt_entry \<Rightarrow> attempt_entry attempt_result \<Rightarrow> bool" where
  "returns_entry e x \<longleftrightarrow> x = Ok e"

lemma shape_prepare:
  "read_chain C J = Ok chain \<Longrightarrow>
    call_shape C io J p chain (\<lambda>e x. returns_entry e x \<and> e = entry_prepared b 1)
      (prepare_attempt_with_fault C io b J p)"
  unfolding prepare_attempt_with_fault_def Let_def
  by (intro shape_intros quiets shape_write)
    (auto simp: appends_def returns_entry_def entry_prepared_def)

lemma shape_dispatch:
  "read_chain C J = Ok chain \<Longrightarrow>
    call_shape C io J p chain
      (\<lambda>e x. returns_entry e x \<and> d = read_digest (last chain) \<and>
        e = entry_dispatch_crossed (read_value (last chain)) d (length chain + 1) t)
      (mark_dispatch_crossed_with_fault C io d t J p)"
  unfolding mark_dispatch_crossed_with_fault_def Let_def
  by (intro shape_intros quiets shape_write)
    (auto simp: appends_def returns_entry_def entry_dispatch_crossed_def is_valid_transition_def)

lemma quiet_last_but_one:
  "map st chain \<in> set state_paths \<Longrightarrow> chain \<noteq> [] \<Longrightarrow> st (last chain) \<noteq> Prepared \<Longrightarrow>
    quiet (last_but_one chain)"
  by (simp add: last_but_one_Ok quiets)

definition terminal_request :: "attempt_state \<Rightarrow> attempt_evidence option \<Rightarrow> bool" where
  "terminal_request s ev \<longleftrightarrow> (s = Succeeded \<and> (\<exists>d t. ev = Some (Completion d t))) \<or>
     (s = Failed \<and> (\<exists>d t. ev = Some (Failure d t))) \<or> (s = Indeterminate \<and> ev = None)"

lemma terminal_entry_Ok:
  assumes "terminal_request s ev"
  obtains e where "terminal_entry dispatch d n s ev = Ok e" "binding e = binding dispatch"
    "state e = s" "sequence e = n" "predecessor_entry_digest e = Some d"
  using assms
  by (auto simp: terminal_request_def terminal_entry_def entry_succeeded_def entry_failed_def
      entry_indeterminate_def)

lemma quiet_terminal_entry: "terminal_request s ev \<Longrightarrow> quiet (terminal_entry e d n s ev)"
  by (metis quiet_Ok terminal_entry_Ok)

lemma shape_terminal:
  assumes chain: "read_chain C J = Ok chain" and req: "terminal_request s ev"
  shows "call_shape C io J p chain
    (\<lambda>e x. returns_entry e x \<and> d = read_digest (last chain) \<and>
      terminal_entry (read_value (last chain)) d (length chain + 1) s ev = Ok e)
    (mark_terminal_with_fault C io d s ev bd J p)"
proof -
  have s: "s \<in> {Succeeded, Failed, Indeterminate}" using req by (auto simp: terminal_request_def)
  have lbo: "quiet (last_but_one ch)"
    if "read_chain C J = Ok ch" "ch \<noteq> []" "state (read_value (last ch)) = s" for ch
    using that s read_chain_Ok(4) [OF that(1)]
    by (intro quiet_last_but_one [where st = "state \<circ> read_value"]) auto
  show ?thesis
    unfolding mark_terminal_with_fault_def Let_def
  proof (intro shape_question shape_if shape_pure quiets, goal_cases)
    case (1 ch)
    then show ?case by (rule lbo)
  next
    case (2 ch x)
    then show ?case using req by (simp add: quiet_terminal_entry)
  next
    case (3 ch)
    then show ?case using req by (simp add: quiet_terminal_entry)
  next
    case (4 ch e)
    with req chain s have "appends chain e"
      by (auto elim!: terminal_entry_Ok [of s ev "read_value (last ch)" "read_digest (last ch)"
            "length ch + 1"] simp: appends_def is_valid_transition_def)
    with 4 chain show ?case by (intro shape_write) (auto simp: returns_entry_def)
  qed
qed


lemma shape_abort:
  assumes chain: "read_chain C J = Ok chain"
  shows "call_shape C io J p chain
    (\<lambda>e x. returns_entry e x \<and> d = read_digest (last chain) \<and>
      e = entry_aborted (read_value (last chain)) d (length chain + 1) ExplicitAbort)
    (abort_attempt_with_fault C io d J p)"
proof -
  have lbo: "quiet (last_but_one ch)"
    if "read_chain C J = Ok ch" "ch \<noteq> []" "state (read_value (last ch)) = Aborted" for ch
    using that read_chain_Ok(4) [OF that(1)]
    by (intro quiet_last_but_one [where st = "state \<circ> read_value"]) auto
  show ?thesis
    unfolding abort_attempt_with_fault_def Let_def
    by (intro shape_intros quiets shape_write)
      (use chain lbo in \<open>auto simp: appends_def returns_entry_def entry_aborted_def
        is_valid_transition_def\<close>)
qed

lemma quiet_make_recovery_receipt [quiets]: "quiet (make_recovery_receipt C bd oc e)"
  unfolding make_recovery_receipt_def Let_def receipt_validate_def by (intro quiets)

definition returns_receipt ::
    "attempt_codec \<Rightarrow> attempt_binding \<Rightarrow> attempt_entry \<Rightarrow> attempt_recovery_receipt attempt_result \<Rightarrow> bool" where
  "returns_receipt C b e x \<longleftrightarrow> is_terminal (state e) \<and>
     (\<exists>bd oc. binding_digest_of C b = Ok bd \<and> receipt_paired oc (state e) \<and> x = make_recovery_receipt C bd oc e)"

lemma classify_dispatched_entry:
  assumes "classify_dispatched cur d n ev = (oc, e)"
  shows "binding e = binding cur \<and> sequence e = n \<and> predecessor_entry_digest e = Some d \<and>
    state e \<in> {Succeeded, Failed, Indeterminate} \<and> receipt_paired oc (state e)"
  using assms
  by (auto simp: receipt_paired_def classify_dispatched_def entry_succeeded_def entry_failed_def
      entry_indeterminate_def split: option.splits attempt_evidence.splits)

lemma already_outcome_None: "already_outcome s = None \<longleftrightarrow> s = Prepared \<or> s = DispatchCrossed"
  by (cases s) auto

lemma shape_recover_by_state:
  assumes ne: "chain \<noteq> []" and bd: "binding_digest_of C b = Ok bd"
  shows "call_shape C io J p chain (returns_receipt C b) (recover_by_state C io bd chain ev J p)"
proof (cases "already_outcome (state (read_value (last chain)))")
  case (Some oc)
  then show ?thesis by (simp add: recover_by_state_def Let_def shape_pure quiets)
next
  case None
  show ?thesis
  proof (cases "state (read_value (last chain)) = Prepared")
    case True
    with ne None show ?thesis
      unfolding recover_by_state_def Let_def option.case if_P [OF True] None
      by (intro shape_write) (auto simp: appends_def returns_receipt_def entry_safe_to_retry_def
          is_valid_transition_def is_terminal_def receipt_paired_def bd)
  next
    case False
    obtain oc e where c: "classify_dispatched (read_value (last chain)) (read_digest (last chain))
        (length chain + 1) ev = (oc, e)" by fastforce
    from False None have "state (read_value (last chain)) = DispatchCrossed"
      by (simp add: already_outcome_None)
    with classify_dispatched_entry [OF c] ne have "appends chain e" "returns_receipt C b e
        (make_recovery_receipt C bd oc e)"
      by (auto simp: appends_def is_valid_transition_def returns_receipt_def is_terminal_def bd)
    with None False c show ?thesis by (auto simp: recover_by_state_def Let_def intro: shape_write)
  qed
qed

lemma shape_recover:
  assumes chain: "read_chain C J = Ok chain"
  shows "call_shape C io J p chain (returns_receipt C b) (recover_attempt_with_fault C io b ev J p)"
  unfolding recover_attempt_with_fault_def
  by (intro shape_question shape_if shape_pure quiets)
    (use chain in \<open>auto intro!: shape_recover_by_state\<close>)

lemma shape_result:
  assumes "call_shape C io J p chain ok w"
    and "\<And>e x. ok e x \<Longrightarrow> ok' e (r_map f x)"
  shows "call_shape C io J p chain ok' (call_result f w)"
proof -
  obtain r J' p' where w: "w = (r, J', p')" by (cases w)
  have rm: "r_map f (r_bind u (\<lambda>_. x)) = r_bind u (\<lambda>_. r_map f x)" for u :: "unit attempt_result" and x
    by (cases u) auto
  from assms show ?thesis
    by (auto simp: w call_shape_def call_result_def rm intro: quiets)
qed

text \<open>The entry each call writes onto the chain it read.\<close>

primrec call_entry :: "attempt_call \<Rightarrow> canonical_read list \<Rightarrow> attempt_entry \<Rightarrow> bool" where
  "call_entry (Prepare b) chain e \<longleftrightarrow> e = entry_prepared b 1"
| "call_entry (MarkDispatchCrossed d t) chain e \<longleftrightarrow> d = read_digest (last chain) \<and>
     e = entry_dispatch_crossed (read_value (last chain)) d (length chain + 1) t"
| "call_entry (MarkSucceeded d r t) chain e \<longleftrightarrow> d = read_digest (last chain) \<and>
     terminal_entry (read_value (last chain)) d (length chain + 1) Succeeded
       (Some (Completion r t)) = Ok e"
| "call_entry (MarkFailed d r t) chain e \<longleftrightarrow> d = read_digest (last chain) \<and>
     terminal_entry (read_value (last chain)) d (length chain + 1) Failed
       (Some (Failure r t)) = Ok e"
| "call_entry (MarkIndeterminate d) chain e \<longleftrightarrow> d = read_digest (last chain) \<and>
     terminal_entry (read_value (last chain)) d (length chain + 1) Indeterminate None = Ok e"
| "call_entry (Abort d) chain e \<longleftrightarrow> d = read_digest (last chain) \<and>
     e = entry_aborted (read_value (last chain)) d (length chain + 1) ExplicitAbort"
| "call_entry (Recover b ev) chain e \<longleftrightarrow> is_terminal (state e)"

primrec is_recover :: "attempt_call \<Rightarrow> bool" where
  "is_recover (Prepare b) = False"
| "is_recover (MarkDispatchCrossed d t) = False"
| "is_recover (MarkSucceeded d r t) = False"
| "is_recover (MarkFailed d r t) = False"
| "is_recover (MarkIndeterminate d) = False"
| "is_recover (Abort d) = False"
| "is_recover (Recover b ev) = True"

definition call_writes ::
    "attempt_codec \<Rightarrow> attempt_call \<Rightarrow> canonical_read list \<Rightarrow> attempt_entry \<Rightarrow>
     call_value attempt_result \<Rightarrow> bool" where
  "call_writes C c chain e x \<longleftrightarrow> call_entry c chain e \<and>
     (if is_recover c
      then (\<exists>b ev y. c = Recover b ev \<and> returns_receipt C b e y \<and> x = r_map ReceiptValue y)
      else x = Ok (EntryValue e))"

lemma run_call_shape:
  assumes chain: "read_chain C J = Ok chain"
  shows "call_shape C io J p chain (call_writes C c chain) (run_call C io c J p)"
proof (cases c)
  case (Prepare b)
  from shape_prepare [OF chain] show ?thesis
    by (auto simp: Prepare call_writes_def returns_entry_def intro!: shape_result)
next
  case (MarkDispatchCrossed d t)
  from shape_dispatch [OF chain] show ?thesis
    by (auto simp: MarkDispatchCrossed call_writes_def returns_entry_def intro!: shape_result)
next
  case (MarkSucceeded d r t)
  have req: "terminal_request Succeeded (Some (Completion r t))" by (simp add: terminal_request_def)
  have "call_shape C io J p chain
      (\<lambda>e x. returns_entry e x \<and> d = read_digest (last chain) \<and>
        terminal_entry (read_value (last chain)) d (length chain + 1) Succeeded (Some (Completion r t)) = Ok e)
      (mark_succeeded_with_fault C io d r t J p)"
    unfolding mark_succeeded_with_fault_def
    by (intro shape_if shape_pure quiets shape_terminal [OF chain req])
  then show ?thesis
    by (auto simp: MarkSucceeded call_writes_def returns_entry_def intro!: shape_result)
next
  case (MarkFailed d r t)
  have req: "terminal_request Failed (Some (Failure r t))" by (simp add: terminal_request_def)
  have "call_shape C io J p chain
      (\<lambda>e x. returns_entry e x \<and> d = read_digest (last chain) \<and>
        terminal_entry (read_value (last chain)) d (length chain + 1) Failed (Some (Failure r t)) = Ok e)
      (mark_failed_with_fault C io d r t J p)"
    unfolding mark_failed_with_fault_def
    by (intro shape_if shape_pure quiets shape_terminal [OF chain req])
  then show ?thesis
    by (auto simp: MarkFailed call_writes_def returns_entry_def intro!: shape_result)
next
  case (MarkIndeterminate d)
  have req: "terminal_request Indeterminate None" by (simp add: terminal_request_def)
  from shape_terminal [OF chain req] show ?thesis
    by (auto simp: MarkIndeterminate mark_indeterminate_with_fault_def call_writes_def
        returns_entry_def intro!: shape_result)
next
  case (Abort d)
  from shape_abort [OF chain] show ?thesis
    by (auto simp: Abort call_writes_def returns_entry_def intro!: shape_result)
next
  case (Recover b ev)
  show ?thesis
    unfolding Recover run_call.simps
    by (rule shape_result [OF shape_recover [OF chain]])
      (auto simp: call_writes_def returns_receipt_def)
qed

lemma run_call_unreadable:
  assumes "\<And>chain. read_chain C J \<noteq> Ok chain" "run_call C io c J p = (r, J', p')"
  shows "J' = J \<and> quiet r \<and> (\<forall>x. r \<noteq> Ok x)"
proof -
  have bad: "quiet (read_chain C J)" by (rule quiets)
  have bv: "quiet (binding_validate C b)" for b by (rule quiets)
  obtain er where er: "read_chain C J = Err er" "\<not> entry_published er"
    using assms(1) bad by (cases "read_chain C J") (auto simp: quiet_def)
  have q: "question (binding_validate C b) J p (\<lambda>_. (Err er, J, p)) = (r1, J1, p1) \<Longrightarrow>
      J1 = J \<and> quiet r1 \<and> (\<forall>x. r1 \<noteq> Ok x)" for b r1 J1 p1
    using bv [of b] er(2) by (cases "binding_validate C b") (auto simp: question_def quiet_def)
  show ?thesis
    using assms(2) er bv q
    by (cases c) (auto simp: question_def prepare_attempt_with_fault_def quiet_def
        mark_dispatch_crossed_with_fault_def mark_succeeded_with_fault_def mark_failed_with_fault_def
        mark_indeterminate_with_fault_def mark_terminal_with_fault_def abort_attempt_with_fault_def
        recover_attempt_with_fault_def call_result_def split: if_splits result.splits)
qed


text \<open>A receipt is refused exactly when one of its two digests is the zero digest.\<close>

lemma make_receipt_eq:
  assumes "entry_canonical_bytes C e = Ok b" "receipt_paired oc (state e)" "is_terminal (state e)"
  shows "make_recovery_receipt C bd oc e =
    (if bd = zero_digest \<or> domain_digest C attempt_entry_domain b = zero_digest then fail InvalidBinding
     else Ok \<lparr>receipt_schema_version = 1, binding_digest = bd, outcome = oc,
      terminal_entry_digest = domain_digest C attempt_entry_domain b, terminal_state = state e\<rparr>)"
  using assms by (simp add: make_recovery_receipt_def entry_digest_def receipt_validate_def)

lemma call_writes_outcome:
  assumes "call_writes C c chain e x" "entry_canonical_bytes C e = Ok b"
  obtains v where "x = Ok v"
  | b' ev where "c = Recover b' ev" "x = fail InvalidBinding"
      "binding_digest_of C b' = Ok zero_digest \<or> entry_digest C e = Ok zero_digest"
proof (cases "is_recover c")
  case True
  with assms(1) obtain b' ev bd oc where "c = Recover b' ev" "binding_digest_of C b' = Ok bd"
    "receipt_paired oc (state e)" "is_terminal (state e)"
    "x = r_map ReceiptValue (make_recovery_receipt C bd oc e)"
    by (auto simp: call_writes_def returns_receipt_def)
  with that assms(2) make_receipt_eq [OF assms(2), of oc bd] show thesis
    by (auto simp: entry_digest_def split: if_splits)
qed (use assms that in \<open>auto simp: call_writes_def\<close>)

lemma call_writes_quiet: "call_writes C c chain e x \<Longrightarrow> quiet x"
  by (auto simp: call_writes_def returns_receipt_def quiets split: if_splits)

definition genuine :: "attempt_codec \<Rightarrow> canonical_read \<Rightarrow> bool" where
  "genuine C r \<longleftrightarrow> (\<exists>b. entry_canonical_bytes C (read_value r) = Ok b \<and>
     from_slice C b = Some (read_value r) \<and> read_digest r = domain_digest C attempt_entry_domain b)"

lemma genuine_inject:
  assumes "genuine C r" "genuine C r'" "read_digest r = read_digest r'"
    and "inj_on (domain_digest C attempt_entry_domain)
      {b. entry_canonical_bytes C (read_value r) = Ok b \<or> entry_canonical_bytes C (read_value r') = Ok b}"
  shows "r = r'"
proof -
  obtain b b' where b: "entry_canonical_bytes C (read_value r) = Ok b" "from_slice C b = Some (read_value r)"
      "read_digest r = domain_digest C attempt_entry_domain b"
    and b': "entry_canonical_bytes C (read_value r') = Ok b'" "from_slice C b' = Some (read_value r')"
      "read_digest r' = domain_digest C attempt_entry_domain b'"
    using assms(1,2) by (auto simp: genuine_def)
  have "b = b'" using inj_onD [OF assms(4), of b b'] assms(3) b b' by auto
  with b b' assms(3) show ?thesis by (auto intro: canonical_read.equality)
qed

lemma linked_chains_equal:
  assumes "xs \<noteq> []" "length xs = length ys" "successively link xs" "successively link ys"
    and "\<forall>r \<in> set xs. genuine C r" "\<forall>r \<in> set ys. genuine C r"
    and "read_digest (last xs) = read_digest (last ys)"
    and "inj_on (domain_digest C attempt_entry_domain)
      {b. \<exists>r \<in> set xs \<union> set ys. entry_canonical_bytes C (read_value r) = Ok b}"
  shows "xs = ys"
  using assms
proof (induction xs arbitrary: ys rule: rev_nonempty_induct)
  case (single x)
  then obtain y where ys: "ys = [y]" by (cases ys) auto
  with single.prems show ?case by (auto intro!: genuine_inject [of C x y] intro: inj_on_subset)
next
  case (snoc x xs)
  from snoc.prems(1) snoc.hyps obtain ys' y where ys: "ys = ys' @ [y]" "ys' \<noteq> []"
    by (cases ys rule: rev_exhaust) (auto, metis length_0_conv)
  have xy: "x = y"
    using snoc.prems ys by (intro genuine_inject [of C x y]) (auto intro: inj_on_subset)
  have "link (last xs) x" "link (last ys') y"
    using snoc.prems(2,3) snoc.hyps ys by (auto simp: successively_append_iff)
  with xy have "read_digest (last xs) = read_digest (last ys')" by (auto simp: link_def)
  with snoc.prems ys have "xs = ys'"
    by (intro snoc.IH) (auto simp: successively_append_iff intro: inj_on_subset)
  with xy ys show ?case by simp
qed

end
