(* ===== verification/Attempt_Journal_Runs.thy ===== *)
theory Attempt_Journal_Runs
  imports Attempt_Journal_Correct
begin

text \<open>
  The journals the API builds from an empty directory, by rule induction over runs whose
  calls have arbitrary arguments, failing I/O steps and injected crashes. The decoder is
  third-party code; what the journal relies on is that it inverts the canonical encoding of
  entries (\<open>codec_ok\<close>), which is shown satisfiable below.
\<close>

section \<open>Stored chains\<close>

definition entry_text :: "attempt_codec \<Rightarrow> attempt_entry \<Rightarrow> bytes" where
  "entry_text C e = str_bytes (canonical_json (json_string C) (entry_value e))"

definition codec_ok :: "attempt_codec \<Rightarrow> bool" where
  "codec_ok C \<longleftrightarrow> (\<forall>e. from_slice C (entry_text C e) = Some e)"

definition reading :: "attempt_codec \<Rightarrow> attempt_entry \<Rightarrow> canonical_read" where
  "reading C e = \<lparr>read_value = e, read_digest = domain_digest C attempt_entry_domain (entry_text C e)\<rparr>"

definition stored :: "attempt_codec \<Rightarrow> journal \<Rightarrow> attempt_entry list \<Rightarrow> bool" where
  "stored C J es \<longleftrightarrow> (\<forall>n. entry_files J n =
     (if 1 \<le> n \<and> n \<le> length es then file_node (entry_text C (es ! (n - 1))) else missing_node))"

definition chain_ok :: "attempt_codec \<Rightarrow> attempt_entry list \<Rightarrow> bool" where
  "chain_ok C es \<longleftrightarrow>
     (\<forall>e \<in> set es. entry_canonical_bytes C e = Ok (entry_text C e)) \<and>
     (\<exists>b. \<forall>e \<in> set es. binding e = b) \<and>
     (\<forall>i < length es. sequence (es ! i) = i + 1) \<and>
     successively link (map (reading C) es) \<and> (es \<noteq> [] \<longrightarrow> state (hd es) = Prepared)"

lemma reading_simps [simp]:
  "read_value (reading C e) = e"
  "read_digest (reading C e) = domain_digest C attempt_entry_domain (entry_text C e)"
  by (simp_all add: reading_def)

lemma entry_canonical_bytes_text: "entry_canonical_bytes C e = Ok b \<Longrightarrow> b = entry_text C e"
  by (auto simp: entry_canonical_bytes_def canonical_bytes_def entry_text_def Let_def split: if_splits)

lemma chain_ok_Nil [simp]: "chain_ok C []"
  by (simp add: chain_ok_def)

lemma stored_empty: "stored C empty_journal []"
  by (simp add: stored_def empty_journal_def)

lemma chain_ok_states: "chain_ok C es \<Longrightarrow> map state es \<in> set state_paths"
  by (rule state_paths_transitions)
    (auto simp: chain_ok_def successively_map link_def hd_map elim: successively_mono)

lemma read_stored_entry:
  assumes "codec_ok C" "stored C J es" "entry_canonical_bytes C (es ! (n - 1)) = Ok (entry_text C (es ! (n - 1)))"
    and "1 \<le> n" "n \<le> length es"
  shows "read_canonical_entry C J n = Ok (reading C (es ! (n - 1)))"
proof -
  let ?e = "es ! (n - 1)"
  have v: "entry_validate C ?e = Ok ()" and c: "canonical_bytes entry_value C ?e = Ok (entry_text C ?e)"
    using assms(3) by (auto simp: entry_canonical_bytes_def)
  then have len: "\<not> attempt_journal_max_record_bytes < length (entry_text C ?e)"
    by (auto simp: canonical_bytes_def entry_text_def Let_def split: if_splits)
  have "entry_files J n = file_node (entry_text C ?e)" using assms(2,4,5) by (simp add: stored_def)
  with v c len assms(1,3) show ?thesis
    by (simp add: read_canonical_entry_def read_canonical_def file_node_def codec_ok_def
        entry_digest_def reading_def)
qed

lemma read_missing_entry:
  assumes "stored C J es" "length es < n"
  shows "read_canonical_entry C J n = fail EntryMissing"
proof -
  have "entry_files J n = missing_node" using assms by (simp add: stored_def)
  then show ?thesis by (simp add: read_canonical_entry_def read_canonical_def missing_node_def)
qed

lemma read_stored_entries:
  assumes "codec_ok C" "stored C J es" "\<forall>e \<in> set es. entry_canonical_bytes C e = Ok (entry_text C e)"
  shows "\<lbrakk>k \<le> length es; length es \<le> N\<rbrakk> \<Longrightarrow>
    read_entries C J [Suc k..<Suc N] = Ok (map (reading C) (drop k es))"
proof (induction "N - k" arbitrary: k)
  case 0
  then show ?case by simp
next
  case (Suc x)
  then have upt: "[Suc k..<Suc N] = Suc k # [Suc (Suc k)..<Suc N]" by (simp add: upt_conv_Cons del: upt_Suc)
  show ?case
  proof (cases "k < length es")
    case True
    then have "read_canonical_entry C J (Suc k) = Ok (reading C (es ! k))"
      using read_stored_entry [OF assms(1,2), of "Suc k"] assms(3) by simp
    moreover have "read_entries C J [Suc (Suc k)..<Suc N] = Ok (map (reading C) (drop (Suc k) es))"
      using Suc True by (intro Suc.hyps(1)) auto
    ultimately show ?thesis
      using True by (simp add: upt Cons_nth_drop_Suc [symmetric] del: upt_Suc)
  next
    case False
    then have "read_canonical_entry C J (Suc k) = fail EntryMissing" "drop k es = []"
      using read_missing_entry [OF assms(2), of "Suc k"] by auto
    then show ?thesis by (simp add: upt del: upt_Suc)
  qed
qed

lemma read_stored_chain:
  assumes "codec_ok C" "chain_ok C es" "stored C J es"
  shows "read_chain C J = Ok (map (reading C) es)"
proof -
  have len: "length es \<le> 3"
    using length_state_paths [OF chain_ok_states [OF assms(2)]] by simp
  have "read_entries C J [Suc 0..<Suc 8] = Ok (map (reading C) (drop 0 es))"
    using len assms by (intro read_stored_entries) (auto simp: chain_ok_def)
  moreover have "check_links 0 None (map (reading C) es) = Ok ()"
    using assms(2) by (simp add: check_links_iff chain_ok_def)
  moreover have "\<not> list_ex (\<lambda>n. is_ok (read_canonical_entry C J n)) [Suc (length es)..<Suc 8]"
    using read_missing_entry [OF assms(3)] by (auto simp: list_ex_iff simp del: upt_Suc)
  ultimately show ?thesis
    by (simp add: read_chain_def attempt_journal_max_entries_def del: upt_Suc)
qed

section \<open>Steps\<close>

lemma chain_ok_append:
  assumes "chain_ok C es" "appends (map (reading C) es) e" "entry_canonical_bytes C e = Ok b"
  shows "chain_ok C (es @ [e])"
proof (cases "es = []")
  case True
  with assms show ?thesis
    by (auto simp: chain_ok_def appends_def dest: entry_canonical_bytes_text)
next
  case False
  with assms(2) have e: "sequence e = length es + 1" "binding e = binding (last es)"
      "link (last (map (reading C) es)) (reading C e)"
    by (simp_all add: appends_def link_def last_map)
  from assms(1) obtain b0 where "\<forall>e \<in> set es. binding e = b0" by (auto simp: chain_ok_def)
  with False e(2) have bind: "\<exists>b. \<forall>e' \<in> set (es @ [e]). binding e' = b" by auto
  have et: "entry_canonical_bytes C e = Ok (entry_text C e)"
    using assms(3) entry_canonical_bytes_text by blast
  have "successively link (map (reading C) es @ [reading C e])"
    using assms(1) e(3) by (subst successively_append_iff) (simp add: chain_ok_def)
  moreover have "\<forall>i < length (es @ [e]). sequence ((es @ [e]) ! i) = i + 1"
    using assms(1) e(1) by (auto simp: chain_ok_def nth_append less_Suc_eq)
  ultimately show ?thesis
    using assms(1) False bind et by (simp add: chain_ok_def)
qed

lemma stored_append:
  assumes "stored C J es" "published_at (length es + 1) (entry_text C e) J J'"
  shows "stored C J' (es @ [e])"
  using assms by (auto simp: stored_def published_at_def nth_append)

lemma stored_kept: "stored C J es \<Longrightarrow> entry_files J' = entry_files J \<Longrightarrow> stored C J' es"
  by (simp add: stored_def)

lemma run_call_step:
  assumes ok: "codec_ok C" "chain_ok C es" "stored C J es" and run: "run_call C io c J p = (r, J', p')"
  obtains (kept) "entry_files J' = entry_files J" "quiet r"
  | (added) e x where "chain_ok C (es @ [e])" "stored C J' (es @ [e])" "call_writes C c (map (reading C) es) e x"
      "appends (map (reading C) es) e" "r = x \<or> (\<exists>er. r = Err er \<and> entry_published er)"
proof -
  note chain = read_stored_chain [OF ok]
  from run_call_shape [OF chain, of io p c] run
  consider "J' = J" "quiet r"
    | e bd u x where "appends (map (reading C) es) e" "call_writes C c (map (reading C) es) e x" "r = r_bind u (\<lambda>_. x)"
        "write_once_entry C io (length es + 1) e bd J p = (u, J', p')"
    by (auto simp: call_shape_def)
  then show thesis
  proof cases
    case 1
    with kept show thesis by simp
  next
    case 2
    from 2(4) show thesis
    proof (cases rule: write_once_cases)
      case (kept er)
      with 2(3) that(1) show thesis by (simp add: kept_def quiet_def)
    next
      case (present b)
      with ok(3) show thesis by (simp add: stored_def missing_node_def)
    next
      case (published b)
      then have b: "b = entry_text C e" by (simp add: entry_canonical_bytes_text)
      have "chain_ok C (es @ [e])" using chain_ok_append [OF ok(2) 2(1) published(1)] .
      moreover have "stored C J' (es @ [e])"
        using stored_append [OF ok(3)] published(2) b by simp
      moreover have "r = x \<or> (\<exists>er. r = Err er \<and> entry_published er)"
        using 2(3) published(4) by auto
      ultimately show thesis using 2(1,2) that(2) by blast
    qed
  qed
qed

lemma journal_steps_prefix:
  assumes "codec_ok C" "journal_steps C J J'" "chain_ok C es" "stored C J es"
  shows "\<exists>es'. chain_ok C (es @ es') \<and> stored C J' (es @ es')"
  using assms(2)
proof (induction rule: rtranclp_induct)
  case base
  with assms(3,4) show ?case by (intro exI [of _ "[]"]) simp
next
  case (step K K')
  then obtain es' where es': "chain_ok C (es @ es')" "stored C K (es @ es')" by blast
  from step.hyps(2) obtain io c p r p' where "run_call C io c K p = (r, K', p')"
    by (blast elim: journal_stepE)
  with assms(1) es' show ?case
  proof (cases rule: run_call_step)
    case kept
    with es' stored_kept show ?thesis by blast
  next
    case (added e x)
    then show ?thesis by (intro exI [of _ "es' @ [e]"]) simp
  qed
qed

lemma journal_reachable:
  assumes "codec_ok C" "journal_steps C empty_journal J"
  obtains es where "chain_ok C es" "stored C J es" "read_chain C J = Ok (map (reading C) es)"
proof -
  from journal_steps_prefix [OF assms chain_ok_Nil stored_empty]
  obtain es where "chain_ok C es" "stored C J es" by auto
  with that read_stored_chain [OF assms(1)] show thesis by blast
qed


section \<open>A codec that meets the contract\<close>

text \<open>
  The canonical encoding of entries is injective, so a decoder that inverts it exists: the
  contract \<open>codec_ok\<close> can be met. The instance hashes everything to one nonzero digest.
\<close>

lemma char_byte_inject: "(word_of_nat (of_char c) :: byte) = word_of_nat (of_char d) \<longleftrightarrow> c = d"
proof
  have byte: "unat (word_of_nat (of_char e) :: byte) = of_char e" for e
  proof -
    have "(of_char e :: nat) \<in> range of_char" by simp
    then have "(of_char e :: nat) < 256" by (simp add: range_nat_of_char)
    then show ?thesis by (simp add: unat_of_nat)
  qed
  assume "(word_of_nat (of_char c) :: byte) = word_of_nat (of_char d)"
  from arg_cong [OF this, of unat] show "c = d" by (simp add: byte)
qed simp

lemma str_bytes_inject: "str_bytes s = str_bytes t \<longleftrightarrow> s = t"
proof
  show "str_bytes s = str_bytes t \<Longrightarrow> s = t"
    unfolding str_bytes_def
    by (rule map_injective [of "\<lambda>c. word_of_nat (of_char c) :: byte"])
      (auto simp: inj_def char_byte_inject)
qed simp

lemma digest_value_inject: "digest_value a = digest_value b \<longleftrightarrow> a = b"
  by (simp add: digest_value_def digest_to_hex_def concat_hex_inj)

lemma option_value_inject:
  assumes "\<And>a b. f a = f b \<longleftrightarrow> a = b" "\<And>a. f a \<noteq> JNull"
  shows "option_value f x = option_value f y \<longleftrightarrow> x = y"
  using assms by (cases x; cases y) (simp_all add: option_value_def, metis)

lemma attempt_state_as_str_inject: "attempt_state_as_str s = attempt_state_as_str s' \<longleftrightarrow> s = s'"
  by (cases s; cases s'; simp)

lemma durable_profile_id_as_str_inject:
  "durable_profile_id_as_str i = durable_profile_id_as_str i' \<longleftrightarrow> i = i'"
  by (cases i; cases i'; simp)

lemma effect_class_value_inject: "effect_class_value k = effect_class_value k' \<longleftrightarrow> k = k'"
  by (cases k; cases k'; simp)

lemma abort_reason_value_inject: "abort_reason_value r = abort_reason_value r' \<longleftrightarrow> r = r'"
  by (cases r; cases r'; simp)

lemmas names_inject = attempt_state_as_str_inject durable_profile_id_as_str_inject
  effect_class_value_inject abort_reason_value_inject

lemma binding_value_inject: "binding_value b = binding_value b' \<longleftrightarrow> b = b'"
  by (auto simp: binding_value_def digest_value_inject names_inject nat_value_def
      intro!: attempt_binding.equality)

lemma evidence_value_inject: "evidence_value v = evidence_value v' \<longleftrightarrow> v = v'"
  by (cases v; cases v') (auto simp: digest_value_inject nat_value_def)

lemma entry_value_inject: "entry_value e = entry_value e' \<longleftrightarrow> e = e'"
proof
  have n: "option_value nat_value x = option_value nat_value y \<longleftrightarrow> x = y" for x y
    by (rule option_value_inject) (simp_all add: nat_value_def)
  have d: "option_value digest_value x = option_value digest_value y \<longleftrightarrow> x = y" for x y
    by (rule option_value_inject) (simp_all add: digest_value_inject, simp add: digest_value_def)
  have v: "option_value evidence_value x = option_value evidence_value y \<longleftrightarrow> x = y" for x y
    by (rule option_value_inject) (auto simp: evidence_value_inject, metis evidence_value.simps
        attempt_evidence.exhaust json.distinct(9))
  have r: "option_value abort_reason_value x = option_value abort_reason_value y \<longleftrightarrow> x = y" for x y
    by (rule option_value_inject) (auto simp: names_inject, metis abort_reason_value.simps
        attempt_abort_reason.exhaust json.distinct(5))
  assume "entry_value e = entry_value e'"
  then show "e = e'"
    by (intro attempt_entry.equality)
      (simp_all add: entry_value_def binding_value_inject names_inject n d v r nat_value_def)
qed simp

lemma json_ok_leaf [simp]: "json_ok (nat_value n)" "json_ok (digest_value d)"
  by (simp_all add: nat_value_def digest_value_def)

lemma json_ok_enum [simp]: "json_ok (effect_class_value k)" "json_ok (abort_reason_value r)"
  by (cases k; simp) (cases r; simp)

lemma json_ok_evidence_value [simp]: "json_ok (evidence_value v)"
  by (cases v) (simp_all add: bt_ok_def)

lemma json_ok_option_value: "(\<And>a. json_ok (f a)) \<Longrightarrow> json_ok (option_value f x)"
  by (simp add: option_value_def split: option.split)

lemma json_ok_binding_value: "json_ok (binding_value b)"
  by (simp add: binding_value_def bt_ok_def)

lemma json_ok_entry_value: "json_ok (entry_value e)"
  by (simp add: entry_value_def bt_ok_def json_ok_option_value json_ok_binding_value)

definition plain_text :: "attempt_entry \<Rightarrow> bytes" where
  "plain_text e = str_bytes (canonical_json json_quote (entry_value e))"

definition plain_codec :: attempt_codec where
  "plain_codec = \<lparr>sha256 = \<lambda>_. [1], json_string = json_quote,
     from_slice = \<lambda>b. if b \<in> range plain_text then Some (inv plain_text b) else None\<rparr>"

lemma inj_plain_text: "inj plain_text"
proof (rule injI)
  fix e e' assume "plain_text e = plain_text e'"
  then have "canonical_json json_quote (entry_value e) = canonical_json json_quote (entry_value e')"
    by (simp add: plain_text_def str_bytes_inject)
  with canonical_json_prefix_free [OF quote_ok_json_quote json_ok_entry_value json_ok_entry_value,
      of "[]" "[]"] show "e = e'"
    by (simp add: delimited_def entry_value_inject)
qed

lemma plain_codec_simps [simp]:
  "sha256 plain_codec x = [1]" "json_string plain_codec = json_quote"
  "entry_text plain_codec e = plain_text e"
  by (simp_all add: plain_codec_def entry_text_def plain_text_def)

lemma codec_ok_plain: "codec_ok plain_codec"
  unfolding codec_ok_def plain_codec_simps
  by (simp add: plain_codec_def inv_f_f [OF inj_plain_text])

text \<open>A binding that validates, and the entries of a run that prepares it and aborts.\<close>

definition sample_binding :: attempt_binding where
  "sample_binding = binding_new plain_codec [1] [2] ReadOnly [3] PortableStrict [4]"

definition sample_prepared :: attempt_entry where
  "sample_prepared = entry_prepared sample_binding 1"

definition sample_aborted :: attempt_entry where
  "sample_aborted = entry_aborted sample_prepared [1] 2 ExplicitAbort"

definition sample_crossed :: attempt_entry where
  "sample_crossed = entry_dispatch_crossed sample_prepared [1] 2 7"

definition quiet_io :: io_env where
  "quiet_io = \<lparr>failing = None, remove_fails = False\<rparr>"

lemma sample_binding_simps:
  "attempt_id sample_binding = [1]" "effect_digest sample_binding = [2]"
  "admission_anchor_digest sample_binding = [3]" "owner_identity_digest sample_binding = [4]"
  "durable_profile_digest sample_binding = [1]" "durable_profile_id sample_binding = PortableStrict"
  "effect_class sample_binding = ReadOnly" "binding_schema_version sample_binding = 1"
  by (simp_all add: sample_binding_def binding_new_def profile_digest_def)

lemma sample_binding_valid: "binding_validate plain_codec sample_binding = Ok ()"
  by (simp add: binding_validate_def sample_binding_simps zero_digest_def profile_digest_def
      numeral_eq_Suc)

lemma plain_text_length: "length (plain_text e) = length (canonical_json json_quote (entry_value e))"
  by (simp add: plain_text_def str_bytes_def)

lemmas sample_text_simps = canonical_json_object bt_ok_def join_Cons entry_value_def binding_value_def
  option_value_def digest_value_def digest_to_hex_def nat_value_def sample_binding_simps
  hex_byte_def hex_digit_def json_quote_def escape_char_def

lemma sample_lengths:
  "length (plain_text sample_prepared) \<le> attempt_journal_max_record_bytes"
  "length (plain_text sample_aborted) \<le> attempt_journal_max_record_bytes"
  "length (plain_text sample_crossed) \<le> attempt_journal_max_record_bytes"
proof -
  have n: "show_nat 1 = ''1''" "show_nat (Suc 0) = ''1''" "show_nat 2 = ''2''" "show_nat 7 = ''7''"
    by code_simp+
  show "length (plain_text sample_prepared) \<le> attempt_journal_max_record_bytes"
    "length (plain_text sample_aborted) \<le> attempt_journal_max_record_bytes"
    "length (plain_text sample_crossed) \<le> attempt_journal_max_record_bytes"
    by (simp_all add: plain_text_length sample_prepared_def entry_prepared_def sample_aborted_def
        entry_aborted_def sample_crossed_def entry_dispatch_crossed_def sample_text_simps n attempt_journal_max_record_bytes_def
        del: canonical_json.simps(6))
qed


lemma entry_canonical_bytes_iff:
  "entry_canonical_bytes C e = Ok (entry_text C e) \<longleftrightarrow>
    entry_validate C e = Ok () \<and> length (entry_text C e) \<le> attempt_journal_max_record_bytes"
  by (auto simp: entry_canonical_bytes_def canonical_bytes_def entry_text_def Let_def not_less
      split: if_splits)

lemma write_once_happy:
  assumes "entry_canonical_bytes C e = Ok b" "read (entry_files J n) = ReadNotFound"
    and "n \<le> attempt_journal_max_entries" "failing io = None"
  shows "write_once_entry C io n e bd J fault_none = (Ok (), publish n b J, fault_none)"
proof -
  have "\<not> attempt_journal_max_record_bytes < length b"
    using assms(1) by (auto simp: entry_canonical_bytes_def canonical_bytes_def Let_def split: if_splits)
  with assms show ?thesis
    by (simp add: write_once_entry_def durable_replace_def durable_replace_body_def fault_hit_def
        fault_none_def publish_def Let_def)
qed

lemma published_at_publish: "read (entry_files J n) = ReadNotFound \<Longrightarrow> published_at n b J (publish n b J)"
  by (simp add: published_at_def publish_def)

lemma sample_valid:
  "entry_canonical_bytes plain_codec sample_prepared = Ok (plain_text sample_prepared)"
  "entry_canonical_bytes plain_codec sample_aborted = Ok (plain_text sample_aborted)"
  "entry_canonical_bytes plain_codec sample_crossed = Ok (plain_text sample_crossed)"
  using sample_lengths sample_binding_valid entry_canonical_bytes_iff [of plain_codec]
  by (simp_all add: entry_validate_def sample_prepared_def entry_prepared_def sample_aborted_def
      entry_aborted_def sample_crossed_def entry_dispatch_crossed_def entry_paired_def)

definition sample_journal :: journal where
  "sample_journal = publish 1 (plain_text sample_prepared) empty_journal"

definition sample_journal_aborted :: journal where
  "sample_journal_aborted = publish 2 (plain_text sample_aborted) sample_journal"

lemma sample_chain_prepared: "chain_ok plain_codec [sample_prepared]"
  using chain_ok_append [OF chain_ok_Nil, of plain_codec sample_prepared] sample_valid(1)
  by (simp add: appends_def sample_prepared_def entry_prepared_def)

lemma sample_stored_prepared: "stored plain_codec sample_journal [sample_prepared]"
  by (auto simp: stored_def sample_journal_def publish_def empty_journal_def)

lemma sample_read: "read_chain plain_codec sample_journal = Ok [reading plain_codec sample_prepared]"
  using read_stored_chain [OF codec_ok_plain sample_chain_prepared sample_stored_prepared] by simp

lemma sample_prepare:
  "run_call plain_codec quiet_io (Prepare sample_binding) empty_journal fault_none =
    (Ok (EntryValue sample_prepared), sample_journal, fault_none)"
proof -
  have "read_chain plain_codec empty_journal = Ok []"
    using read_stored_chain [OF codec_ok_plain chain_ok_Nil stored_empty] by simp
  moreover have "write_once_entry plain_codec quiet_io 1 sample_prepared bd empty_journal fault_none =
      (Ok (), sample_journal, fault_none)" for bd
    unfolding sample_journal_def
    by (rule write_once_happy) (simp_all add: sample_valid empty_journal_def missing_node_def
        quiet_io_def attempt_journal_max_entries_def)
  ultimately show ?thesis
    by (simp add: prepare_attempt_with_fault_def question_def sample_binding_valid after_write_def
        call_result_def sample_prepared_def)
qed

lemma sample_digest: "read_digest (reading plain_codec e) = [1]"
  by (simp add: domain_digest_def)

lemma sample_abort:
  "run_call plain_codec quiet_io (Abort [1]) sample_journal fault_none =
    (Ok (EntryValue sample_aborted), sample_journal_aborted, fault_none)"
proof -
  have "write_once_entry plain_codec quiet_io 2 sample_aborted bd sample_journal fault_none =
      (Ok (), sample_journal_aborted, fault_none)" for bd
    unfolding sample_journal_aborted_def
    by (rule write_once_happy) (simp_all add: sample_valid sample_journal_def publish_def
        empty_journal_def missing_node_def quiet_io_def attempt_journal_max_entries_def)
  moreover have "state sample_prepared = Prepared" by (simp add: sample_prepared_def entry_prepared_def)
  ultimately show ?thesis
    by (simp add: abort_attempt_with_fault_def question_def sample_read after_write_def
        call_result_def sample_aborted_def domain_digest_def numeral_2_eq_2)
qed

definition sample_journal_crossed :: journal where
  "sample_journal_crossed = publish 2 (plain_text sample_crossed) sample_journal"

lemma sample_dispatch:
  "run_call plain_codec quiet_io (MarkDispatchCrossed [1] 7) sample_journal fault_none =
    (Ok (EntryValue sample_crossed), sample_journal_crossed, fault_none)"
proof -
  have "write_once_entry plain_codec quiet_io 2 sample_crossed bd sample_journal fault_none =
      (Ok (), sample_journal_crossed, fault_none)" for bd
    unfolding sample_journal_crossed_def
    by (rule write_once_happy) (simp_all add: sample_valid sample_journal_def publish_def
        empty_journal_def missing_node_def quiet_io_def attempt_journal_max_entries_def)
  moreover have "state sample_prepared = Prepared" by (simp add: sample_prepared_def entry_prepared_def)
  ultimately show ?thesis
    by (simp add: mark_dispatch_crossed_with_fault_def question_def sample_read after_write_def
        call_result_def sample_crossed_def domain_digest_def numeral_2_eq_2)
qed

lemma sample_read_crossed:
  "read_chain plain_codec sample_journal_crossed =
    Ok [reading plain_codec sample_prepared, reading plain_codec sample_crossed]"
proof -
  have "chain_ok plain_codec ([sample_prepared] @ [sample_crossed])"
    by (rule chain_ok_append [OF sample_chain_prepared _ sample_valid(3)])
      (simp add: appends_def sample_crossed_def entry_dispatch_crossed_def sample_prepared_def
        entry_prepared_def domain_digest_def is_valid_transition_def)
  moreover have "stored plain_codec sample_journal_crossed ([sample_prepared] @ [sample_crossed])"
    by (rule stored_append [OF sample_stored_prepared])
      (simp add: sample_journal_crossed_def published_at_def publish_def sample_journal_def
        empty_journal_def missing_node_def numeral_2_eq_2)
  ultimately show ?thesis using read_stored_chain [OF codec_ok_plain] by fastforce
qed

lemma sample_steps:
  "journal_steps plain_codec empty_journal sample_journal"
  "journal_steps plain_codec sample_journal sample_journal_aborted"
  using journal_step [OF sample_prepare] journal_step [OF sample_abort] by blast+


section \<open>Properties of arbitrary directories\<close>

text \<open>
  C2: every call is all-or-nothing, whatever the directory holds, whichever I/O step fails and
  wherever a crash is injected. It never panics. It leaves every entry as it was, or adds
  exactly one complete canonical entry at a position that had no file. A returned error says
  that an entry was published exactly when one was, with one exception: a recovery that has
  published its entry refuses its own receipt, with an error that denies the publication, when
  the hash of the binding or of the entry is the zero digest. No temporary file is left behind
  unless its removal fails.
\<close>

theorem journal_call_atomic:
  assumes "run_call C io c J p = (r, J', p')"
  shows "r \<noteq> Panicked \<and> (\<not> remove_fails io \<longrightarrow> temp_files J' = temp_files J) \<and>
    (entry_files J' = entry_files J \<and> (\<forall>er. r = Err er \<longrightarrow> \<not> entry_published er) \<or>
     (\<exists>e b. entry_canonical_bytes C e = Ok b \<and>
        read (entry_files J (sequence e)) = ReadNotFound \<and>
        entry_files J' = (entry_files J)(sequence e := file_node b) \<and>
        (\<forall>er. r = Err er \<longrightarrow> entry_published er \<or>
           (\<exists>b' ev. c = Recover b' ev \<and> er = error_new InvalidBinding \<and>
              (binding_digest_of C b' = Ok zero_digest \<or> entry_digest C e = Ok zero_digest)))))"
proof (cases "\<exists>chain. read_chain C J = Ok chain")
  case False
  with run_call_unreadable [OF _ assms] show ?thesis by (auto simp: quiet_def)
next
  case True
  then obtain chain where chain: "read_chain C J = Ok chain" ..
  from run_call_shape [OF chain, of io p c] assms
  consider "J' = J" "quiet r"
    | e bd u x where "appends chain e" "call_writes C c chain e x" "r = r_bind u (\<lambda>_. x)"
        "write_once_entry C io (length chain + 1) e bd J p = (u, J', p')"
    by (auto simp: call_shape_def)
  then show ?thesis
  proof cases
    case 1
    then show ?thesis by (auto simp: quiet_def)
  next
    case 2
    have seq: "length chain + 1 = sequence e" using 2(1) by (simp add: appends_def)
    from 2(4) show ?thesis
    proof (cases rule: write_once_cases)
      case (kept er)
      with 2(3) show ?thesis by (auto simp: kept_def)
    next
      case (present b)
      with 2(2,3) call_writes_quiet [OF 2(2)] show ?thesis by (auto simp: quiet_def)
    next
      case (published b)
      have x: "x \<noteq> Panicked" "\<forall>er. x = Err er \<longrightarrow>
          (\<exists>b' ev. c = Recover b' ev \<and> er = error_new InvalidBinding \<and>
             (binding_digest_of C b' = Ok zero_digest \<or> entry_digest C e = Ok zero_digest))"
        using call_writes_outcome [OF 2(2) published(1)] by (auto, blast+)
      from published(2) seq have "read (entry_files J (sequence e)) = ReadNotFound"
        "entry_files J' = (entry_files J)(sequence e := file_node b)" "temp_files J' = temp_files J"
        by (simp_all add: published_at_def)
      moreover have "r \<noteq> Panicked" "\<forall>er. r = Err er \<longrightarrow> entry_published er \<or> x = Err er"
        using published(4) 2(3) x(1) by auto
      ultimately show ?thesis using published(1) x(2) by blast
    qed
  qed
qed

theorem journal_call_atomic_witness:
  "\<exists>e b. entry_canonical_bytes plain_codec e = Ok b \<and>
    read (entry_files empty_journal (sequence e)) = ReadNotFound \<and>
    entry_files sample_journal = (entry_files empty_journal)(sequence e := file_node b)"
proof -
  have "entry_files sample_journal \<noteq> entry_files empty_journal"
    by (auto simp: sample_journal_def publish_def empty_journal_def file_node_def missing_node_def
        fun_eq_iff)
  then show ?thesis using journal_call_atomic [OF sample_prepare] by auto
qed

text \<open>
  C6: the digest of the last entry commits to the whole history. If two directories both
  read as chains and their last entries have the same digest, then the chains are equal
  entry by entry, unless the hash collides on one of the hashed records.
\<close>

theorem chain_digest_commits:
  assumes "read_chain C J = Ok chain" "read_chain C J' = Ok chain'"
    and "chain \<noteq> []" "chain' \<noteq> []" "read_digest (last chain) = read_digest (last chain')"
    and "inj_on (domain_digest C attempt_entry_domain)
      {b. \<exists>r \<in> set chain \<union> set chain'. entry_canonical_bytes C (read_value r) = Ok b}"
  shows "chain = chain'"
proof -
  have gen: "\<forall>r \<in> set ch. genuine C r" if "read_chain C K = Ok ch" for K ch
    using read_chain_Ok(1) [OF that] read_canonical_entry_Ok
    by (fastforce simp: genuine_def in_set_conv_nth)
  let ?r = "last chain" and ?r' = "last chain'"
  have "?r \<in> set chain" "?r' \<in> set chain'" using assms(3,4) by auto
  with gen [OF assms(1)] gen [OF assms(2)] assms(5,6) have "?r = ?r'"
    by (intro genuine_inject [of C ?r ?r']) (auto intro: inj_on_subset)
  moreover have "sequence (read_value ?r) = length chain" "sequence (read_value ?r') = length chain'"
    using read_chain_Ok(2) [OF assms(1)] read_chain_Ok(2) [OF assms(2)] assms(3,4)
    by (auto simp: last_conv_nth)
  ultimately have "length chain = length chain'" by simp
  with assms gen show ?thesis
    by (intro linked_chains_equal [where C = C]) (auto dest: read_chain_Ok(3))
qed

theorem chain_digest_commits_witness:
  "read_chain plain_codec sample_journal = Ok [reading plain_codec sample_prepared] \<and>
   [reading plain_codec sample_prepared] = [reading plain_codec sample_prepared]"
proof (intro conjI sample_read, rule chain_digest_commits [OF sample_read sample_read])
  show "inj_on (domain_digest plain_codec attempt_entry_domain)
      {b. \<exists>r \<in> set [reading plain_codec sample_prepared] \<union> set [reading plain_codec sample_prepared].
        entry_canonical_bytes plain_codec (read_value r) = Ok b}"
    by (simp add: sample_valid inj_on_def)
qed simp_all

section \<open>Properties of runs\<close>

lemma call_entry_dispatch:
  assumes "call_entry c chain e" "state e = DispatchCrossed"
  shows "\<exists>t. c = MarkDispatchCrossed (read_digest (last chain)) t"
  using assms
  by (cases c) (auto simp: entry_prepared_def terminal_entry_def entry_succeeded_def entry_failed_def
      entry_indeterminate_def entry_aborted_def is_terminal_def)

lemma paths_last_Prepared: "ss \<in> set state_paths \<Longrightarrow> ss \<noteq> [] \<Longrightarrow> last ss = Prepared \<Longrightarrow> ss = [Prepared]"
  by (auto simp: state_paths_def)

lemma read_current_stored:
  assumes "codec_ok C" "chain_ok C (es @ [e])" "stored C J (es @ [e])"
  shows "read_current_attempt C J = Ok (Some e)"
  using read_stored_chain [OF assms] by (simp add: read_current_attempt_def)

text \<open>
  C1: whatever sequence of calls, I/O failures and crashes a journal goes through, starting
  from an empty directory, it always reads as a valid chain; its states follow one of the
  eight paths of the state machine (so it has at most three entries and at most one dispatch
  entry), and all its entries carry one binding. Later history only extends earlier history,
  and a chain that ends in a terminal state is final.
\<close>

theorem journal_run_history:
  assumes "codec_ok C" "journal_steps C empty_journal J" "journal_steps C J J'"
  shows "\<exists>chain ext. read_chain C J = Ok chain \<and> read_chain C J' = Ok (chain @ ext) \<and>
    map (state \<circ> read_value) (chain @ ext) \<in> set state_paths \<and>
    (\<exists>b. \<forall>r \<in> set (chain @ ext). binding (read_value r) = b) \<and>
    (chain \<noteq> [] \<and> is_terminal (state (read_value (last chain))) \<longrightarrow> ext = [])"
proof -
  obtain es where es: "chain_ok C es" "stored C J es" "read_chain C J = Ok (map (reading C) es)"
    using journal_reachable [OF assms(1,2)] .
  from journal_steps_prefix [OF assms(1,3) es(1,2)] obtain es' where
    es': "chain_ok C (es @ es')" "stored C J' (es @ es')" by blast
  have "es' = []" if "es \<noteq> []" "is_terminal (state (last es))"
  proof (rule ccontr)
    assume "es' \<noteq> []"
    with that es'(1) have "link (last (map (reading C) es)) (hd (map (reading C) es'))"
      by (auto simp: chain_ok_def successively_append_iff)
    with that \<open>es' \<noteq> []\<close> valid_transition_from(3) show False
      by (auto simp: link_def last_map hd_map)
  qed
  moreover have "\<exists>b. \<forall>r \<in> set (map (reading C) (es @ es')). binding (read_value r) = b"
    using es'(1) by (auto simp: chain_ok_def)
  ultimately show ?thesis
    using es(3) read_stored_chain [OF assms(1) es'] chain_ok_states [OF es'(1)]
    by (intro exI [of _ "map (reading C) es"] exI [of _ "map (reading C) es'"])
      (auto simp: last_map comp_def)
qed

theorem journal_run_history_witness:
  "\<exists>chain ext. read_chain plain_codec sample_journal = Ok chain \<and>
    read_chain plain_codec sample_journal_aborted = Ok (chain @ ext) \<and>
    map (state \<circ> read_value) (chain @ ext) \<in> set state_paths"
  using journal_run_history [OF codec_ok_plain sample_steps] by blast

text \<open>
  C3: only the dispatch call crosses the dispatch boundary. If a call turns a journal of a
  run without a dispatch entry into one with a dispatch entry, the call is
  \<open>mark_dispatch_crossed\<close>, given the digest of the one prepared entry of the journal.
  In particular recovery never dispatches.
\<close>

theorem dispatch_is_explicit:
  assumes "codec_ok C" "journal_steps C empty_journal J" "run_call C io c J p = (r, J', p')"
    and "read_chain C J = Ok chain" "read_chain C J' = Ok chain'"
    and "DispatchCrossed \<in> (state \<circ> read_value) ` set chain'"
    and "DispatchCrossed \<notin> (state \<circ> read_value) ` set chain"
  shows "\<exists>t. c = MarkDispatchCrossed (read_digest (last chain)) t \<and>
    map (state \<circ> read_value) chain = [Prepared]"
proof -
  obtain es where es: "chain_ok C es" "stored C J es" "chain = map (reading C) es"
    using journal_reachable [OF assms(1,2)] assms(4) by (metis result.inject(1))
  from assms(1) es(1,2) assms(3) show ?thesis
  proof (cases rule: run_call_step)
    case kept
    then have "stored C J' es" using es(2) stored_kept by blast
    with assms(5-7) es read_stored_chain [OF assms(1)] show ?thesis by simp
  next
    case (added e x)
    then have chain': "chain' = chain @ [reading C e]"
      using assms(5) es(3) read_stored_chain [OF assms(1) added(1,2)] by simp
    with assms(6,7) have s: "state e = DispatchCrossed" by auto
    with added(3,4) es(3) have c: "call_entry c chain e" and a: "appends chain e"
      by (simp_all add: call_writes_def)
    from a s have "chain \<noteq> []" "state (read_value (last chain)) = Prepared"
      by (auto simp: appends_def is_valid_transition_def split: if_splits)
    with paths_last_Prepared [OF read_chain_Ok(4) [OF assms(4)]]
    have "map (state \<circ> read_value) chain = [Prepared]" by (simp add: last_map)
    moreover obtain t where "c = MarkDispatchCrossed (read_digest (last chain)) t"
      using call_entry_dispatch [OF c s] ..
    ultimately show ?thesis by (intro exI [of _ t] conjI)
  qed
qed


theorem dispatch_is_explicit_witness:
  "\<exists>t. MarkDispatchCrossed [1] 7 =
      MarkDispatchCrossed (read_digest (last [reading plain_codec sample_prepared])) t \<and>
    map (state \<circ> read_value) [reading plain_codec sample_prepared] = [Prepared]"
  by (rule dispatch_is_explicit [OF codec_ok_plain sample_steps(1) sample_dispatch sample_read
        sample_read_crossed])
    (simp_all add: sample_prepared_def entry_prepared_def sample_crossed_def entry_dispatch_crossed_def)

lemma chain_ok_validate: "chain_ok C es \<Longrightarrow> e \<in> set es \<Longrightarrow> entry_validate C e = Ok ()"
  by (auto simp: chain_ok_def entry_canonical_bytes_iff)

lemma entry_validate_binding: "entry_validate C e = Ok () \<Longrightarrow> binding_validate C (binding e) = Ok ()"
  by (auto simp: entry_validate_def split: if_splits)

lemma entry_validate_evidence:
  "entry_validate C e = Ok () \<Longrightarrow> evidence e = Some ev \<Longrightarrow> evidence_validate ev = Ok ()"
  by (auto simp: entry_validate_def split: if_splits)

lemma mark_terminal_again:
  assumes "read_chain C J = Ok (ch @ [prev, reading C e])"
    and "terminal_entry (read_value prev) (read_digest prev) (length ch + 2) s ev = Ok e"
  shows "mark_terminal_with_fault C io (read_digest prev) s ev bd J p = (Ok e, J, p)"
proof -
  have "state e = s"
    using assms(2) by (auto simp: terminal_entry_def entry_succeeded_def entry_failed_def
        entry_indeterminate_def split: attempt_state.splits option.splits)
  with assms show ?thesis
    by (simp add: mark_terminal_with_fault_def question_def last_but_one_def nth_append)
qed

text \<open>
  C5: a call that published its entry can be retried. Whether the call returned the entry or
  an error (a crash after the rename, a failed directory sync), running it again with the
  same arguments returns that entry and changes nothing, under any I/O failure and any crash
  plan. (Recovery is the next property.)
\<close>

theorem published_call_idempotent:
  assumes "codec_ok C" "journal_steps C empty_journal J" "run_call C io c J p = (r, J', p')"
    and "entry_files J' \<noteq> entry_files J" "\<not> is_recover c"
  shows "\<exists>e. read_current_attempt C J' = Ok (Some e) \<and>
    (r = Ok (EntryValue e) \<or> (\<exists>er. r = Err er \<and> entry_published er)) \<and>
    (\<forall>io2 p2. run_call C io2 c J' p2 = (Ok (EntryValue e), J', p2))"
proof -
  obtain es where es: "chain_ok C es" "stored C J es" using journal_reachable [OF assms(1,2)] .
  from assms(1) es assms(3) show ?thesis
  proof (cases rule: run_call_step)
    case kept
    with assms(4) show ?thesis by simp
  next
    case (added e x)
    note ch = read_stored_chain [OF assms(1) added(1,2)]
    have ce: "call_entry c (map (reading C) es) e" and x: "x = Ok (EntryValue e)"
      using added(3) assms(5) by (simp_all add: call_writes_def)
    have val: "entry_validate C e = Ok ()" using chain_ok_validate [OF added(1)] by simp
    have again: "run_call C io2 c J' p2 = (Ok (EntryValue e), J', p2)" for io2 p2
    proof (cases "es = []")
      case True
      with added(4) have "state e = Prepared" by (simp add: appends_def)
      with ce assms(5) True obtain b where c: "c = Prepare b" "e = entry_prepared b 1"
        by (cases c) (auto simp: entry_dispatch_crossed_def terminal_entry_def entry_succeeded_def
            entry_failed_def entry_indeterminate_def entry_aborted_def)
      with val entry_validate_binding have "binding_validate C b = Ok ()"
        by (fastforce simp: entry_prepared_def)
      with c ch True show ?thesis
        by (simp add: prepare_attempt_with_fault_def question_def call_result_def entry_prepared_def)
    next
      case False
      then obtain es0 l where l: "es = es0 @ [l]" by (metis rev_exhaust)
      have ch': "read_chain C J' = Ok (map (reading C) es0 @ [reading C l, reading C e])"
        using ch l by simp
      have seq: "sequence e \<noteq> 1" using added(4) False by (simp add: appends_def)
      note term_again = mark_terminal_again [OF ch', where io = io2 and p = p2]
      show ?thesis
      proof (cases c)
        case (Prepare b)
        with ce seq show ?thesis by (simp add: entry_prepared_def)
      next
        case (MarkDispatchCrossed d t)
        with ce ch' l show ?thesis
          by (simp add: mark_dispatch_crossed_with_fault_def question_def entry_dispatch_crossed_def
              call_result_def)
      next
        case (MarkSucceeded d rc t)
        with ce l have te: "terminal_entry l d (length es0 + 2) Succeeded (Some (Completion rc t)) = Ok e"
            "d = read_digest (reading C l)" by auto
        then have "rc \<noteq> zero_digest"
          using entry_validate_evidence [OF val, of "Completion rc t"]
          by (auto simp: terminal_entry_def entry_succeeded_def split: if_splits)
        with MarkSucceeded te term_again show ?thesis
          by (simp add: mark_succeeded_with_fault_def call_result_def)
      next
        case (MarkFailed d rc t)
        with ce l have te: "terminal_entry l d (length es0 + 2) Failed (Some (Failure rc t)) = Ok e"
            "d = read_digest (reading C l)" by auto
        then have "rc \<noteq> zero_digest"
          using entry_validate_evidence [OF val, of "Failure rc t"]
          by (auto simp: terminal_entry_def entry_failed_def split: if_splits)
        with MarkFailed te term_again show ?thesis
          by (simp add: mark_failed_with_fault_def call_result_def)
      next
        case (MarkIndeterminate d)
        with ce l term_again show ?thesis
          by (auto simp: mark_indeterminate_with_fault_def call_result_def)
      next
        case (Abort d)
        with ce ch' l show ?thesis
          by (simp add: abort_attempt_with_fault_def question_def entry_aborted_def call_result_def
              last_but_one_def nth_append)
      next
        case (Recover b ev)
        with assms(5) show ?thesis by simp
      qed
    qed
    show ?thesis
      using read_current_stored [OF assms(1) added(1,2)] added(5) x again by blast
  qed
qed


theorem published_call_idempotent_witness:
  "run_call plain_codec quiet_io (Abort [1]) sample_journal_aborted fault_none =
    (Ok (EntryValue sample_aborted), sample_journal_aborted, fault_none)"
proof -
  have "entry_files sample_journal_aborted \<noteq> entry_files sample_journal"
    by (auto simp: sample_journal_aborted_def sample_journal_def publish_def empty_journal_def
        file_node_def missing_node_def fun_eq_iff)
  from published_call_idempotent [OF codec_ok_plain sample_steps(1) sample_abort this]
  show ?thesis by auto
qed

text \<open>The state recovery gives a journal, and the entry it writes.\<close>

definition recovered_state :: "attempt_state \<Rightarrow> attempt_evidence option \<Rightarrow> attempt_state" where
  "recovered_state s ev =
     (case s of
        Prepared \<Rightarrow> SafeToRetry
      | DispatchCrossed \<Rightarrow>
          (case ev of
             Some (Completion d t) \<Rightarrow> Succeeded
           | Some (Failure d t) \<Rightarrow> Failed
           | None \<Rightarrow> Indeterminate)
      | _ \<Rightarrow> s)"

definition recovery_entry :: "canonical_read \<Rightarrow> nat \<Rightarrow> attempt_evidence option \<Rightarrow> attempt_entry" where
  "recovery_entry cur n ev =
     (if state (read_value cur) = Prepared
      then entry_safe_to_retry (read_value cur) (read_digest cur) n
      else snd (classify_dispatched (read_value cur) (read_digest cur) n ev))"

lemma binding_text_shorter:
  "length (canonical_json q (binding_value (binding e))) \<le> length (canonical_json q (entry_value e))"
proof -
  have "canonical_json q (entry_value e) = ''{'' @ join '',''
      (map (\<lambda>(k, v). q k @ '':'' @ canonical_json q v)
        (case entry_value e of JObject m \<Rightarrow> m | _ \<Rightarrow> [])) @ ''}''"
    using json_ok_entry_value [of e] by (simp add: entry_value_def canonical_json_object
        del: canonical_json.simps)
  then show ?thesis by (simp add: entry_value_def join_Cons del: canonical_json.simps)
qed

lemma binding_digest_Ok:
  assumes "entry_canonical_bytes C e = Ok x"
  shows "\<exists>y. binding_digest_of C (binding e) = Ok (sha256 C y)"
proof -
  have v: "entry_validate C e = Ok ()" and "length (entry_text C e) \<le> attempt_journal_max_record_bytes"
    using assms entry_canonical_bytes_text entry_canonical_bytes_iff by metis+
  then have "length (canonical_json (json_string C) (binding_value (binding e))) \<le>
      attempt_journal_max_record_bytes"
    using binding_text_shorter [of "json_string C" e] by (simp add: entry_text_def str_bytes_def)
  with entry_validate_binding [OF v] show ?thesis
    by (auto simp: binding_digest_of_def binding_canonical_bytes_def canonical_bytes_def Let_def
        domain_digest_def str_bytes_def)
qed

lemma recovery_entry_valid:
  assumes "entry_validate C (read_value cur) = Ok ()" "state (read_value cur) \<in> {Prepared, DispatchCrossed}"
    and "2 \<le> n" "\<forall>v. ev = Some v \<longrightarrow> evidence_validate v = Ok ()"
  shows "entry_validate C (recovery_entry cur n ev) = Ok () \<and>
    state (recovery_entry cur n ev) = recovered_state (state (read_value cur)) ev"
  using assms entry_validate_binding [OF assms(1)]
  by (auto simp: recovery_entry_def classify_dispatched_def entry_validate_def recovered_state_def
      entry_safe_to_retry_def entry_succeeded_def entry_failed_def entry_indeterminate_def
      entry_paired_def split: option.splits attempt_evidence.splits)

text \<open>The result of a recovery whose last entry is \<open>e\<close> and whose binding has digest \<open>bd\<close>.\<close>

definition recovery_result ::
    "attempt_codec \<Rightarrow> digest \<Rightarrow> attempt_entry \<Rightarrow> attempt_recovery_receipt attempt_result \<Rightarrow> bool" where
  "recovery_result C bd e r \<longleftrightarrow>
     (if bd = zero_digest \<or> domain_digest C attempt_entry_domain (entry_text C e) = zero_digest
      then r = fail InvalidBinding
      else \<exists>rc. r = Ok rc \<and> binding_digest rc = bd \<and> terminal_state rc = state e \<and>
        terminal_entry_digest rc = domain_digest C attempt_entry_domain (entry_text C e))"

lemma make_receipt_result:
  assumes "entry_canonical_bytes C e = Ok (entry_text C e)" "receipt_paired oc (state e)" "is_terminal (state e)"
  shows "recovery_result C bd e (make_recovery_receipt C bd oc e)"
  by (simp add: recovery_result_def make_receipt_eq [OF assms])

lemma recovery_result_digest:
  assumes "recovery_result C bd e r" "entry_canonical_bytes C e = Ok (entry_text C e)"
  shows "if bd = zero_digest \<or> entry_digest C e = Ok zero_digest then r = fail InvalidBinding
    else \<exists>rc. r = Ok rc \<and> terminal_state rc = state e \<and> entry_digest C e = Ok (terminal_entry_digest rc)"
  using assms by (auto simp: recovery_result_def entry_digest_def split: if_splits)

lemma recovered_state_terminal:
  "s \<in> {Prepared, DispatchCrossed} \<Longrightarrow> is_terminal (recovered_state s ev)"
  by (auto simp: recovered_state_def is_terminal_def split: option.splits attempt_evidence.splits)

lemma recover_by_state_terminal:
  assumes "is_terminal (state (read_value (last chain)))"
    and "entry_canonical_bytes C (read_value (last chain)) = Ok (entry_text C (read_value (last chain)))"
  shows "\<exists>r. recover_by_state C io bd chain ev J p = (r, J, p) \<and> recovery_result C bd (read_value (last chain)) r"
proof -
  obtain oc where oc: "already_outcome (state (read_value (last chain))) = Some oc"
      "receipt_paired oc (state (read_value (last chain)))"
    using assms(1) by (cases "state (read_value (last chain))")
      (auto simp: is_terminal_def receipt_paired_def)
  with make_receipt_result [OF assms(2) oc(2) assms(1)] show ?thesis
    by (simp add: recover_by_state_def Let_def)
qed

lemma recover_by_state_open:
  assumes "\<not> is_terminal (state (read_value (last chain)))"
    and "entry_canonical_bytes C e = Ok (entry_text C e)" "e = recovery_entry (last chain) (length chain + 1) ev"
    and "failing io = None" "read (entry_files J (length chain + 1)) = ReadNotFound"
      "length chain + 1 \<le> attempt_journal_max_entries"
  shows "\<exists>r. recover_by_state C io bd chain ev J fault_none =
      (r, publish (length chain + 1) (entry_text C e) J, fault_none) \<and> recovery_result C bd e r"
proof -
  note w = write_once_happy [OF assms(2,5,6,4)]
  have st: "state (read_value (last chain)) \<in> {Prepared, DispatchCrossed}"
    using assms(1) by (cases "state (read_value (last chain))") (auto simp: is_terminal_def)
  obtain oc where "recover_by_state C io bd chain ev J fault_none =
      after_write (write_once_entry C io (length chain + 1) e recover_boundaries J fault_none)
        (make_recovery_receipt C bd oc e)" "receipt_paired oc (state e)" "is_terminal (state e)"
  proof (cases "state (read_value (last chain)) = Prepared")
    case True
    with assms(3) that [of ClassifiedSafeToRetry] show thesis
      by (simp add: recover_by_state_def Let_def recovery_entry_def entry_safe_to_retry_def
          receipt_paired_def is_terminal_def)
  next
    case False
    obtain oc e' where c: "classify_dispatched (read_value (last chain)) (read_digest (last chain))
        (length chain + 1) ev = (oc, e')" by fastforce
    with False assms(3) have "e' = e" by (simp add: recovery_entry_def)
    with that [of oc] False st c classify_dispatched_entry [OF c] show thesis
      by (auto simp: recover_by_state_def Let_def is_terminal_def)
  qed
  with w make_receipt_result [OF assms(2)] show ?thesis by (simp add: after_write_def)
qed

text \<open>
  C4: recovery always ends the attempt. On every non-empty journal of a run, recovery with
  the journal's binding, valid or no evidence, no injected fault and no I/O failure leaves a
  journal that ends in a terminal state. A prepared attempt becomes safe to retry, a dispatched
  one succeeded, failed or indeterminate according to the evidence alone, and a terminal one is
  left unchanged. The receipt it returns names that state and the digest of the last entry;
  it is refused exactly when the hash of the binding or of that entry is the zero digest.
  (The entry that recovery writes must fit the record size limit.)
\<close>

theorem recovery_total:
  assumes "codec_ok C" "journal_steps C empty_journal J"
    and "read_chain C J = Ok chain" "chain \<noteq> []" "failing io = None"
    and "\<forall>v. ev = Some v \<longrightarrow> evidence_validate v = Ok ()"
    and "length (entry_text C (recovery_entry (last chain) (length chain + 1) ev)) \<le>
      attempt_journal_max_record_bytes"
  shows "\<exists>r J' e. recover_attempt_with_fault C io (binding (read_value (hd chain))) ev J fault_none =
      (r, J', fault_none) \<and>
    read_current_attempt C J' = Ok (Some e) \<and> is_terminal (state e) \<and>
    state e = recovered_state (state (read_value (last chain))) ev \<and>
    (is_terminal (state (read_value (last chain))) \<longrightarrow> J' = J) \<and>
    (if binding_digest_of C (binding (read_value (hd chain))) = Ok zero_digest \<or>
        entry_digest C e = Ok zero_digest
     then r = fail InvalidBinding
     else \<exists>rc. r = Ok rc \<and> terminal_state rc = state e \<and>
       entry_digest C e = Ok (terminal_entry_digest rc))"
proof -
  obtain es where es: "chain_ok C es" "stored C J es" "chain = map (reading C) es"
    using journal_reachable [OF assms(1,2)] assms(3) by (metis result.inject(1))
  with assms(4) obtain es0 l where l: "es = es0 @ [l]" by (metis Nil_is_map_conv rev_exhaust)
  then have last: "last chain = reading C l" by (simp add: es(3))
  have ok: "entry_canonical_bytes C l = Ok (entry_text C l)" "entry_validate C l = Ok ()"
    using es(1) l chain_ok_validate [OF es(1)] by (simp_all add: chain_ok_def)
  have hd: "binding (read_value (hd chain)) = binding l"
    using es(1) by (cases es0) (auto simp: es(3) l chain_ok_def)
  obtain bd where bd: "binding_digest_of C (binding l) = Ok bd"
    using binding_digest_Ok [OF ok(1)] by blast
  have rec: "recover_attempt_with_fault C io (binding (read_value (hd chain))) ev J fault_none =
      recover_by_state C io bd chain ev J fault_none"
    using assms(3,4) hd bd entry_validate_binding [OF ok(2)]
    by (simp add: recover_attempt_with_fault_def question_def)
  show ?thesis
  proof (cases "is_terminal (state l)")
    case True
    then obtain r where r: "recover_by_state C io bd chain ev J fault_none = (r, J, fault_none)"
      "recovery_result C bd l r"
      using last ok(1) recover_by_state_terminal [of chain C io bd ev J fault_none] by auto
    have "read_current_attempt C J = Ok (Some l)"
      using read_current_stored [OF assms(1)] es(1,2) l by blast
    moreover have "recovered_state (state l) ev = state l"
      using True by (cases "state l") (auto simp: recovered_state_def is_terminal_def)
    ultimately show ?thesis
      using rec r last True recovery_result_digest [OF r(2) ok(1)] hd bd by auto
  next
    case False
    let ?e = "recovery_entry (last chain) (length chain + 1) ev"
    have st: "state l \<in> {Prepared, DispatchCrossed}"
      using False by (cases "state l") (auto simp: is_terminal_def)
    have val: "entry_validate C ?e = Ok ()" "state ?e = recovered_state (state l) ev"
      using recovery_entry_valid [of C "last chain" "length chain + 1" ev] last ok(2) st assms(4,6)
      by (auto simp: Suc_le_eq)
    then have et: "entry_canonical_bytes C ?e = Ok (entry_text C ?e)"
      using assms(7) by (simp add: entry_canonical_bytes_iff)
    have missing: "read (entry_files J (length chain + 1)) = ReadNotFound"
      using es by (simp add: stored_def missing_node_def)
    have "length chain + 1 \<le> attempt_journal_max_entries"
      using length_state_paths [OF chain_ok_states [OF es(1)]] es(3)
      by (simp add: attempt_journal_max_entries_def)
    from recover_by_state_open [OF _ et refl assms(5) missing this] False last obtain r where
      r: "recover_by_state C io bd chain ev J fault_none =
        (r, publish (length chain + 1) (entry_text C ?e) J, fault_none)" "recovery_result C bd ?e r"
      by fastforce
    have "appends chain ?e"
      using st last assms(4) classify_dispatched_entry
        [OF prod.collapse [symmetric], of l "read_digest (last chain)" "length chain + 1" ev]
      by (auto simp: recovery_entry_def appends_def entry_safe_to_retry_def is_valid_transition_def)
    with chain_ok_append [OF es(1) _ et] es(3) have "chain_ok C (es @ [?e])" by simp
    moreover have "stored C (publish (length chain + 1) (entry_text C ?e) J) (es @ [?e])"
      using stored_append [OF es(2)] published_at_publish [OF missing] es(3) by simp
    ultimately have "read_current_attempt C (publish (length chain + 1) (entry_text C ?e) J) = Ok (Some ?e)"
      by (rule read_current_stored [OF assms(1)])
    then show ?thesis
      using rec r last False val(2) recovered_state_terminal [OF st]
        recovery_result_digest [OF r(2) et] hd bd by auto
  qed
qed

theorem recovery_total_witness:
  "\<exists>rc J' e. recover_attempt_with_fault plain_codec quiet_io sample_binding None sample_journal
      fault_none = (Ok rc, J', fault_none) \<and> terminal_state rc = SafeToRetry \<and>
    read_current_attempt plain_codec J' = Ok (Some e) \<and> state e = SafeToRetry"
proof -
  have st: "state sample_prepared = Prepared" "binding sample_prepared = sample_binding"
    by (simp_all add: sample_prepared_def entry_prepared_def)
  have n: "show_nat 1 = ''1''" "show_nat (Suc 0) = ''1''" "show_nat 2 = ''2''" "show_nat (Suc (Suc 0)) = ''2''"
    by code_simp+
  let ?e = "recovery_entry (last [reading plain_codec sample_prepared])
      (length [reading plain_codec sample_prepared] + 1) None"
  have "length (entry_text plain_codec ?e) \<le> attempt_journal_max_record_bytes"
    by (simp add: recovery_entry_def st entry_safe_to_retry_def domain_digest_def plain_text_length
        sample_text_simps n attempt_journal_max_record_bytes_def del: canonical_json.simps(6))
  moreover have "sha256 plain_codec y \<noteq> zero_digest" for y by (simp add: zero_digest_def numeral_eq_Suc)
  then have "binding_digest_of plain_codec b \<noteq> Ok zero_digest" "entry_digest plain_codec e \<noteq> Ok zero_digest" for b e
    by (auto simp: binding_digest_of_def entry_digest_def domain_digest_def)
  ultimately show ?thesis
    using recovery_total [OF codec_ok_plain sample_steps(1) sample_read, of quiet_io None]
    by (auto simp: quiet_io_def st recovered_state_def)
qed

end
