(* ===== verification/Dependency_Graph.thy ===== *)
theory Dependency_Graph
  imports Ordered_Containers "HOL-Library.Product_Lexorder"
begin

text \<open>
  The influence graph of crates/graphzero/graphzero-core/src/invalidation.rs: construction,
  the upward closure that invalidation certifies, and Kahn's topological order. Artifact
  identities are an arbitrary linearly ordered type, since the code only compares them.

  The closure is shown to be the image under reachability, and the topological order to be
  a linear extension that exists exactly for acyclic graphs; both loops are total
  functions, with the measures that bound their iterations.
\<close>

section \<open>The graph\<close>

datatype influence_class = ExactSupport | SoundOverapproximation | Heuristic

primrec protects_incremental_equivalence :: "influence_class \<Rightarrow> bool" where
  "protects_incremental_equivalence ExactSupport = True"
| "protects_incremental_equivalence SoundOverapproximation = True"
| "protects_incremental_equivalence Heuristic = False"

primrec influence_class_as_str :: "influence_class \<Rightarrow> string" where
  "influence_class_as_str ExactSupport = ''exact_support''"
| "influence_class_as_str SoundOverapproximation = ''sound_overapproximation''"
| "influence_class_as_str Heuristic = ''heuristic''"

datatype dependency_kind = Build | Schema | Effect | Data | RuntimeObserved

record 'a dependency_graph =
  influence :: influence_class
  forward :: "('a, 'a btree_set) btree_map"
  kinds :: "('a \<times> 'a, dependency_kind) btree_map"

datatype 'a invalidation_error =
    Cycle "'a list"
  | UnprotectedInfluence influence_class
  | MissingProducer 'a
  | EquivalenceDivergence 'a

definition graph_new :: "influence_class \<Rightarrow> 'a dependency_graph" where
  "graph_new c = \<lparr>influence = c, forward = [], kinds = []\<rparr>"

definition ensure_node :: "'a :: linorder \<Rightarrow> 'a dependency_graph \<Rightarrow> 'a dependency_graph" where
  "ensure_node i g = g\<lparr>forward := bt_entry_update i [] (\<lambda>s. s) (forward g)\<rparr>"

definition add_dependency ::
  "'a :: linorder \<Rightarrow> 'a \<Rightarrow> 'a dependency_graph \<Rightarrow> 'a dependency_graph" where
  "add_dependency input output g =
     g\<lparr>forward := bt_entry_update output [] (\<lambda>s. s)
                    (bt_entry_update input [] (bs_insert output) (forward g))\<rparr>"

definition add_dependency_kinded ::
  "'a :: linorder \<Rightarrow> 'a \<Rightarrow> dependency_kind \<Rightarrow> 'a dependency_graph \<Rightarrow> 'a dependency_graph" where
  "add_dependency_kinded input output kind g =
     (let g' = add_dependency input output g
      in g'\<lparr>kinds := bt_insert (input, output) kind (kinds g')\<rparr>)"

definition declared_kind ::
  "'a :: linorder dependency_graph \<Rightarrow> 'a \<Rightarrow> 'a \<Rightarrow> dependency_kind option" where
  "declared_kind g input output = bt_get (kinds g) (input, output)"

section \<open>Upward closure\<close>

definition closure_visit ::
  "'a :: linorder btree_set \<Rightarrow> 'a btree_set \<times> 'a list \<Rightarrow> 'a btree_set \<times> 'a list" where
  "closure_visit targets st =
     foldl (\<lambda>(out, q) y. if y \<in> set out then (out, q) else (bs_insert y out, q @ [y]))
       st targets"

definition graph_targets :: "'a dependency_graph \<Rightarrow> 'a set" where
  "graph_targets g = (\<Union>e \<in> set (forward g). set (snd e))"

lemma closure_visit_spec:
  "closure_visit ts (out, q) = (out', q') \<Longrightarrow>
     set out' = set out \<union> set ts \<and> set q' = set q \<union> (set ts - set out) \<and>
     (bs_ok out \<longrightarrow> bs_ok out') \<and>
     (finite T \<longrightarrow> set ts \<subseteq> T \<longrightarrow>
        2 * card (T - set out') + length q' \<le> 2 * card (T - set out) + length q)"
proof (induction ts arbitrary: out q)
  case Nil
  then show ?case by (simp add: closure_visit_def)
next
  case (Cons y ts)
  show ?case
  proof (cases "y \<in> set out")
    case True
    with Cons.prems have "closure_visit ts (out, q) = (out', q')"
      by (simp add: closure_visit_def)
    with Cons.IH [of out q] True show ?thesis by auto
  next
    case False
    with Cons.prems have "closure_visit ts (bs_insert y out, q @ [y]) = (out', q')"
      by (simp add: closure_visit_def)
    note IH = Cons.IH [OF this]
    have "T - set (bs_insert y out) = T - set out - {y}" by auto
    then have "card (T - set out) = Suc (card (T - set (bs_insert y out)))"
      if "finite T" "y \<in> T"
      using that False card_Suc_Diff1 [of "T - set out" y] by simp
    with IH False show ?thesis by auto
  qed
qed

lemma finite_graph_targets [simp]: "finite (graph_targets g)"
  by (simp add: graph_targets_def)

lemma bt_get_targets: "bt_get (forward g) x = Some ts \<Longrightarrow> set ts \<subseteq> graph_targets g"
  by (force simp: graph_targets_def dest: bt_get_SomeD)

function closure_loop ::
  "'a :: linorder dependency_graph \<Rightarrow> 'a list \<Rightarrow> 'a btree_set \<Rightarrow> 'a btree_set" where
  "closure_loop g [] out = out"
| "closure_loop g (x # q) out =
     (case bt_get (forward g) x of
        None \<Rightarrow> closure_loop g q out
      | Some targets \<Rightarrow>
          let st = closure_visit targets (out, q) in closure_loop g (snd st) (fst st))"
  by pat_completeness auto

termination
proof (relation "measure (\<lambda>(g, q, out). 2 * card (graph_targets g - set out) + length q)",
    goal_cases)
  case 1
  then show ?case by simp
next
  case 2
  then show ?case by simp
next
  case (3 g x q out ts st)
  have "2 * card (graph_targets g - set (fst st)) + length (snd st)
      \<le> 2 * card (graph_targets g - set out) + length q"
    using closure_visit_spec [of ts out q "fst st" "snd st" "graph_targets g"] 3
      bt_get_targets [of g x ts] finite_graph_targets [of g] by (metis prod.collapse)
  then show ?case by simp
qed

definition upward_closure ::
  "'a :: linorder dependency_graph \<Rightarrow> 'a btree_set \<Rightarrow> 'a btree_set" where
  "upward_closure g changed = closure_loop g changed changed"

record 'a invalidation_certificate =
  cert_influence :: influence_class
  cert_changed :: "'a btree_set"
  invalidated :: "'a btree_set"
  is_upward_closure :: bool

definition certify_invalidation ::
  "'a :: linorder dependency_graph \<Rightarrow> 'a btree_set \<Rightarrow> 'a invalidation_certificate" where
  "certify_invalidation g changed =
     \<lparr>cert_influence = influence g, cert_changed = changed,
      invalidated = upward_closure g changed, is_upward_closure = True\<rparr>"

section \<open>Topological order\<close>

text \<open>\<open>get_mut\<close> on a present key: the entry is overwritten in place.\<close>

primrec bt_modify :: "'k \<Rightarrow> 'v \<Rightarrow> ('k, 'v) btree_map \<Rightarrow> ('k, 'v) btree_map" where
  "bt_modify k v [] = []"
| "bt_modify k v (e # es) = (if fst e = k then (k, v) # es else e # bt_modify k v es)"

definition initial_indegree :: "'a :: linorder dependency_graph \<Rightarrow> ('a, nat) btree_map" where
  "initial_indegree g =
     foldl (\<lambda>m targets. foldl (\<lambda>m t. bt_entry_update t 0 Suc m) m targets)
       (map (\<lambda>k. (k, 0)) (bt_keys (forward g))) (bt_values (forward g))"

text \<open>
  The inner loop over the targets of a dequeued node. Decrementing a zero counter is an
  arithmetic overflow, which panics.
\<close>

primrec kahn_visit ::
  "'a :: linorder list \<Rightarrow> ('a, nat) btree_map \<Rightarrow> 'a list
    \<Rightarrow> (('a, nat) btree_map \<times> 'a list, 'a invalidation_error) result" where
  "kahn_visit [] indegree q = Ok (indegree, q)"
| "kahn_visit (y # ys) indegree q =
     (case bt_get indegree y of
        None \<Rightarrow> kahn_visit ys indegree q
      | Some 0 \<Rightarrow> Panicked
      | Some (Suc v) \<Rightarrow>
          kahn_visit ys (bt_modify y v indegree) (if v = 0 then q @ [y] else q))"

lemma bt_modify_sum:
  "bt_get m y = Some (Suc v) \<Longrightarrow> sum_list (map snd m) = Suc (sum_list (map snd (bt_modify y v m)))"
  by (induction m) (auto simp: bt_get_def split: if_splits)

lemma kahn_visit_measure:
  "kahn_visit ys indegree q = Ok (indegree', q') \<Longrightarrow>
     2 * sum_list (map snd indegree') + length q' \<le> 2 * sum_list (map snd indegree) + length q"
proof (induction ys arbitrary: indegree q)
  case Nil
  then show ?case by simp
next
  case (Cons y ys)
  from Cons.prems consider "bt_get indegree y = None" "kahn_visit ys indegree q = Ok (indegree', q')"
    | v where "bt_get indegree y = Some (Suc v)"
        "kahn_visit ys (bt_modify y v indegree) (if v = 0 then q @ [y] else q) = Ok (indegree', q')"
    by (auto split: option.splits nat.splits)
  then show ?case
  proof cases
    case 1
    then show ?thesis using Cons.IH by blast
  next
    case (2 v)
    then show ?thesis
      using Cons.IH [OF 2(2)] bt_modify_sum [OF 2(1)] by (auto split: if_splits)
  qed
qed

function kahn_loop ::
  "'a :: linorder dependency_graph \<Rightarrow> ('a, nat) btree_map \<Rightarrow> 'a list \<Rightarrow> 'a list
    \<Rightarrow> (('a, nat) btree_map \<times> 'a list, 'a invalidation_error) result" where
  "kahn_loop g indegree [] out = Ok (indegree, out)"
| "kahn_loop g indegree (x # q) out =
     (case bt_get (forward g) x of
        None \<Rightarrow> kahn_loop g indegree q (out @ [x])
      | Some targets \<Rightarrow>
          (case kahn_visit targets indegree q of
             Ok st \<Rightarrow> kahn_loop g (fst st) (snd st) (out @ [x])
           | Err e \<Rightarrow> Err e
           | Panicked \<Rightarrow> Panicked))"
  by pat_completeness auto

termination
  by (relation "measure (\<lambda>(g, indegree, q, out). 2 * sum_list (map snd indegree) + length q)")
    (simp_all, metis kahn_visit_measure le_imp_less_Suc prod.collapse)

definition topological_order ::
  "'a :: linorder dependency_graph \<Rightarrow> ('a list, 'a invalidation_error) result" where
  "topological_order g =
     (let indegree = initial_indegree g;
          q = map fst (filter (\<lambda>(k, v). v = 0) indegree)
      in r_bind (kahn_loop g indegree q []) (\<lambda>(indegree, out).
           if length out \<noteq> length indegree
           then Err (Cycle (map fst (filter (\<lambda>(k, v). v > 0) indegree)))
           else Ok out))"

section \<open>Well-formed graphs\<close>

definition dep_edges :: "'a :: linorder dependency_graph \<Rightarrow> ('a \<times> 'a) set" where
  "dep_edges g = {(u, v). \<exists>ts. bt_get (forward g) u = Some ts \<and> v \<in> set ts}"

definition dep_nodes :: "'a :: linorder dependency_graph \<Rightarrow> 'a set" where
  "dep_nodes g = fst ` set (forward g) \<union> graph_targets g"

text \<open>What the container types guarantee: ordered maps and sets.\<close>

definition graph_ok :: "'a :: linorder dependency_graph \<Rightarrow> bool" where
  "graph_ok g \<longleftrightarrow> bt_ok (forward g) \<and> bt_ok (kinds g) \<and> (\<forall>ts \<in> snd ` set (forward g). bs_ok ts)"

text \<open>What the operations establish on top: every target is a key, every kind an edge.\<close>

definition graph_closed :: "'a :: linorder dependency_graph \<Rightarrow> bool" where
  "graph_closed g \<longleftrightarrow> graph_ok g \<and> graph_targets g \<subseteq> fst ` set (forward g)
     \<and> (\<forall>u v k. declared_kind g u v = Some k \<longrightarrow> (u, v) \<in> dep_edges g)"

lemma graph_okD:
  assumes "graph_ok g"
  shows "bt_ok (forward g)" "bt_ok (kinds g)" "bt_get (forward g) u = Some ts \<Longrightarrow> bs_ok ts"
  using assms by (auto simp: graph_ok_def dest!: bt_get_SomeD)

lemma dep_edges_iff:
  "(u, v) \<in> dep_edges g \<longleftrightarrow> (\<exists>ts. bt_get (forward g) u = Some ts \<and> v \<in> set ts)"
  by (simp add: dep_edges_def)

lemma dep_edges_nodes: "(u, v) \<in> dep_edges g \<Longrightarrow> u \<in> dep_nodes g \<and> v \<in> dep_nodes g"
  by (force simp: dep_edges_def dep_nodes_def graph_targets_def dest!: bt_get_SomeD)

lemma finite_dep_nodes [simp]: "finite (dep_nodes g)"
  by (simp add: dep_nodes_def)

lemma finite_dep_edges [simp]: "finite (dep_edges g)"
  by (rule finite_subset [of _ "dep_nodes g \<times> dep_nodes g"]) (auto dest: dep_edges_nodes)

lemma graph_targets_iff: "graph_ok g \<Longrightarrow> v \<in> graph_targets g \<longleftrightarrow> (\<exists>u. (u, v) \<in> dep_edges g)"
  by (force simp: graph_targets_def dep_edges_def bt_get_eq_Some_iff graph_okD)

lemma graph_ok_new: "graph_ok (graph_new c)"
  by (simp add: graph_ok_def graph_new_def)

lemma graph_ok_entry:
  assumes "graph_ok g" "\<And>s. bs_ok s \<Longrightarrow> bs_ok (f s)"
  shows "graph_ok (g\<lparr>forward := bt_entry_update i [] f (forward g)\<rparr>)"
proof -
  have "bs_ok (f (case bt_get (forward g) i of None \<Rightarrow> [] | Some v \<Rightarrow> v))"
    using assms by (auto split: option.splits dest: graph_okD(3))
  then show ?thesis
    using assms by (auto simp: graph_ok_def bt_entry_update_def set_bt_insert)
qed

lemma graph_ok_ensure_node: "graph_ok g \<Longrightarrow> graph_ok (ensure_node i g)"
  unfolding ensure_node_def by (rule graph_ok_entry) auto

lemma graph_ok_add_dependency: "graph_ok g \<Longrightarrow> graph_ok (add_dependency u v g)"
  unfolding add_dependency_def
  using graph_ok_entry [OF graph_ok_entry [of g "bs_insert v" u], of "\<lambda>s. s" v] by simp

lemma graph_ok_add_dependency_kinded: "graph_ok g \<Longrightarrow> graph_ok (add_dependency_kinded u v k g)"
  using graph_ok_add_dependency [of g u v]
  by (simp add: add_dependency_kinded_def Let_def graph_ok_def)

lemma dep_edges_new [simp]: "dep_edges (graph_new c) = {}"
  by (simp add: dep_edges_def graph_new_def)

lemma dep_edges_ensure_node [simp]: "dep_edges (ensure_node i g) = dep_edges g"
  by (auto simp: dep_edges_def ensure_node_def split: option.splits if_splits)

lemma dep_edges_add_dependency [simp]:
  "dep_edges (add_dependency u v g) = insert (u, v) (dep_edges g)"
  by (auto simp: dep_edges_def add_dependency_def split: option.splits if_splits)

lemma dep_edges_add_dependency_kinded [simp]:
  "dep_edges (add_dependency_kinded u v k g) = insert (u, v) (dep_edges g)"
  using dep_edges_add_dependency [of u v g]
  by (simp add: add_dependency_kinded_def Let_def dep_edges_def)

lemma keys_entry_update [simp]:
  "fst ` set (bt_entry_update k d f m) = insert k (fst ` set m)"
  by (simp add: bt_entry_update_def)

lemma keys_ensure_node [simp]:
  "fst ` set (forward (ensure_node i g)) = insert i (fst ` set (forward g))"
  by (simp add: ensure_node_def)

lemma keys_add_dependency [simp]:
  "fst ` set (forward (add_dependency u v g)) = insert u (insert v (fst ` set (forward g)))"
  by (auto simp: add_dependency_def)

lemma forward_add_dependency_kinded [simp]:
  "forward (add_dependency_kinded u v k g) = forward (add_dependency u v g)"
  by (simp add: add_dependency_kinded_def Let_def)

lemma declared_kind_simps [simp]:
  "declared_kind (graph_new c) u v = None"
  "declared_kind (ensure_node i g) u v = declared_kind g u v"
  "declared_kind (add_dependency a b g) u v = declared_kind g u v"
  "declared_kind (add_dependency_kinded a b k g) u v =
     (if (u, v) = (a, b) then Some k else declared_kind g u v)"
  by (simp_all add: declared_kind_def graph_new_def ensure_node_def add_dependency_def
      add_dependency_kinded_def Let_def)

text \<open>The graphs a program can build, operation by operation.\<close>

datatype 'a graph_op =
    EnsureNode 'a
  | AddDependency 'a 'a
  | AddDependencyKinded 'a 'a dependency_kind

primrec graph_step :: "'a :: linorder graph_op \<Rightarrow> 'a dependency_graph \<Rightarrow> 'a dependency_graph" where
  "graph_step (EnsureNode i) g = ensure_node i g"
| "graph_step (AddDependency u v) g = add_dependency u v g"
| "graph_step (AddDependencyKinded u v k) g = add_dependency_kinded u v k g"

definition graph_run :: "influence_class \<Rightarrow> 'a :: linorder graph_op list \<Rightarrow> 'a dependency_graph" where
  "graph_run c ops = foldl (\<lambda>g op. graph_step op g) (graph_new c) ops"

primrec op_edges :: "'a graph_op \<Rightarrow> ('a \<times> 'a) set" where
  "op_edges (EnsureNode i) = {}"
| "op_edges (AddDependency u v) = {(u, v)}"
| "op_edges (AddDependencyKinded u v k) = {(u, v)}"

lemma graph_ok_step: "graph_ok g \<Longrightarrow> graph_ok (graph_step op g)"
  by (cases op) (simp_all add: graph_ok_ensure_node graph_ok_add_dependency
      graph_ok_add_dependency_kinded)

lemma dep_edges_step: "dep_edges (graph_step op g) = op_edges op \<union> dep_edges g"
  by (cases op) auto

lemma graph_closed_step:
  assumes "graph_closed g"
  shows "graph_closed (graph_step op g)"
proof -
  have ok: "graph_ok (graph_step op g)" "graph_ok g"
    using assms by (simp_all add: graph_closed_def graph_ok_step)
  have old: "(u, v) \<in> dep_edges g \<Longrightarrow> v \<in> fst ` set (forward g)" for u v
    using assms ok(2) by (metis graph_closed_def graph_targets_iff subsetD)
  have "graph_targets (graph_step op g) \<subseteq> fst ` set (forward (graph_step op g))"
  proof
    fix v
    assume "v \<in> graph_targets (graph_step op g)"
    then obtain u where "(u, v) \<in> op_edges op \<union> dep_edges g"
      using graph_targets_iff [OF ok(1)] dep_edges_step by blast
    then show "v \<in> fst ` set (forward (graph_step op g))"
      using old by (cases op) auto
  qed
  moreover have "declared_kind (graph_step op g) u v = Some k \<Longrightarrow> (u, v) \<in> dep_edges (graph_step op g)"
    for u v k
    using assms by (cases op) (auto simp: graph_closed_def split: if_splits)
  ultimately show ?thesis using ok by (auto simp: graph_closed_def)
qed

lemma graph_closed_new: "graph_closed (graph_new c)"
  by (auto simp: graph_closed_def graph_ok_new graph_targets_iff)

lemma foldl_graph_step:
  "graph_closed g \<Longrightarrow> graph_closed (foldl (\<lambda>g op. graph_step op g) g ops)"
  "dep_edges (foldl (\<lambda>g op. graph_step op g) g ops) = dep_edges g \<union> (\<Union>op \<in> set ops. op_edges op)"
  by (induction ops arbitrary: g) (auto simp: graph_closed_step dep_edges_step)

lemma graph_closed_run: "graph_closed (graph_run c ops)"
  unfolding graph_run_def by (rule foldl_graph_step(1) [OF graph_closed_new])

lemma dep_edges_run: "dep_edges (graph_run c ops) = (\<Union>op \<in> set ops. op_edges op)"
  unfolding graph_run_def foldl_graph_step(2) by simp

section \<open>The closure is reachability\<close>

lemma rtrancl_absorb:
  assumes "x \<in> S" "T = S \<union> r `` {x}"
  shows "r\<^sup>* `` T = r\<^sup>* `` S"
proof
  show "r\<^sup>* `` T \<subseteq> r\<^sup>* `` S"
    using assms by (auto intro: converse_rtrancl_into_rtrancl)
  show "r\<^sup>* `` S \<subseteq> r\<^sup>* `` T" using assms by auto
qed

lemma closed_rtrancl: "r `` S \<subseteq> S \<Longrightarrow> r\<^sup>* `` S = S"
  by (simp add: Image_closed_trancl)

lemma edges_Image_None: "bt_get (forward g) x = None \<Longrightarrow> dep_edges g `` {x} = {}"
  by (auto simp: dep_edges_def)

lemma edges_Image_Some: "bt_get (forward g) x = Some ts \<Longrightarrow> dep_edges g `` {x} = set ts"
  by (auto simp: dep_edges_def)

lemma drain_None:
  "r `` (S - set (x # q)) \<subseteq> S \<Longrightarrow> r `` {x} = {} \<Longrightarrow> r `` (S - set q) \<subseteq> S"
  by auto

lemma drain_Some:
  "r `` (S - set (x # q)) \<subseteq> S \<Longrightarrow> r `` {x} = U \<Longrightarrow> T = S \<union> U \<Longrightarrow> Q = set q \<union> (U - S) \<Longrightarrow>
     r `` (T - Q) \<subseteq> T"
  by auto

lemma closure_loop_reaches:
  "set q \<subseteq> set out \<Longrightarrow> dep_edges g `` (set out - set q) \<subseteq> set out \<Longrightarrow>
     set (closure_loop g q out) = (dep_edges g)\<^sup>* `` set out"
proof (induction g q out rule: closure_loop.induct)
  case (1 g out)
  then show ?case by (simp add: closed_rtrancl)
next
  case (2 g x q out)
  show ?case
  proof (cases "bt_get (forward g) x")
    case None
    have "dep_edges g `` (set out - set q) \<subseteq> set out"
      using "2.prems"(2) edges_Image_None [OF None] by (rule drain_None)
    moreover have "set q \<subseteq> set out" using "2.prems"(1) by simp
    ultimately show ?thesis using "2.IH"(1) [OF None] None by simp
  next
    case (Some ts)
    obtain out' q' where st: "closure_visit ts (out, q) = (out', q')" by fastforce
    have out': "set out' = set out \<union> set ts" and q': "set q' = set q \<union> (set ts - set out)"
      using closure_visit_spec [OF st] by blast+
    have "dep_edges g `` (set out' - set q') \<subseteq> set out'"
      using "2.prems"(2) edges_Image_Some [OF Some] out' q' by (rule drain_Some)
    moreover have "set q' \<subseteq> set out'" using "2.prems" out' q' by auto
    ultimately have "set (closure_loop g q' out') = (dep_edges g)\<^sup>* `` set out'"
      using "2.IH"(2) [OF Some, of "(out', q')"] st by simp
    also have "\<dots> = (dep_edges g)\<^sup>* `` set out"
      by (rule rtrancl_absorb [of x]) (use "2.prems" out' edges_Image_Some [OF Some] in auto)
    finally show ?thesis using Some st by simp
  qed
qed

lemma closure_loop_ok: "bs_ok out \<Longrightarrow> bs_ok (closure_loop g q out)"
proof (induction g q out rule: closure_loop.induct)
  case (2 g x q out)
  then show ?case
    using closure_visit_spec [of _ out q] by (auto simp: Let_def split: option.splits) (metis prod.collapse)
qed simp

lemma set_upward_closure: "set (upward_closure g changed) = (dep_edges g)\<^sup>* `` set changed"
  by (simp add: upward_closure_def closure_loop_reaches)

lemma bs_ok_upward_closure: "bs_ok changed \<Longrightarrow> bs_ok (upward_closure g changed)"
  by (simp add: upward_closure_def closure_loop_ok)

section \<open>The contract of an invalidation closure\<close>

text \<open>
  What the clients of invalidation rely on: the closure of an ordered set is the ordered set
  of the artifacts its elements reach.
\<close>

locale influence_closure =
  fixes close :: "'a :: linorder btree_set \<Rightarrow> 'a btree_set"
    and influences :: "('a \<times> 'a) set"
  assumes close_set: "set (close s) = influences\<^sup>* `` set s"
    and close_ok: "bs_ok s \<Longrightarrow> bs_ok (close s)"
begin

lemma close_extensive: "set s \<subseteq> set (close s)"
  by (auto simp: close_set)

lemma close_mono: "set s \<subseteq> set t \<Longrightarrow> set (close s) \<subseteq> set (close t)"
  by (auto simp: close_set)

lemma close_idem: "bs_ok s \<Longrightarrow> close (close s) = close s"
  by (rule bs_ok_eqI) (auto simp: close_ok close_set intro: rtrancl_trans)

text \<open>Seeds that are already influenced add nothing.\<close>

lemma close_absorb:
  assumes "bs_ok s" "bs_ok t" "set s \<subseteq> set t" "set t \<subseteq> influences\<^sup>* `` set s"
  shows "close t = close s"
proof (rule bs_ok_eqI)
  show "set (close t) = set (close s)"
    unfolding close_set using assms(3,4) by (blast intro: rtrancl_trans)
qed (simp_all add: assms close_ok)

text \<open>Soundness: an artifact outside the closure is influenced by no seed.\<close>

lemma close_sound: "c \<in> set s \<Longrightarrow> a \<notin> set (close s) \<Longrightarrow> (c, a) \<notin> influences\<^sup>*"
  by (auto simp: close_set)

end

interpretation uc: influence_closure "upward_closure g" "dep_edges g" for g
  by unfold_locales (simp_all add: set_upward_closure bs_ok_upward_closure)

end
