(* ===== verification/Recompute.thy ===== *)
theory Recompute
  imports Dependency_Graph
begin

text \<open>
  The recompute engine of crates/graphzero/graphzero-core/src/invalidation.rs: the full
  rebuild, the incremental pass with its equality-boundary cutoff, and the protected
  comparison of the two. A producer is an arbitrary function of the artifact state, as the
  boxed closures of the code are.
\<close>

section \<open>The engine\<close>

type_synonym 'a artifact_state = "('a, bytes) btree_map"
type_synonym 'a producer_fn = "'a artifact_state \<Rightarrow> bytes option"

record 'a recompute_engine =
  eng_graph :: "'a dependency_graph"
  producers :: "('a, 'a producer_fn) btree_map"

record 'a recompute_result =
  res_state :: "'a artifact_state"
  res_recomputed :: "'a btree_set"

record 'a cutoff_report =
  rep_recomputed :: "'a btree_set"
  cut_off :: "'a btree_set"
  boundary_nodes :: "'a btree_set"

definition engine_new :: "'a dependency_graph \<Rightarrow> 'a recompute_engine" where
  "engine_new g = \<lparr>eng_graph = g, producers = []\<rparr>"

definition register_producer ::
  "'a :: linorder \<Rightarrow> 'a producer_fn \<Rightarrow> 'a recompute_engine \<Rightarrow> 'a recompute_engine" where
  "register_producer i f e =
     e\<lparr>eng_graph := ensure_node i (eng_graph e), producers := bt_insert i f (producers e)\<rparr>"

section \<open>Full rebuild\<close>

record 'a full_st =
  full_state :: "'a artifact_state"
  full_recomputed :: "'a btree_set"
  pending :: "'a btree_set"
  progressed :: bool

text \<open>One pass over the schedule; \<open>full_step\<close> is the body of its loop.\<close>

definition full_step ::
  "'a :: linorder recompute_engine \<Rightarrow> 'a \<Rightarrow> 'a full_st \<Rightarrow> ('a full_st, 'a invalidation_error) result" where
  "full_step e i st =
     (if i \<notin> set (pending st) then Ok st
      else r_bind (ok_or (bt_get (producers e) i) (MissingProducer i)) (\<lambda>f.
        Ok (case f (full_state st) of
              None \<Rightarrow> st
            | Some v \<Rightarrow> \<lparr>full_state = bt_insert i v (full_state st),
                         full_recomputed = bs_insert i (full_recomputed st),
                         pending = bs_remove i (pending st), progressed = True\<rparr>)))"

primrec full_pass ::
  "'a :: linorder recompute_engine \<Rightarrow> 'a list \<Rightarrow> 'a full_st \<Rightarrow> ('a full_st, 'a invalidation_error) result" where
  "full_pass e [] st = Ok st"
| "full_pass e (i # is) st = r_bind (full_step e i st) (full_pass e is)"

text \<open>
  The outer loop, by the number of passes its guard still allows. The first element of a
  non-empty \<open>pending\<close> is the artifact reported as stuck.
\<close>

primrec full_loop ::
  "'a :: linorder recompute_engine \<Rightarrow> 'a list \<Rightarrow> nat \<Rightarrow> 'a full_st
    \<Rightarrow> ('a recompute_result, 'a invalidation_error) result" where
  "full_loop e schedule 0 st =
     (case pending st of
        [] \<Rightarrow> Ok \<lparr>res_state = full_state st, res_recomputed = full_recomputed st\<rparr>
      | stuck # _ \<Rightarrow> Err (MissingProducer stuck))"
| "full_loop e schedule (Suc n) st =
     (case pending st of
        [] \<Rightarrow> Ok \<lparr>res_state = full_state st, res_recomputed = full_recomputed st\<rparr>
      | _ # _ \<Rightarrow>
          r_bind (full_pass e schedule (st\<lparr>progressed := False\<rparr>)) (\<lambda>st'.
            if progressed st' then full_loop e schedule n st'
            else (case pending st' of [] \<Rightarrow> Panicked | stuck # _ \<Rightarrow> Err (MissingProducer stuck))))"

definition full_schedule :: "'a :: linorder recompute_engine \<Rightarrow> 'a list \<Rightarrow> 'a list" where
  "full_schedule e order =
     foldl (\<lambda>schedule i. if i \<in> set schedule then schedule else schedule @ [i])
       (filter (\<lambda>i. i \<in> set (bt_keys (producers e))) order) (bt_keys (producers e))"

definition full_recompute ::
  "'a :: linorder recompute_engine \<Rightarrow> 'a artifact_state
    \<Rightarrow> ('a recompute_result, 'a invalidation_error) result" where
  "full_recompute e inputs =
     r_bind (topological_order (eng_graph e)) (\<lambda>_.
       let order = (case topological_order (eng_graph e) of Ok xs \<Rightarrow> xs | _ \<Rightarrow> []);
           schedule = full_schedule e order
       in full_loop e schedule (length (producers e) + 2)
            \<lparr>full_state = inputs, full_recomputed = [], pending = bt_keys (producers e),
             progressed = False\<rparr>)"

section \<open>Incremental pass\<close>

definition bt_extend :: "('a :: linorder, 'v) btree_map \<Rightarrow> ('a, 'v) btree_map \<Rightarrow> ('a, 'v) btree_map" where
  "bt_extend m changes = foldl (\<lambda>m (k, v). bt_insert k v m) m changes"

definition pred_map :: "'a :: linorder dependency_graph \<Rightarrow> ('a, 'a btree_set) btree_map" where
  "pred_map g =
     foldl (\<lambda>m (u, targets). foldl (\<lambda>m v. bt_entry_update v [] (bs_insert u) m) m targets)
       [] (forward g)"

record 'a incr_st =
  inc_state :: "'a artifact_state"
  report :: "'a cutoff_report"
  boundary :: "'a btree_set"
  tainted :: "'a btree_set"
  reached_ids :: "'a btree_set"

definition incr_reached ::
  "'a :: linorder recompute_engine \<Rightarrow> 'a btree_set \<Rightarrow> 'a btree_set \<Rightarrow> ('a, 'a btree_set) btree_map
    \<Rightarrow> 'a \<Rightarrow> 'a incr_st \<Rightarrow> bool" where
  "incr_reached e changed dirty ps i st =
     (if i \<in> set changed then True
      else (case bt_get ps i of
              None \<Rightarrow> False
            | Some us \<Rightarrow>
                list_ex (\<lambda>p. p \<notin> set (boundary st) \<and>
                  (if bt_contains_key (producers e) p then p \<in> set (reached_ids st)
                   else p \<in> set dirty)) us))"

definition inputs_tainted :: "('a :: linorder, 'a btree_set) btree_map \<Rightarrow> 'a \<Rightarrow> 'a incr_st \<Rightarrow> bool" where
  "inputs_tainted ps i st =
     (case bt_get ps i of None \<Rightarrow> False | Some us \<Rightarrow> list_ex (\<lambda>p. p \<in> set (tainted st)) us)"

definition incr_produce ::
  "'a :: linorder artifact_state \<Rightarrow> 'a \<Rightarrow> 'a producer_fn \<Rightarrow> bool \<Rightarrow> 'a incr_st \<Rightarrow> 'a incr_st" where
  "incr_produce old_state i f tnt st =
     (case f (inc_state st) of
        Some v \<Rightarrow>
          let st' = st\<lparr>inc_state := bt_insert i v (inc_state st),
                       report := (report st)\<lparr>rep_recomputed := bs_insert i (rep_recomputed (report st))\<rparr>\<rparr>
          in (if \<not> tnt \<and> bt_get old_state i = Some v
              then st'\<lparr>boundary := bs_insert i (boundary st'),
                       report := (report st')\<lparr>boundary_nodes := bs_insert i (boundary_nodes (report st'))\<rparr>\<rparr>
              else st')
      | None \<Rightarrow> st\<lparr>tainted := bs_insert i (tainted st)\<rparr>)"

definition incr_step ::
  "'a :: linorder recompute_engine \<Rightarrow> 'a artifact_state \<Rightarrow> 'a btree_set \<Rightarrow> 'a btree_set
    \<Rightarrow> ('a, 'a btree_set) btree_map \<Rightarrow> 'a \<Rightarrow> 'a incr_st \<Rightarrow> 'a incr_st" where
  "incr_step e old_state changed dirty ps i st =
     (if i \<notin> set dirty then st
      else if \<not> incr_reached e changed dirty ps i st
      then (if bt_contains_key (producers e) i
            then st\<lparr>report := (report st)\<lparr>cut_off := bs_insert i (cut_off (report st))\<rparr>\<rparr>
            else st)
      else let tnt = inputs_tainted ps i st;
               st = (if tnt then st\<lparr>tainted := bs_insert i (tainted st)\<rparr> else st)
           in (case bt_get (producers e) i of
                 None \<Rightarrow> st
               | Some f \<Rightarrow>
                   incr_produce old_state i f tnt
                     (st\<lparr>reached_ids := bs_insert i (reached_ids st)\<rparr>)))"

definition incremental_recompute_with_report ::
  "'a :: linorder recompute_engine \<Rightarrow> 'a artifact_state \<Rightarrow> 'a artifact_state
    \<Rightarrow> ('a recompute_result \<times> 'a cutoff_report, 'a invalidation_error) result" where
  "incremental_recompute_with_report e old_state changed_inputs =
     (let changed = bt_keys changed_inputs;
          dirty = invalidated (certify_invalidation (eng_graph e) changed);
          state = bt_extend old_state changed_inputs
      in r_bind (topological_order (eng_graph e)) (\<lambda>order.
           let st = foldl (\<lambda>st i. incr_step e old_state changed dirty (pred_map (eng_graph e)) i st)
                      \<lparr>inc_state = state,
                       report = \<lparr>rep_recomputed = [], cut_off = [], boundary_nodes = []\<rparr>,
                       boundary = [], tainted = [], reached_ids = []\<rparr> order
           in Ok (\<lparr>res_state = inc_state st, res_recomputed = rep_recomputed (report st)\<rparr>, report st)))"

definition incremental_recompute ::
  "'a :: linorder recompute_engine \<Rightarrow> 'a artifact_state \<Rightarrow> 'a artifact_state
    \<Rightarrow> ('a recompute_result, 'a invalidation_error) result" where
  "incremental_recompute e old_state changed_inputs =
     r_map fst (incremental_recompute_with_report e old_state changed_inputs)"

section \<open>The protected comparison\<close>

text \<open>The first producer that satisfies a test, in the order of the map.\<close>

definition first_producer :: "'a :: linorder recompute_engine \<Rightarrow> ('a \<Rightarrow> bool) \<Rightarrow> 'a option" where
  "first_producer e P = List.find P (bt_keys (producers e))"

definition assert_incremental_equivalence ::
  "'a :: linorder recompute_engine \<Rightarrow> 'a artifact_state \<Rightarrow> 'a artifact_state
    \<Rightarrow> (unit, 'a invalidation_error) result" where
  "assert_incremental_equivalence e baseline_inputs changed_inputs =
     (if \<not> protects_incremental_equivalence (influence (eng_graph e))
      then Err (UnprotectedInfluence (influence (eng_graph e)))
      else
        r_bind (full_recompute e (bt_extend baseline_inputs changed_inputs)) (\<lambda>full.
        r_bind (full_recompute e baseline_inputs) (\<lambda>base.
        r_bind (incremental_recompute e (res_state base) changed_inputs) (\<lambda>incr.
          case first_producer e (\<lambda>i. bt_get (res_state full) i \<noteq> bt_get (res_state incr) i) of
            Some i \<Rightarrow> Err (EquivalenceDivergence i)
          | None \<Rightarrow>
              (case first_producer e (\<lambda>i. bt_get (res_state base) i \<noteq> bt_get (res_state full) i
                                          \<and> i \<notin> set (res_recomputed incr)) of
                 Some i \<Rightarrow> Err (EquivalenceDivergence i)
               | None \<Rightarrow> Ok ())))))"

end
