(* ===== verification/Topological_Order.thy ===== *)
theory Topological_Order
  imports Dependency_Graph
begin

text \<open>
  Correctness of \<open>topological_order\<close> (graphzero-core/src/invalidation.rs). The counters of
  Kahn's loop are the numbers of unprocessed predecessors, so no decrement underflows; the
  output lists every node after its predecessors, and a cycle is reported exactly when the
  graph has one.
\<close>

section \<open>Counters\<close>

lemma keys_bt_modify [simp]: "map fst (bt_modify k v m) = map fst m"
  by (induction m) auto

lemma bt_get_modify:
  "bt_get m k \<noteq> None \<Longrightarrow> bt_get (bt_modify k v m) j = (if j = k then Some v else bt_get m j)"
  by (induction m) (auto simp: bt_get_def)

abbreviation preds :: "'a :: linorder dependency_graph \<Rightarrow> 'a \<Rightarrow> 'a set" where
  "preds g v \<equiv> (dep_edges g)\<inverse> `` {v}"

lemma finite_preds [simp]: "finite (preds g v)"
  by (rule finite_Image) simp

lemma count_targets:
  "distinct ts \<Longrightarrow>
     bt_get (foldl (\<lambda>m t. bt_entry_update t 0 Suc m) m ts) v =
       (if v \<in> set ts then Some (Suc (case bt_get m v of None \<Rightarrow> 0 | Some n \<Rightarrow> n)) else bt_get m v)"
  by (induction ts arbitrary: m) auto

lemma count_targets_ok:
  "bt_ok m \<Longrightarrow> bt_ok (foldl (\<lambda>m t. bt_entry_update t 0 Suc m) m ts)"
  by (induction ts arbitrary: m) auto

lemma count_values:
  "\<forall>ts \<in> set tss. distinct ts \<Longrightarrow>
     bt_get (foldl (\<lambda>m ts. foldl (\<lambda>m t. bt_entry_update t 0 Suc m) m ts) m tss) v =
       (if bt_get m v = None \<and> (\<forall>ts \<in> set tss. v \<notin> set ts) then None
        else Some ((case bt_get m v of None \<Rightarrow> 0 | Some n \<Rightarrow> n) + length (filter (\<lambda>ts. v \<in> set ts) tss)))"
proof (induction tss arbitrary: m)
  case Nil
  then show ?case by (simp split: option.splits)
next
  case (Cons ts tss)
  then show ?case by (cases "v \<in> set ts") (simp_all add: count_targets split: option.splits)
qed

lemma count_values_ok:
  "bt_ok m \<Longrightarrow> bt_ok (foldl (\<lambda>m ts. foldl (\<lambda>m t. bt_entry_update t 0 Suc m) m ts) m tss)"
  by (induction tss arbitrary: m) (auto simp: count_targets_ok)

lemma card_preds:
  assumes "graph_ok g"
  shows "card (preds g v) = length (filter (\<lambda>ts. v \<in> set ts) (bt_values (forward g)))"
proof -
  let ?es = "filter (\<lambda>e. v \<in> set (snd e)) (forward g)"
  have "distinct (map fst ?es)"
    using bt_ok_distinct [OF graph_okD(1) [OF assms]] by (simp add: distinct_map_filter)
  then have "card (fst ` set ?es) = length ?es"
    by (metis distinct_card length_map set_map)
  moreover have "preds g v = fst ` set ?es"
    using bt_get_eq_Some_iff [OF graph_okD(1) [OF assms]]
    by (force simp: dep_edges_def)
  moreover have "length ?es = length (filter (\<lambda>ts. v \<in> set ts) (bt_values (forward g)))"
    by (simp add: bt_values_def filter_map o_def)
  ultimately show ?thesis by simp
qed

lemma initial_indegree_get:
  assumes "graph_ok g"
  shows "bt_get (initial_indegree g) v =
    (if v \<in> dep_nodes g then Some (card (preds g v)) else None)"
proof -
  have "\<forall>ts \<in> set (bt_values (forward g)). distinct ts"
    using assms by (auto simp: graph_ok_def set_bt_values bs_ok_distinct)
  moreover have "bt_get (map (\<lambda>k. (k, 0 :: nat)) (bt_keys (forward g))) v =
      (if v \<in> fst ` set (forward g) then Some 0 else None)"
    by (auto simp: bt_get_def map_of_map_restrict set_bt_keys restrict_map_def o_def)
  moreover have "v \<in> dep_nodes g \<longleftrightarrow>
      v \<in> fst ` set (forward g) \<or> (\<exists>ts \<in> set (bt_values (forward g)). v \<in> set ts)"
    by (auto simp: dep_nodes_def graph_targets_def set_bt_values)
  ultimately show ?thesis
    by (auto simp: initial_indegree_def count_values card_preds [OF assms])
qed

lemma initial_indegree_ok:
  assumes "graph_ok g"
  shows "bt_ok (initial_indegree g)"
proof -
  have "bt_ok (map (\<lambda>k. (k, 0 :: nat)) (bt_keys (forward g)))"
    using graph_okD(1) [OF assms] by (simp add: bt_ok_def bt_keys_def o_def)
  then show ?thesis by (simp add: initial_indegree_def count_values_ok)
qed

lemma kahn_visit_Ok:
  assumes "distinct ys" "\<And>y. y \<in> set ys \<Longrightarrow> \<exists>n. bt_get m y = Some (Suc n)"
  shows "\<exists>m'. kahn_visit ys m q = Ok (m', q @ filter (\<lambda>y. bt_get m y = Some 1) ys)
    \<and> map fst m' = map fst m
    \<and> (\<forall>v. bt_get m' v = (if v \<in> set ys then map_option (\<lambda>n. n - 1) (bt_get m v) else bt_get m v))"
  using assms
proof (induction ys arbitrary: m q)
  case Nil
  then show ?case by simp
next
  case (Cons y ys)
  obtain n where n: "bt_get m y = Some (Suc n)" using Cons.prems(2) by auto
  let ?m = "bt_modify y n m"
  have get: "bt_get ?m v = (if v = y then Some n else bt_get m v)" for v
    by (rule bt_get_modify) (simp add: n)
  have "\<exists>k. bt_get ?m z = Some (Suc k)" if "z \<in> set ys" for z
    using that Cons.prems get by auto
  with Cons.IH [of ?m "if n = 0 then q @ [y] else q"] Cons.prems(1)
  obtain m' where m': "kahn_visit ys ?m (if n = 0 then q @ [y] else q) =
        Ok (m', (if n = 0 then q @ [y] else q) @ filter (\<lambda>y. bt_get ?m y = Some 1) ys)"
      "map fst m' = map fst ?m"
      "\<forall>v. bt_get m' v = (if v \<in> set ys then map_option (\<lambda>n. n - 1) (bt_get ?m v) else bt_get ?m v)"
    by auto
  have "filter (\<lambda>y. bt_get ?m y = Some 1) ys = filter (\<lambda>y. bt_get m y = Some 1) ys"
    by (rule filter_cong) (use Cons.prems(1) get in auto)
  with m' n get Cons.prems(1) show ?case
    by (intro exI [of _ m']) auto
qed

section \<open>The loop invariant\<close>

text \<open>Every element is preceded by all of its predecessors.\<close>

definition linear_extension :: "('a \<times> 'a) set \<Rightarrow> 'a list \<Rightarrow> bool" where
  "linear_extension r xs \<longleftrightarrow> (\<forall>ys v zs. xs = ys @ v # zs \<longrightarrow> r\<inverse> `` {v} \<subseteq> set ys)"

lemma linear_extension_Nil [simp]: "linear_extension r []"
  by (simp add: linear_extension_def)

lemma linear_extension_snoc:
  "linear_extension r (xs @ [x]) \<longleftrightarrow> linear_extension r xs \<and> r\<inverse> `` {x} \<subseteq> set xs"
proof
  assume l: "linear_extension r (xs @ [x])"
  have "r\<inverse> `` {v} \<subseteq> set ys" if "xs = ys @ v # zs" for ys v zs
    using l that unfolding linear_extension_def by (metis append.assoc append_Cons)
  then show "linear_extension r xs \<and> r\<inverse> `` {x} \<subseteq> set xs"
    using l unfolding linear_extension_def by blast
next
  assume l: "linear_extension r xs \<and> r\<inverse> `` {x} \<subseteq> set xs"
  have "r\<inverse> `` {v} \<subseteq> set ys" if "xs @ [x] = ys @ v # zs" for ys v zs
  proof (cases zs rule: rev_cases)
    case Nil
    then show ?thesis using l that by simp
  next
    case (snoc zs' z)
    then have "xs = ys @ v # zs'"
      using that by (metis append.assoc append_Cons butlast_snoc)
    then show ?thesis using l unfolding linear_extension_def by blast
  qed
  then show "linear_extension r (xs @ [x])" unfolding linear_extension_def by blast
qed

definition kahn_inv ::
  "'a :: linorder dependency_graph \<Rightarrow> ('a, nat) btree_map \<Rightarrow> 'a list \<Rightarrow> 'a list \<Rightarrow> bool" where
  "kahn_inv g m q out \<longleftrightarrow>
     map fst m = map fst (initial_indegree g)
     \<and> (\<forall>v. bt_get m v = (if v \<in> dep_nodes g then Some (card (preds g v - set out)) else None))
     \<and> distinct (out @ q)
     \<and> set q = {v \<in> dep_nodes g. preds g v \<subseteq> set out} - set out
     \<and> set out \<subseteq> dep_nodes g
     \<and> linear_extension (dep_edges g) out"

lemma kahn_inv_init:
  assumes ok: "graph_ok g"
  shows "kahn_inv g (initial_indegree g) (map fst (filter (\<lambda>(k, v). v = 0) (initial_indegree g))) []"
proof -
  let ?m = "initial_indegree g"
  have m: "bt_ok ?m" by (rule initial_indegree_ok [OF ok])
  have "v \<in> set (map fst (filter (\<lambda>(k, v). v = 0) ?m)) \<longleftrightarrow> bt_get ?m v = Some 0" for v
    by (force simp: bt_get_eq_Some_iff [OF m])
  then have "set (map fst (filter (\<lambda>(k, v). v = 0) ?m)) = {v. bt_get ?m v = Some 0}" by blast
  also have "\<dots> = {v \<in> dep_nodes g. preds g v \<subseteq> {}}"
    by (auto simp: initial_indegree_get [OF ok] split: if_splits)
  finally have "set (map fst (filter (\<lambda>(k, v). v = 0) ?m)) = {v \<in> dep_nodes g. preds g v \<subseteq> {}}" .
  moreover have "distinct (map fst (filter (\<lambda>(k, v). v = 0) ?m))"
    using bt_ok_distinct [OF m] by (rule distinct_map_filter)
  ultimately show ?thesis
    by (simp add: kahn_inv_def initial_indegree_get [OF ok])
qed

lemma card_preds_step:
  assumes "x \<notin> set out"
  shows "card (preds g v - set (out @ [x])) =
    card (preds g v - set out) - (if (x, v) \<in> dep_edges g then 1 else 0)"
proof -
  have "preds g v - set (out @ [x]) = (preds g v - set out) - {x}" by auto
  then show ?thesis using assms by (simp add: card_Diff_singleton_if)
qed

lemma card_preds_1:
  assumes "x \<notin> set out" "(x, v) \<in> dep_edges g"
  shows "card (preds g v - set out) = Suc 0 \<longleftrightarrow> preds g v \<subseteq> set (out @ [x])"
proof -
  have x: "x \<in> preds g v - set out" using assms by auto
  have "card (preds g v - set out) = Suc 0 \<longleftrightarrow> preds g v - set out = {x}"
    using x by (metis One_nat_def card_1_singletonE is_singletonI is_singleton_altdef singletonD)
  also have "\<dots> \<longleftrightarrow> preds g v \<subseteq> set (out @ [x])"
    using x by auto
  finally show ?thesis .
qed

text \<open>
  Processing a ready node \<open>x\<close>: the nodes that become ready are those for which \<open>x\<close> was the
  last missing predecessor.
\<close>

lemma ready_step:
  assumes Q: "insert x Q = {v \<in> N. P v \<subseteq> S} - S" "x \<notin> Q" and S: "\<And>v. v \<in> S \<Longrightarrow> P v \<subseteq> S"
    and new: "New = {v \<in> N. x \<in> P v \<and> P v \<subseteq> insert x S}"
  shows "New \<inter> insert x (S \<union> Q) = {}" "Q \<union> New = {v \<in> N. P v \<subseteq> insert x S} - insert x S"
proof -
  have x: "x \<notin> S" "P x \<subseteq> S" and sub: "\<And>v. v \<in> Q \<Longrightarrow> P v \<subseteq> S" using Q by blast+
  have "\<not> P v \<subseteq> S" if "v \<in> New" for v using that x new by blast
  then show dis: "New \<inter> insert x (S \<union> Q) = {}" using S x(2) sub by blast
  have "v \<in> Q \<union> New \<longleftrightarrow> v \<in> {v \<in> N. P v \<subseteq> insert x S} - insert x S" for v
  proof (cases "x \<in> P v")
    case True
    then have "v \<notin> Q" "v \<noteq> x" using x sub by blast+
    then show ?thesis using True new dis by blast
  next
    case False
    then have "P v \<subseteq> insert x S \<longleftrightarrow> P v \<subseteq> S" by blast
    then have "v \<in> {v \<in> N. P v \<subseteq> insert x S} - insert x S \<longleftrightarrow> v \<in> insert x Q \<and> v \<noteq> x"
      unfolding Q(1) by blast
    then show ?thesis using False new Q(2) by blast
  qed
  then show "Q \<union> New = {v \<in> N. P v \<subseteq> insert x S} - insert x S" by blast
qed

lemma linear_extension_closed:
  assumes "linear_extension r xs" "v \<in> set xs"
  shows "r\<inverse> `` {v} \<subseteq> set xs"
proof -
  obtain ys zs where "xs = ys @ v # zs" using split_list [OF assms(2)] by blast
  then show ?thesis using assms(1) unfolding linear_extension_def by fastforce
qed

lemma kahn_inv_step:
  assumes ok: "graph_ok g" and inv: "kahn_inv g m (x # q) out" and ts: "bt_get (forward g) x = Some ts"
  shows "\<exists>m' q'. kahn_visit ts m q = Ok (m', q') \<and> kahn_inv g m' q' (out @ [x])"
proof -
  have x: "x \<notin> set out" "x \<in> dep_nodes g" "preds g x \<subseteq> set out"
    and get: "\<And>v. bt_get m v = (if v \<in> dep_nodes g then Some (card (preds g v - set out)) else None)"
    and q: "insert x (set q) = {v \<in> dep_nodes g. preds g v \<subseteq> set out} - set out"
    using inv by (auto simp: kahn_inv_def)
  have edge: "(x, v) \<in> dep_edges g \<longleftrightarrow> v \<in> set ts" for v
    using ts by (auto simp: dep_edges_def)
  have node: "v \<in> dep_nodes g" if "v \<in> set ts" for v
    using that edge dep_edges_nodes by blast
  have "\<exists>n. bt_get m y = Some (Suc n)" if "y \<in> set ts" for y
  proof -
    have "x \<in> preds g y - set out" using that edge x by auto
    then have "card (preds g y - set out) > 0" by (auto simp: card_gt_0_iff)
    then show ?thesis using that node get by (auto simp: gr0_conv_Suc)
  qed
  moreover have "distinct ts" using graph_okD(3) [OF ok ts] by (rule bs_ok_distinct)
  ultimately obtain m' where
      m': "kahn_visit ts m q = Ok (m', q @ filter (\<lambda>y. bt_get m y = Some 1) ts)"
      "map fst m' = map fst m"
      "\<forall>v. bt_get m' v = (if v \<in> set ts then map_option (\<lambda>n. n - 1) (bt_get m v) else bt_get m v)"
    using kahn_visit_Ok [of ts m q] by blast
  let ?new = "filter (\<lambda>y. bt_get m y = Some 1) ts"
  have new: "set ?new = {v \<in> dep_nodes g. (x, v) \<in> dep_edges g \<and> preds g v \<subseteq> set (out @ [x])}"
    using get node edge card_preds_1 [OF x(1)] by auto
  have dist: "distinct (out @ x # q)" and ext: "linear_extension (dep_edges g) out"
    using inv by (simp_all add: kahn_inv_def)
  note ready = ready_step [OF q, of "set ?new", OF _ linear_extension_closed [OF ext]]
  have "set ?new = {v \<in> dep_nodes g. x \<in> preds g v \<and> preds g v \<subseteq> insert x (set out)}"
    using new by simp
  note ready = ready [OF _ _ this]
  have "kahn_inv g m' (q @ ?new) (out @ [x])"
    unfolding kahn_inv_def
  proof (intro conjI allI)
    show "map fst m' = map fst (initial_indegree g)" using inv m' by (simp add: kahn_inv_def)
    show "bt_get m' v = (if v \<in> dep_nodes g then Some (card (preds g v - set (out @ [x]))) else None)" for v
      using m'(3) get [of v] node [of v] edge [of v] card_preds_step [OF x(1), of g v] by auto
    show "distinct ((out @ [x]) @ q @ ?new)"
      using dist distinct_filter [OF \<open>distinct ts\<close>, of "\<lambda>y. bt_get m y = Some 1"] ready(1) by auto
    show "set (q @ ?new) = {v \<in> dep_nodes g. preds g v \<subseteq> set (out @ [x])} - set (out @ [x])"
      using ready(2) dist by simp
    show "set (out @ [x]) \<subseteq> dep_nodes g" using inv x by (simp add: kahn_inv_def)
    show "linear_extension (dep_edges g) (out @ [x])"
      using ext x by (simp add: linear_extension_snoc)
  qed
  with m'(1) show ?thesis by blast
qed

lemma kahn_inv_step_None:
  assumes "kahn_inv g m (x # q) out" "bt_get (forward g) x = None"
  shows "kahn_inv g m q (out @ [x])"
proof -
  have "preds g v - set (out @ [x]) = preds g v - set out" for v
    using assms(2) by (auto simp: dep_edges_def)
  moreover have "preds g v \<subseteq> set (out @ [x]) \<longleftrightarrow> preds g v \<subseteq> set out" for v
    using assms(2) by (auto simp: dep_edges_def)
  ultimately show ?thesis
    using assms(1) by (auto simp: kahn_inv_def linear_extension_snoc)
qed

lemma kahn_loop_inv:
  "graph_ok g \<Longrightarrow> kahn_inv g m q out \<Longrightarrow> \<exists>m' out'. kahn_loop g m q out = Ok (m', out') \<and> kahn_inv g m' [] out'"
proof (induction g m q out rule: kahn_loop.induct)
  case (1 g m out)
  then show ?case by simp
next
  case (2 g m x q out)
  show ?case
  proof (cases "bt_get (forward g) x")
    case None
    then show ?thesis
      using "2.IH"(1) [OF None "2.prems"(1)] kahn_inv_step_None [OF "2.prems"(2) None] by simp
  next
    case (Some ts)
    obtain m' q' where step: "kahn_visit ts m q = Ok (m', q')" "kahn_inv g m' q' (out @ [x])"
      using kahn_inv_step [OF "2.prems" Some] by blast
    then show ?thesis using "2.IH"(2) [OF Some step(1) "2.prems"(1)] Some by simp
  qed
qed

section \<open>The result\<close>

lemma linear_extension_acyclic:
  assumes "linear_extension r xs" "Range r \<subseteq> set xs" "distinct xs"
  shows "acyclic r"
  using assms
proof (induction xs arbitrary: r rule: rev_induct)
  case Nil
  then have "r = {}" by auto
  then show ?case by (simp add: acyclic_def)
next
  case (snoc x xs)
  let ?r = "{(u, v) \<in> r. v \<noteq> x}"
  have "acyclic ?r"
  proof (rule snoc.IH)
    show "linear_extension ?r xs"
      using snoc.prems(1) by (auto simp: linear_extension_snoc linear_extension_def) blast
    show "Range ?r \<subseteq> set xs" using snoc.prems(2) by auto
    show "distinct xs" using snoc.prems(3) by simp
  qed
  have pred: "u \<in> set xs" if "(u, v) \<in> r" for u v
  proof (cases "v = x")
    case True
    then show ?thesis using that snoc.prems(1) by (auto simp: linear_extension_snoc)
  next
    case False
    then have "v \<in> set xs" using that snoc.prems(2) by auto
    then show ?thesis
      using that snoc.prems(1) by (auto simp: linear_extension_snoc linear_extension_def dest!: split_list) fastforce
  qed
  have last: "(x, v) \<notin> r" for v using pred snoc.prems(3) by auto
  have "(a, b) \<in> r\<^sup>+ \<Longrightarrow> a \<noteq> x \<and> (b \<noteq> x \<longrightarrow> (a, b) \<in> ?r\<^sup>+)" for a b
    by (induction rule: trancl_induct)
      (use last in \<open>auto intro: trancl.trancl_into_trancl trancl.r_into_trancl\<close>)
  with \<open>acyclic ?r\<close> show ?case by (auto simp: acyclic_def)
qed

lemma no_source_not_acyclic:
  assumes "finite S" "S \<noteq> {}" "\<And>v. v \<in> S \<Longrightarrow> \<exists>u \<in> S. (u, v) \<in> r"
  shows "\<not> acyclic r"
proof
  let ?r = "r \<inter> S \<times> S"
  assume "acyclic r"
  then have "acyclic ?r" by (rule acyclic_subset) auto
  then have "wf ?r" using assms(1) by (intro finite_acyclic_wf) (auto intro: finite_subset)
  then obtain z where "z \<in> S" "\<And>y. (y, z) \<in> ?r \<Longrightarrow> y \<notin> S"
    using assms(2) by (metis wfE_min ex_in_conv)
  with assms(3) show False by blast
qed

lemma topological_order_cases:
  assumes ok: "graph_ok g"
  obtains (order) out where "topological_order g = Ok out" "distinct out" "set out = dep_nodes g"
      "linear_extension (dep_edges g) out"
  | (cycle) ns where "topological_order g = Err (Cycle ns)" "ns \<noteq> []" "bs_ok ns"
      "set ns \<subseteq> dep_nodes g" "\<And>v. v \<in> set ns \<Longrightarrow> \<exists>u \<in> set ns. (u, v) \<in> dep_edges g"
proof -
  let ?m0 = "initial_indegree g"
  obtain m out where loop: "kahn_loop g ?m0 (map fst (filter (\<lambda>(k, v). v = 0) ?m0)) [] = Ok (m, out)"
      and inv: "kahn_inv g m [] out"
    using kahn_loop_inv [OF ok kahn_inv_init [OF ok]] by blast
  have m: "bt_ok m" using inv initial_indegree_ok [OF ok] by (simp add: kahn_inv_def bt_ok_def)
  have get: "\<And>v. bt_get m v = (if v \<in> dep_nodes g then Some (card (preds g v - set out)) else None)"
    and ready: "\<And>v. v \<in> dep_nodes g \<Longrightarrow> preds g v \<subseteq> set out \<Longrightarrow> v \<in> set out"
    and out: "distinct out" "set out \<subseteq> dep_nodes g" "linear_extension (dep_edges g) out"
    using inv by (auto simp: kahn_inv_def)
  have "fst ` set m = dep_nodes g"
    using get by (metis (full_types) bt_get_None_iff option.distinct(1) subset_antisym subsetI)
  then have len: "length m = card (dep_nodes g)"
    by (metis bt_ok_distinct distinct_card length_map m set_map)
  let ?ns = "map fst (filter (\<lambda>(k, v). v > 0) m)"
  have mem: "v \<in> set ?ns \<longleftrightarrow> v \<in> dep_nodes g \<and> \<not> preds g v \<subseteq> set out" for v
  proof -
    have "v \<in> set ?ns \<longleftrightarrow> (\<exists>n. bt_get m v = Some n \<and> n > 0)"
      by (force simp: bt_get_eq_Some_iff [OF m])
    also have "\<dots> \<longleftrightarrow> v \<in> dep_nodes g \<and> \<not> preds g v \<subseteq> set out"
      using get by (auto simp: card_gt_0_iff)
    finally show ?thesis .
  qed
  have result: "topological_order g = (if length out \<noteq> length m then Err (Cycle ?ns) else Ok out)"
    using loop by (simp add: topological_order_def Let_def)
  show thesis
  proof (cases "length out = length m")
    case True
    then have "set out = dep_nodes g"
      using out len by (metis card_subset_eq distinct_card finite_dep_nodes)
    with True order result out show thesis by simp
  next
    case False
    have "set out \<noteq> dep_nodes g" using False len out(1) by (metis distinct_card)
    then obtain v where "v \<in> dep_nodes g" "v \<notin> set out" using out(2) by auto
    then have "v \<in> set ?ns" using mem ready by auto
    then have ne: "?ns \<noteq> []" by (metis empty_iff empty_set)
    have "\<exists>u \<in> set ?ns. (u, v) \<in> dep_edges g" if "v \<in> set ?ns" for v
    proof -
      have "\<not> preds g v \<subseteq> set out" using that mem by blast
      then obtain u where u: "(u, v) \<in> dep_edges g" "u \<notin> set out" by blast
      then have "u \<in> set ?ns" using mem ready dep_edges_nodes by blast
      then show ?thesis using u by blast
    qed
    moreover have "bs_ok ?ns"
      using m unfolding bs_ok_def bt_ok_def sorted_wrt_map by (rule sorted_wrt_filter)
    moreover have "set ?ns \<subseteq> dep_nodes g" using mem by blast
    ultimately show thesis using cycle [of ?ns] result False ne by simp
  qed
qed

lemma topological_order_Ok:
  assumes "graph_ok g" "topological_order g = Ok order"
  shows "distinct order" "set order = dep_nodes g" "linear_extension (dep_edges g) order"
    "acyclic (dep_edges g)"
proof -
  show *: "distinct order" "set order = dep_nodes g" "linear_extension (dep_edges g) order"
    using assms by (cases rule: topological_order_cases; simp)+
  show "acyclic (dep_edges g)"
    by (rule linear_extension_acyclic [OF *(3) _ *(1)]) (auto simp: *(2) dest: dep_edges_nodes)
qed

lemma topological_order_Err:
  assumes "graph_ok g" "topological_order g = Err e"
  shows "\<exists>ns. e = Cycle ns \<and> ns \<noteq> [] \<and> bs_ok ns \<and> set ns \<subseteq> dep_nodes g
      \<and> (\<forall>v \<in> set ns. \<exists>u \<in> set ns. (u, v) \<in> dep_edges g)"
    "\<not> acyclic (dep_edges g)"
proof -
  from assms obtain ns where ns: "e = Cycle ns" "ns \<noteq> []" "bs_ok ns" "set ns \<subseteq> dep_nodes g"
      "\<And>v. v \<in> set ns \<Longrightarrow> \<exists>u \<in> set ns. (u, v) \<in> dep_edges g"
    by (cases rule: topological_order_cases) auto
  show "\<not> acyclic (dep_edges g)"
    by (rule no_source_not_acyclic [of "set ns"]) (use ns in auto)
  show "\<exists>ns. e = Cycle ns \<and> ns \<noteq> [] \<and> bs_ok ns \<and> set ns \<subseteq> dep_nodes g
      \<and> (\<forall>v \<in> set ns. \<exists>u \<in> set ns. (u, v) \<in> dep_edges g)"
    using ns by blast
qed

lemma topological_order_no_panic: "graph_ok g \<Longrightarrow> topological_order g \<noteq> Panicked"
  by (cases rule: topological_order_cases) auto

section \<open>Properties\<close>

text \<open>
  C10: On every graph whose containers are ordered, \<open>topological_order\<close> terminates without
  an arithmetic panic. If it returns an order, that order lists every node exactly once and
  after all of its predecessors, and the graph is acyclic. Otherwise the graph is cyclic and
  the error carries a non-empty ascending list of nodes each of which has a predecessor in the
  list.
\<close>

theorem topological_order_correct:
  assumes "graph_ok g"
  shows "case topological_order g of
      Ok order \<Rightarrow> distinct order \<and> set order = dep_nodes g
        \<and> linear_extension (dep_edges g) order \<and> acyclic (dep_edges g)
    | Err e \<Rightarrow> \<not> acyclic (dep_edges g) \<and>
        (\<exists>ns. e = Cycle ns \<and> ns \<noteq> [] \<and> bs_ok ns \<and> set ns \<subseteq> dep_nodes g
           \<and> (\<forall>v \<in> set ns. \<exists>u \<in> set ns. (u, v) \<in> dep_edges g))
    | Panicked \<Rightarrow> False"
  using topological_order_Ok [OF assms] topological_order_Err [OF assms]
    topological_order_no_panic [OF assms]
  by (cases "topological_order g") simp_all

definition diamond :: "nat dependency_graph" where
  "diamond = graph_run SoundOverapproximation
     [AddDependency 1 2, AddDependencyKinded 1 3 Build, AddDependency 2 4, AddDependency 3 4]"

definition diamond_loop :: "nat dependency_graph" where
  "diamond_loop = add_dependency 4 2 diamond"

theorem topological_order_correct_witness:
  "graph_ok diamond \<and> topological_order diamond = Ok [1, 2, 3, 4] \<and> acyclic (dep_edges diamond)
    \<and> graph_ok diamond_loop \<and> topological_order diamond_loop = Err (Cycle [2, 4])
    \<and> \<not> acyclic (dep_edges diamond_loop)"
proof -
  have ok: "graph_ok diamond" "graph_ok diamond_loop" by code_simp+
  have run: "topological_order diamond = Ok [1, 2, 3, 4]"
    "topological_order diamond_loop = Err (Cycle [2, 4])" by code_simp+
  show ?thesis
    using topological_order_correct [OF ok(1)] topological_order_correct [OF ok(2)] ok run by simp
qed

text \<open>
  C12: Every graph built by the construction operations, in any order, has ordered
  containers, lists every edge target as a node, declares kinds only for edges, and has
  exactly the edges that were added.
\<close>

theorem graph_construction:
  "graph_closed (graph_run c ops) \<and> dep_edges (graph_run c ops) = (\<Union>op \<in> set ops. op_edges op)"
  by (simp only: graph_closed_run dep_edges_run simp_thms)

text \<open>
  C11: The certified invalidation set is exactly the set of artifacts reachable from the
  changed ones, so it contains every artifact a change can influence and no other.
\<close>

theorem certified_closure_is_reachability:
  "set (invalidated (certify_invalidation g changed)) = (dep_edges g)\<^sup>* `` set changed
    \<and> is_upward_closure (certify_invalidation g changed)"
  by (simp add: certify_invalidation_def set_upward_closure)

end
