(* ===== verification/Recompute_Correct.thy ===== *)
theory Recompute_Correct
  imports Recompute Topological_Order
begin

text \<open>
  Correctness of the recompute engine (graphzero-core/src/invalidation.rs). Under the
  declared-support hypothesis (a producer reads only artifacts with an edge to it, the
  meaning the code gives to the protected influence classes) a successful full rebuild is
  the unique consistent state, the incremental pass computes the same state, and the
  cutoff only skips producers whose value cannot have changed.
\<close>

section \<open>Containers\<close>

lemma bt_get_Cons: "bt_get (e # es) k = (if k = fst e then Some (snd e) else bt_get es k)"
  by (simp add: bt_get_def)

lemma bt_get_extend:
  assumes "bt_ok changes"
  shows "bt_get (bt_extend m changes) k =
    (case bt_get changes k of None \<Rightarrow> bt_get m k | Some v \<Rightarrow> Some v)"
proof -
  have "distinct (map fst changes) \<Longrightarrow> bt_get (foldl (\<lambda>m (k, v). bt_insert k v m) m changes) k =
      (case bt_get changes k of None \<Rightarrow> bt_get m k | Some v \<Rightarrow> Some v)"
  proof (induction changes arbitrary: m)
    case Nil
    then show ?case by simp
  next
    case (Cons e es)
    have "bt_get es (fst e) = None" using Cons.prems by (simp add: bt_get_None_iff)
    with Cons show ?case
      by (cases e) (auto simp: bt_get_Cons split: option.splits)
  qed
  with bt_ok_distinct [OF assms] show ?thesis by (simp add: bt_extend_def)
qed

lemma bt_ok_extend: "bt_ok m \<Longrightarrow> bt_ok (bt_extend m changes)"
  unfolding bt_extend_def by (induction changes arbitrary: m) auto

abbreviation opt_set :: "'a list option \<Rightarrow> 'a set" where
  "opt_set x \<equiv> (case x of None \<Rightarrow> {} | Some us \<Rightarrow> set us)"

lemma opt_set_inner:
  "opt_set (bt_get (foldl (\<lambda>m v. bt_entry_update v [] (bs_insert u) m) m ts) v) =
     opt_set (bt_get m v) \<union> (if v \<in> set ts then {u} else {})"
  by (induction ts arbitrary: m) (auto split: option.splits)

lemma opt_set_outer:
  "opt_set (bt_get (foldl (\<lambda>m (u, ts). foldl (\<lambda>m v. bt_entry_update v [] (bs_insert u) m) m ts) m es) v) =
     opt_set (bt_get m v) \<union> {u. \<exists>ts. (u, ts) \<in> set es \<and> v \<in> set ts}"
proof (induction es arbitrary: m)
  case Nil
  then show ?case by simp
next
  case (Cons e es)
  then show ?case by (cases e) (auto simp: opt_set_inner)
qed

lemma pred_map_set:
  assumes "graph_ok g"
  shows "opt_set (bt_get (pred_map g) v) = preds g v"
  using bt_get_eq_Some_iff [OF graph_okD(1) [OF assms]]
  by (auto simp: pred_map_def opt_set_outer dep_edges_def)

lemma opt_list_ex: "(case x of None \<Rightarrow> False | Some us \<Rightarrow> list_ex P us) \<longleftrightarrow> (\<exists>p \<in> opt_set x. P p)"
  by (simp add: list_ex_iff split: option.splits)

section \<open>Consistent states\<close>

definition engine_ok :: "'a :: linorder recompute_engine \<Rightarrow> bool" where
  "engine_ok e \<longleftrightarrow> graph_ok (eng_graph e) \<and> bt_ok (producers e)
     \<and> fst ` set (producers e) \<subseteq> dep_nodes (eng_graph e)"

text \<open>
  The hypothesis on the registered closures: a producer's value is determined by the
  artifacts with an edge to it.
\<close>

definition declared_support :: "'a :: linorder recompute_engine \<Rightarrow> bool" where
  "declared_support e \<longleftrightarrow>
     (\<forall>i f s s'. bt_get (producers e) i = Some f \<longrightarrow> bt_ok s \<longrightarrow> bt_ok s' \<longrightarrow>
        (\<forall>u. (u, i) \<in> dep_edges (eng_graph e) \<longrightarrow> bt_get s u = bt_get s' u) \<longrightarrow> f s = f s')"

text \<open>
  A state is consistent on a set of producers: each of them holds the value its producer
  computes from that state, and every other artifact holds its input.
\<close>

definition consistent_on ::
  "'a :: linorder recompute_engine \<Rightarrow> 'a artifact_state \<Rightarrow> 'a set \<Rightarrow> 'a artifact_state \<Rightarrow> bool" where
  "consistent_on e inputs S s \<longleftrightarrow> bt_ok s
     \<and> (\<forall>k. bt_get (producers e) k = None \<longrightarrow> bt_get s k = bt_get inputs k)
     \<and> (\<forall>k f. k \<in> S \<longrightarrow> bt_get (producers e) k = Some f \<longrightarrow> f s \<noteq> None \<and> bt_get s k = f s)"

abbreviation consistent :: "'a :: linorder recompute_engine \<Rightarrow> 'a artifact_state \<Rightarrow> 'a artifact_state \<Rightarrow> bool" where
  "consistent e inputs \<equiv> consistent_on e inputs UNIV"

lemma declared_supportD:
  "declared_support e \<Longrightarrow> bt_get (producers e) i = Some f \<Longrightarrow> bt_ok s \<Longrightarrow> bt_ok s' \<Longrightarrow>
     (\<And>u. (u, i) \<in> dep_edges (eng_graph e) \<Longrightarrow> bt_get s u = bt_get s' u) \<Longrightarrow> f s = f s'"
  unfolding declared_support_def by blast

lemma consistent_onD:
  assumes "consistent_on e inputs S s"
  shows "bt_ok s" "bt_get (producers e) k = None \<Longrightarrow> bt_get s k = bt_get inputs k"
    "k \<in> S \<Longrightarrow> bt_get (producers e) k = Some f \<Longrightarrow> f s = bt_get s k"
    "k \<in> S \<Longrightarrow> bt_get (producers e) k = Some f \<Longrightarrow> bt_get s k \<noteq> None"
  using assms unfolding consistent_on_def by metis+

lemma consistent_on_mono:
  assumes s: "consistent_on e inputs S s"
    and sub: "\<And>k. k \<in> T \<Longrightarrow> k \<in> fst ` set (producers e) \<Longrightarrow> k \<in> S"
  shows "consistent_on e inputs T s"
  unfolding consistent_on_def
proof (intro conjI allI impI)
  fix k f
  assume k: "k \<in> T" "bt_get (producers e) k = Some f"
  then have "k \<in> S" using sub [of k] bt_get_None_iff [of "producers e" k] by auto
  then show "f s \<noteq> None" "bt_get s k = f s"
    using consistent_onD(3) [OF s _ k(2)] consistent_onD(4) [OF s _ k(2)] by auto
qed (use consistent_onD(1,2) [OF s] in auto)

text \<open>
  A schedule lists producers so that a producer follows the producers it depends on.
\<close>

definition schedule_ok :: "'a :: linorder recompute_engine \<Rightarrow> 'a list \<Rightarrow> bool" where
  "schedule_ok e xs \<longleftrightarrow> distinct xs \<and>
     (\<forall>ys v zs. xs = ys @ v # zs \<longrightarrow>
        (\<forall>u. (u, v) \<in> dep_edges (eng_graph e) \<longrightarrow> bt_get (producers e) u \<noteq> None \<longrightarrow> u \<in> set ys))"

lemma schedule_ok_prefix: "schedule_ok e (xs @ ys) \<Longrightarrow> schedule_ok e xs"
  unfolding schedule_ok_def by auto

lemma schedule_ok_pred:
  "schedule_ok e (ys @ v # zs) \<Longrightarrow> (u, v) \<in> dep_edges (eng_graph e) \<Longrightarrow>
     bt_get (producers e) u \<noteq> None \<Longrightarrow> u \<in> set ys"
  unfolding schedule_ok_def by blast

lemma consistent_on_agree:
  assumes sup: "declared_support e"
    and s: "consistent_on e inputs S s" "consistent_on e inputs T t"
  shows "schedule_ok e ys \<Longrightarrow> set ys \<subseteq> S \<inter> T \<inter> fst ` set (producers e) \<Longrightarrow>
    k \<in> set ys \<Longrightarrow> bt_get s k = bt_get t k"
proof (induction ys arbitrary: k rule: rev_induct)
  case Nil
  then show ?case by simp
next
  case (snoc x ys)
  have IH: "bt_get s k = bt_get t k" if "k \<in> set ys" for k
    using snoc.IH [OF schedule_ok_prefix [OF snoc.prems(1)]] snoc.prems(2) that by simp
  obtain f where f: "bt_get (producers e) x = Some f"
    using snoc.prems(2) bt_get_None_iff [of "producers e" x] by auto
  have "f s = f t"
  proof (rule declared_supportD [OF sup f])
    fix u
    assume u: "(u, x) \<in> dep_edges (eng_graph e)"
    show "bt_get s u = bt_get t u"
    proof (cases "bt_get (producers e) u")
      case None
      then show ?thesis using consistent_onD(2) [OF s(1)] consistent_onD(2) [OF s(2)] by simp
    next
      case (Some h)
      then show ?thesis using IH schedule_ok_pred [OF snoc.prems(1) u] by simp
    qed
  qed (use s consistent_onD(1) in blast)+
  then have "bt_get s x = bt_get t x"
    using consistent_onD(3) [OF s(1) _ f] consistent_onD(3) [OF s(2) _ f] snoc.prems(2) by simp
  with IH snoc.prems(3) show ?case by auto
qed

lemma consistent_unique:
  assumes "declared_support e" "schedule_ok e xs" "set xs = fst ` set (producers e)"
    and "consistent e inputs s" "consistent e inputs t"
  shows "s = t"
proof -
  have "bt_get s k = bt_get t k" for k
  proof (cases "bt_get (producers e) k")
    case None
    then show ?thesis using assms(4,5) consistent_onD(2) by metis
  next
    case (Some f)
    then have "k \<in> set xs" using assms(3) bt_get_None_iff [of "producers e" k] by auto
    then show ?thesis using consistent_on_agree [OF assms(1,4,5,2)] assms(3) by simp
  qed
  then show ?thesis
    using btm.entries_determined [of s t] assms(4,5) consistent_onD(1) by blast
qed

section \<open>The full rebuild\<close>

text \<open>
  A producer that failed while none of the producers it reads was pending can never run:
  nothing it reads changes any more.
\<close>

definition stuck :: "'a :: linorder recompute_engine \<Rightarrow> 'a full_st \<Rightarrow> bool" where
  "stuck e st \<longleftrightarrow> bt_ok (full_state st) \<and>
     (\<exists>q f. q \<in> set (pending st) \<and> bt_get (producers e) q = Some f \<and> f (full_state st) = None
       \<and> preds (eng_graph e) q \<inter> set (pending st) = {})"

lemma full_step_cases:
  assumes "full_step e i st = Ok st'"
  obtains (same) "st' = st"
  | (ran) h v where "i \<in> set (pending st)" "bt_get (producers e) i = Some h" "h (full_state st) = Some v"
      "st' = \<lparr>full_state = bt_insert i v (full_state st),
             full_recomputed = bs_insert i (full_recomputed st),
             pending = bs_remove i (pending st), progressed = True\<rparr>"
proof (cases "i \<in> set (pending st)")
  case False
  then show thesis using assms same by (simp add: full_step_def)
next
  case True
  then obtain h where h: "bt_get (producers e) i = Some h"
    using assms by (cases "bt_get (producers e) i") (simp_all add: full_step_def)
  show thesis
  proof (cases "h (full_state st)")
    case None
    then show thesis using assms same True h by (simp add: full_step_def)
  next
    case (Some v)
    then show thesis using assms ran [OF True h Some] True h by (simp add: full_step_def)
  qed
qed

lemma full_step_stuck:
  assumes sup: "declared_support e" and "stuck e st" "full_step e i st = Ok st'"
  shows "stuck e st'"
proof -
  obtain q f where q: "q \<in> set (pending st)" "bt_get (producers e) q = Some f"
      "f (full_state st) = None" "preds (eng_graph e) q \<inter> set (pending st) = {}"
    and ok: "bt_ok (full_state st)"
    using assms(2) by (auto simp: stuck_def)
  from assms(3) show ?thesis
  proof (cases rule: full_step_cases)
    case same
    then show ?thesis using assms(2) by simp
  next
    case (ran h v)
    have "i \<noteq> q" using ran q by auto
    have "f (bt_insert i v (full_state st)) = f (full_state st)"
      by (rule declared_supportD [OF sup q(2)]) (use ran q ok in auto)
    then show ?thesis
      using ran q ok \<open>i \<noteq> q\<close> unfolding stuck_def by (intro conjI exI [of _ q] exI [of _ f]) auto
  qed
qed

lemma full_pass_stuck:
  "declared_support e \<Longrightarrow> stuck e st \<Longrightarrow> full_pass e is st = Ok st' \<Longrightarrow> stuck e st'"
  by (induction "is" arbitrary: st) (auto dest: full_step_stuck)

lemma full_loop_stuck:
  "declared_support e \<Longrightarrow> stuck e st \<Longrightarrow> full_loop e schedule n st \<noteq> Ok r"
proof (induction n arbitrary: st)
  case 0
  then show ?case by (auto simp: stuck_def split: list.splits)
next
  case (Suc n)
  have "stuck e (st\<lparr>progressed := False\<rparr>)" using Suc.prems(2) by (simp add: stuck_def)
  then have "stuck e st'" if "full_pass e schedule (st\<lparr>progressed := False\<rparr>) = Ok st'" for st'
    using full_pass_stuck [OF Suc.prems(1)] that by blast
  moreover have "pending st \<noteq> []" using Suc.prems(2) by (auto simp: stuck_def)
  ultimately show ?case
    using Suc.IH [OF Suc.prems(1)] by (auto split: list.splits)
qed

text \<open>The first pass, while every producer of the prefix has run.\<close>

definition pass_inv ::
  "'a :: linorder recompute_engine \<Rightarrow> 'a artifact_state \<Rightarrow> 'a list \<Rightarrow> 'a full_st \<Rightarrow> bool" where
  "pass_inv e inputs ys st \<longleftrightarrow> consistent_on e inputs (set ys) (full_state st)
     \<and> bs_ok (pending st) \<and> set (pending st) = fst ` set (producers e) - set ys
     \<and> bs_ok (full_recomputed st) \<and> set (full_recomputed st) = set ys"

lemma schedule_ok_irrefl:
  assumes "schedule_ok e (ys @ x # zs)" "bt_get (producers e) x \<noteq> None"
  shows "(x, x) \<notin> dep_edges (eng_graph e)" "k \<in> set ys \<Longrightarrow> (x, k) \<notin> dep_edges (eng_graph e)"
proof -
  have dist: "distinct (ys @ x # zs)" using assms(1) by (simp add: schedule_ok_def)
  show "(x, x) \<notin> dep_edges (eng_graph e)" using schedule_ok_pred [OF assms(1)] assms(2) dist by auto
  show "(x, k) \<notin> dep_edges (eng_graph e)" if k: "k \<in> set ys"
  proof
    assume "(x, k) \<in> dep_edges (eng_graph e)"
    moreover obtain as bs where "ys = as @ k # bs" using split_list [OF k] by blast
    ultimately have "x \<in> set as"
      using schedule_ok_pred [of e as k "bs @ x # zs" x] assms by simp
    then show False using dist \<open>ys = as @ k # bs\<close> by auto
  qed
qed

lemma consistent_on_insert:
  assumes sup: "declared_support e" and sch: "schedule_ok e (ys @ x # zs)"
    and s: "consistent_on e inputs (set ys) s" and f: "bt_get (producers e) x = Some f" "f s = Some v"
  shows "consistent_on e inputs (insert x (set ys)) (bt_insert x v s)"
proof -
  have x: "x \<notin> set ys" using sch by (simp add: schedule_ok_def)
  have ok: "bt_ok s" by (rule consistent_onD(1) [OF s])
  have same: "h (bt_insert x v s) = h s"
    if "bt_get (producers e) k = Some h" "k = x \<or> k \<in> set ys" for k h
    by (rule declared_supportD [OF sup that(1)])
      (use ok that schedule_ok_irrefl [OF sch] f(1) in auto)
  show ?thesis
    unfolding consistent_on_def
  proof (intro conjI allI impI)
    show "bt_ok (bt_insert x v s)" using ok by simp
    show "bt_get (bt_insert x v s) k = bt_get inputs k" if "bt_get (producers e) k = None" for k
      using that f(1) consistent_onD(2) [OF s that] by auto
    fix k h
    assume k: "k \<in> insert x (set ys)" "bt_get (producers e) k = Some h"
    then have same: "h (bt_insert x v s) = h s" using same by blast
    show "h (bt_insert x v s) \<noteq> None" "bt_get (bt_insert x v s) k = h (bt_insert x v s)"
      unfolding same using k f x consistent_onD(3,4) [OF s, of k h] by auto
  qed
qed

lemma stuck_intro:
  assumes inv: "pass_inv e inputs ys st" and sch: "schedule_ok e (ys @ x # zs)"
    and f: "bt_get (producers e) x = Some f" "f (full_state st) = None"
  shows "stuck e st"
proof -
  have x: "x \<notin> set ys" using sch by (simp add: schedule_ok_def)
  have "x \<in> set (pending st)"
    using inv x f(1) bt_get_None_iff [of "producers e" x] by (auto simp: pass_inv_def)
  moreover have "preds (eng_graph e) x \<inter> set (pending st) = {}"
  proof -
    have "u \<notin> set (pending st)" if "(u, x) \<in> dep_edges (eng_graph e)" for u
      using schedule_ok_pred [OF sch that] inv bt_get_None_iff [of "producers e" u]
      by (auto simp: pass_inv_def)
    then show ?thesis by blast
  qed
  ultimately show ?thesis
    using f inv consistent_onD(1) unfolding stuck_def pass_inv_def by blast
qed

lemma full_step_inv:
  assumes sup: "declared_support e" and sch: "schedule_ok e (ys @ x # zs)"
    and inv: "pass_inv e inputs ys st" and f: "bt_get (producers e) x = Some f" "f (full_state st) = Some v"
  shows "\<exists>st'. full_step e x st = Ok st' \<and> pass_inv e inputs (ys @ [x]) st' \<and> progressed st'"
proof -
  have x: "x \<notin> set ys" using sch by (simp add: schedule_ok_def)
  have "x \<in> set (pending st)"
    using inv x f(1) bt_get_None_iff [of "producers e" x] by (auto simp: pass_inv_def)
  then have "full_step e x st = Ok \<lparr>full_state = bt_insert x v (full_state st),
      full_recomputed = bs_insert x (full_recomputed st),
      pending = bs_remove x (pending st), progressed = True\<rparr>"
    using f by (simp add: full_step_def)
  moreover have "consistent_on e inputs (insert x (set ys)) (bt_insert x v (full_state st))"
    using consistent_on_insert [OF sup sch _ f] inv by (simp add: pass_inv_def)
  ultimately show ?thesis using inv by (auto simp: pass_inv_def)
qed

lemma full_step_None:
  "bt_get (producers e) x = Some f \<Longrightarrow> f (full_state st) = None \<Longrightarrow> full_step e x st = Ok st"
  by (simp add: full_step_def)

lemma producer_of_key: "x \<in> fst ` set (producers e) \<Longrightarrow> \<exists>f. bt_get (producers e) x = Some f"
  using bt_get_None_iff [of "producers e" x] by auto

lemma first_pass_sound:
  assumes sup: "declared_support e"
  shows "schedule_ok e (ys @ zs) \<Longrightarrow> set zs \<subseteq> fst ` set (producers e) \<Longrightarrow> pass_inv e inputs ys st \<Longrightarrow>
    full_pass e zs st = Ok st' \<Longrightarrow> pass_inv e inputs (ys @ zs) st' \<or> stuck e st'"
proof (induction zs arbitrary: ys st)
  case Nil
  then show ?case by simp
next
  case (Cons x zs)
  obtain f where f: "bt_get (producers e) x = Some f"
    using producer_of_key [of x e] Cons.prems(2) by auto
  show ?case
  proof (cases "f (full_state st)")
    case None
    then have "stuck e st" using stuck_intro [OF Cons.prems(3,1) f] by blast
    then show ?thesis using full_pass_stuck [OF sup _ Cons.prems(4)] by blast
  next
    case (Some v)
    obtain s1 where "full_step e x st = Ok s1" "pass_inv e inputs (ys @ [x]) s1"
      using full_step_inv [OF sup Cons.prems(1,3) f Some] by blast
    then show ?thesis using Cons.IH [of "ys @ [x]" s1] Cons.prems by simp
  qed
qed

lemma first_pass_complete:
  assumes sup: "declared_support e" and s: "consistent e inputs s"
  shows "schedule_ok e (ys @ zs) \<Longrightarrow> set (ys @ zs) \<subseteq> fst ` set (producers e) \<Longrightarrow> pass_inv e inputs ys st \<Longrightarrow>
    \<exists>st'. full_pass e zs st = Ok st' \<and> pass_inv e inputs (ys @ zs) st' \<and> (progressed st \<or> zs \<noteq> [] \<longrightarrow> progressed st')"
proof (induction zs arbitrary: ys st)
  case Nil
  then show ?case by simp
next
  case (Cons x zs)
  obtain f where f: "bt_get (producers e) x = Some f"
    using producer_of_key [of x e] Cons.prems(2) by auto
  have st: "consistent_on e inputs (set ys) (full_state st)"
    using Cons.prems(3) by (simp add: pass_inv_def)
  have "f (full_state st) = f s"
  proof (rule declared_supportD [OF sup f])
    fix u
    assume u: "(u, x) \<in> dep_edges (eng_graph e)"
    show "bt_get (full_state st) u = bt_get s u"
    proof (cases "bt_get (producers e) u")
      case None
      then show ?thesis using consistent_onD(2) [OF s] consistent_onD(2) [OF st] by simp
    next
      case (Some h)
      then have "u \<in> set ys" using schedule_ok_pred [OF Cons.prems(1) u] by simp
      then show ?thesis
        using consistent_on_agree [OF sup st s schedule_ok_prefix [OF Cons.prems(1)]] Cons.prems(2)
        by simp
    qed
  qed (use st s consistent_onD(1) in blast)+
  then obtain v where "f (full_state st) = Some v"
    using consistent_onD(3,4) [OF s _ f] by auto
  then obtain s1 where "full_step e x st = Ok s1" "pass_inv e inputs (ys @ [x]) s1" "progressed s1"
    using full_step_inv [OF sup Cons.prems(1,3) f] by blast
  then show ?case using Cons.IH [of "ys @ [x]" s1] Cons.prems by simp
qed

lemma foldl_append_absorb:
  "set ks \<subseteq> set xs \<Longrightarrow> foldl (\<lambda>sc i. if i \<in> set sc then sc else sc @ [i]) xs ks = xs"
  by (induction ks) auto

lemma filter_split:
  "filter P xs = ys @ v # zs \<Longrightarrow> \<exists>as bs. xs = as @ v # bs \<and> filter P as = ys"
proof (induction xs arbitrary: ys)
  case Nil
  then show ?case by simp
next
  case (Cons x xs)
  show ?case
  proof (cases "P x \<and> ys = []")
    case True
    then have "x # xs = [] @ v # xs" "filter P [] = ys" using Cons.prems by auto
    then show ?thesis by blast
  next
    case False
    then have "\<exists>as bs. xs = as @ v # bs \<and> filter P as = (if P x then tl ys else ys)"
      using Cons.prems by (intro Cons.IH) (auto simp: Cons_eq_append_conv)
    then obtain as bs where "xs = as @ v # bs" "filter P as = (if P x then tl ys else ys)" by blast
    then show ?thesis
      using False Cons.prems
      by (intro exI [of _ "x # as"] exI [of _ bs]) (auto simp: Cons_eq_append_conv)
  qed
qed

lemma schedule_of_order:
  assumes ok: "engine_ok e" and ext: "linear_extension (dep_edges (eng_graph e)) order"
    and "distinct order" "set order = dep_nodes (eng_graph e)"
  shows "schedule_ok e (full_schedule e order)" "set (full_schedule e order) = fst ` set (producers e)"
proof -
  let ?P = "\<lambda>i. i \<in> set (bt_keys (producers e))"
  have "set (filter ?P order) = fst ` set (producers e)"
    using assms by (auto simp: engine_ok_def set_bt_keys)
  then have sch: "full_schedule e order = filter ?P order"
    by (simp add: full_schedule_def foldl_append_absorb set_bt_keys)
  with \<open>set (filter ?P order) = fst ` set (producers e)\<close>
  show "set (full_schedule e order) = fst ` set (producers e)" by simp
  have "u \<in> set ys" if split: "filter ?P order = ys @ v # zs" and u: "(u, v) \<in> dep_edges (eng_graph e)"
      "bt_get (producers e) u \<noteq> None" for ys v zs u
  proof -
    obtain as bs where "order = as @ v # bs" "filter ?P as = ys"
      using filter_split [OF split] by blast
    moreover have "u \<in> set as"
      using ext u(1) \<open>order = as @ v # bs\<close> unfolding linear_extension_def by blast
    moreover have "?P u" using u(2) bt_get_None_iff [of "producers e" u] by (simp add: set_bt_keys)
    ultimately show ?thesis by auto
  qed
  then show "schedule_ok e (full_schedule e order)"
    using distinct_filter [OF assms(3), of ?P] unfolding schedule_ok_def sch by blast
qed

lemma full_pass_progress:
  "full_pass e is st = Ok st' \<Longrightarrow> progressed st' \<or> pending st' = pending st"
proof (induction "is" arbitrary: st)
  case (Cons i "is")
  then obtain s1 where s1: "full_step e i st = Ok s1" "full_pass e is s1 = Ok st'" by auto
  have mono: "full_pass e js a = Ok b \<Longrightarrow> progressed a \<Longrightarrow> progressed b" for js a b
  proof (induction js arbitrary: a)
    case (Cons j js)
    then obtain a1 where "full_step e j a = Ok a1" "full_pass e js a1 = Ok b" by auto
    then show ?case
      using Cons.IH [of a1] Cons.prems(2) by (cases rule: full_step_cases) auto
  qed simp
  from s1(1) show ?case
  proof (cases rule: full_step_cases)
    case same
    then show ?thesis using Cons.IH s1(2) by simp
  next
    case (ran h v)
    then show ?thesis using mono [OF s1(2)] by simp
  qed
qed simp

lemma full_pass_no_panic: "full_pass e is st \<noteq> Panicked"
proof (induction "is" arbitrary: st)
  case (Cons i "is")
  have "full_step e i st \<noteq> Panicked"
    by (simp add: full_step_def ok_or_def r_bind_eq_Panicked split: option.splits)
  then show ?case using Cons by (auto simp: r_bind_eq_Panicked)
qed simp

lemma full_loop_no_panic: "full_loop e schedule n st \<noteq> Panicked"
proof (induction n arbitrary: st)
  case (Suc n)
  have "pending st' \<noteq> []" if "full_pass e schedule (st\<lparr>progressed := False\<rparr>) = Ok st'"
      "\<not> progressed st'" "pending st \<noteq> []" for st'
    using full_pass_progress [OF that(1)] that(2,3) by simp
  then show ?case
    using Suc full_pass_no_panic [of e schedule "st\<lparr>progressed := False\<rparr>"]
    by (auto simp: r_bind_eq_Panicked split: list.splits)
qed (simp split: list.splits)

lemma full_recompute_no_panic:
  assumes "graph_ok (eng_graph e)"
  shows "full_recompute e inputs \<noteq> Panicked"
  using assms
  by (cases rule: topological_order_cases) 
    (simp_all add: full_recompute_def Let_def full_loop_no_panic del: full_loop.simps)

lemma pass_inv_init:
  "bt_ok inputs \<Longrightarrow> engine_ok e \<Longrightarrow>
     pass_inv e inputs [] \<lparr>full_state = inputs, full_recomputed = [], pending = bt_keys (producers e), progressed = p\<rparr>"
  by (simp add: pass_inv_def consistent_on_def set_bt_keys engine_ok_def)

lemma pass_inv_done:
  assumes "pass_inv e inputs xs st" "set xs = fst ` set (producers e)"
  shows "pending st = []" "consistent e inputs (full_state st)" "full_recomputed st = bs_of_list xs"
proof -
  show "pending st = []" using assms by (simp add: pass_inv_def)
  show "full_recomputed st = bs_of_list xs"
    using assms(1) by (intro bs_ok_eqI) (simp_all add: pass_inv_def)
  show "consistent e inputs (full_state st)"
    by (rule consistent_on_mono [of _ _ "set xs"]) (use assms in \<open>auto simp: pass_inv_def\<close>)
qed

lemma full_recompute_unfold:
  assumes "topological_order (eng_graph e) = Ok order"
  shows "full_recompute e inputs =
    full_loop e (full_schedule e order) (Suc (Suc (length (producers e))))
      \<lparr>full_state = inputs, full_recomputed = [], pending = bt_keys (producers e), progressed = False\<rparr>"
  using assms by (simp add: full_recompute_def Let_def numeral_2_eq_2)

lemma full_recompute_sound:
  assumes ok: "engine_ok e" and sup: "declared_support e" and inputs: "bt_ok inputs"
    and run: "full_recompute e inputs = Ok r"
  shows "consistent e inputs (res_state r)" "res_recomputed r = bt_keys (producers e)"
proof -
  have gok: "graph_ok (eng_graph e)" using ok by (simp add: engine_ok_def)
  obtain order where order: "topological_order (eng_graph e) = Ok order" "distinct order"
      "set order = dep_nodes (eng_graph e)" "linear_extension (dep_edges (eng_graph e)) order"
    using gok run by (cases rule: topological_order_cases) (auto simp: full_recompute_def)
  let ?xs = "full_schedule e order"
  let ?s0 = "\<lparr>full_state = inputs, full_recomputed = [], pending = bt_keys (producers e), progressed = False\<rparr>"
  note xs = schedule_of_order [OF ok order(4,2,3)]
  have "\<exists>st. pass_inv e inputs ?xs st \<and> r = \<lparr>res_state = full_state st, res_recomputed = full_recomputed st\<rparr>"
  proof (cases "bt_keys (producers e) = []")
    case True
    then have "pass_inv e inputs ?xs ?s0"
      using pass_inv_init [OF inputs ok] xs(2) by (simp add: bt_keys_def)
    then show ?thesis using True run by (force simp: full_recompute_unfold [OF order(1)])
  next
    case False
    then obtain k ks where "bt_keys (producers e) = k # ks" by (cases "bt_keys (producers e)") auto
    then obtain st where st: "full_pass e ?xs ?s0 = Ok st" "progressed st"
        "full_loop e ?xs (Suc (length (producers e))) st = Ok r"
      using run unfolding full_recompute_unfold [OF order(1)] full_loop.simps(2)
      by (auto split: if_splits list.splits simp del: full_loop.simps)
    have "pass_inv e inputs ?xs st \<or> stuck e st"
      using first_pass_sound [OF sup, of "[]" ?xs inputs ?s0 st] pass_inv_init [OF inputs ok] xs st(1)
      by simp
    then have inv: "pass_inv e inputs ?xs st" using full_loop_stuck [OF sup _] st(3) by blast
    then show ?thesis using st(3) pass_inv_done(1) [OF inv xs(2)] by auto
  qed
  then obtain st where st: "pass_inv e inputs ?xs st"
      "r = \<lparr>res_state = full_state st, res_recomputed = full_recomputed st\<rparr>" by blast
  show "consistent e inputs (res_state r)" using pass_inv_done(2) [OF st(1) xs(2)] st(2) by simp
  show "res_recomputed r = bt_keys (producers e)"
    using pass_inv_done(3) [OF st(1) xs(2)] st(2) xs(2) ok
    by (intro bs_ok_eqI) (simp_all add: set_bt_keys engine_ok_def)
qed

lemma full_recompute_complete:
  assumes ok: "engine_ok e" and sup: "declared_support e" and inputs: "bt_ok inputs"
    and acyc: "topological_order (eng_graph e) = Ok order" and s: "consistent e inputs s"
  shows "\<exists>r. full_recompute e inputs = Ok r \<and> res_state r = s"
proof -
  have gok: "graph_ok (eng_graph e)" using ok by (simp add: engine_ok_def)
  have order: "distinct order" "set order = dep_nodes (eng_graph e)"
      "linear_extension (dep_edges (eng_graph e)) order"
    using gok acyc by (cases rule: topological_order_cases; simp)+
  let ?xs = "full_schedule e order"
  let ?s0 = "\<lparr>full_state = inputs, full_recomputed = [], pending = bt_keys (producers e), progressed = False\<rparr>"
  note xs = schedule_of_order [OF ok order(3,1,2)]
  obtain st where st: "full_pass e ?xs ?s0 = Ok st" "pass_inv e inputs ?xs st" "?xs \<noteq> [] \<longrightarrow> progressed st"
    using first_pass_complete [OF sup s, of "[]" ?xs ?s0] pass_inv_init [OF inputs ok] xs by auto
  note fin = pass_inv_done [OF st(2) xs(2)]
  have "full_state st = s" by (rule consistent_unique [OF sup xs fin(2) s])
  moreover have "\<exists>r. full_recompute e inputs = Ok r \<and> res_state r = full_state st"
  proof (cases "bt_keys (producers e)")
    case Nil
    then have "?xs = []" using xs(2) by (simp add: bt_keys_def)
    then show ?thesis using Nil st(1) by (auto simp: full_recompute_unfold [OF acyc])
  next
    case (Cons k ks)
    then have "?xs \<noteq> []" using xs(2) by (auto simp: bt_keys_def)
    then show ?thesis using Cons st fin(1) by (simp add: full_recompute_unfold [OF acyc])
  qed
  ultimately show ?thesis by simp
qed

section \<open>The incremental pass\<close>

text \<open>
  The invariant of the incremental loop relates its state to the state \<open>F\<close> of the full rebuild on the new
  inputs: processed artifacts agree with \<open>F\<close>, a cut-off or untouched producer had the same
  value before, and nothing is tainted because every producer can run.
\<close>

definition incr_inv ::
  "'a :: linorder recompute_engine \<Rightarrow> 'a btree_set \<Rightarrow> 'a btree_set \<Rightarrow> 'a artifact_state \<Rightarrow> 'a artifact_state
    \<Rightarrow> 'a artifact_state \<Rightarrow> 'a list \<Rightarrow> 'a incr_st \<Rightarrow> bool" where
  "incr_inv e changed dirty S0 B F ys st \<longleftrightarrow>
     bt_ok (inc_state st)
     \<and> (\<forall>k. (if k \<in> set ys \<or> bt_get (producers e) k = None then bt_get (inc_state st) k = bt_get F k
             else bt_get (inc_state st) k = bt_get S0 k))
     \<and> tainted st = []
     \<and> (\<forall>k \<in> set (boundary st). bt_get F k = bt_get B k)
     \<and> set (reached_ids st) \<subseteq> {k \<in> set ys \<inter> set dirty. bt_get (producers e) k \<noteq> None}
     \<and> (\<forall>k \<in> set ys. bt_get (producers e) k \<noteq> None \<longrightarrow> k \<notin> set (reached_ids st) \<longrightarrow> bt_get F k = bt_get B k)
     \<and> bs_ok (reached_ids st) \<and> rep_recomputed (report st) = reached_ids st
     \<and> set (cut_off (report st)) = {k \<in> set ys \<inter> set dirty. bt_get (producers e) k \<noteq> None} - set (reached_ids st)
     \<and> boundary_nodes (report st) = boundary st"

text \<open>The situation of an incremental pass after a rebuild.\<close>

definition incr_setting ::
  "'a :: linorder recompute_engine \<Rightarrow> 'a artifact_state \<Rightarrow> 'a artifact_state \<Rightarrow> 'a artifact_state \<Rightarrow> 'a artifact_state \<Rightarrow> bool" where
  "incr_setting e inputs changes B F \<longleftrightarrow>
     engine_ok e \<and> declared_support e \<and> bt_ok changes
     \<and> consistent e inputs B \<and> consistent e (bt_extend inputs changes) F"

lemma nonproducer_unchanged:
  assumes "incr_setting e inputs changes B F" "bt_get (producers e) k = None" "k \<notin> set (bt_keys changes)"
  shows "bt_get F k = bt_get B k"
proof -
  have "bt_get changes k = None" using assms(3) by (simp add: set_bt_keys bt_get_None_iff)
  then show ?thesis
    using assms consistent_onD(2) [of e inputs UNIV B k] consistent_onD(2) [of e "bt_extend inputs changes" UNIV F k]
    by (simp add: incr_setting_def bt_get_extend)
qed

lemma producer_unchanged:
  assumes "incr_setting e inputs changes B F" "bt_get (producers e) i = Some f"
    "\<And>p. (p, i) \<in> dep_edges (eng_graph e) \<Longrightarrow> bt_get F p = bt_get B p"
  shows "bt_get F i = bt_get B i"
proof -
  have c: "consistent e inputs B" "consistent e (bt_extend inputs changes) F" "declared_support e"
    using assms(1) by (simp_all add: incr_setting_def)
  have "f F = f B"
    by (rule declared_supportD [OF c(3) assms(2)])
      (use assms(3) consistent_onD(1) [OF c(1)] consistent_onD(1) [OF c(2)] in auto)
  then show ?thesis using consistent_onD(3) [OF c(1) _ assms(2)] consistent_onD(3) [OF c(2) _ assms(2)] by simp
qed

lemma nonproducer_current:
  assumes "incr_setting e inputs changes B F" "bt_get (producers e) k = None"
  shows "bt_get (bt_extend B changes) k = bt_get F k"
  using assms consistent_onD(2) [of e inputs UNIV B k] consistent_onD(2) [of e "bt_extend inputs changes" UNIV F k]
  by (simp add: incr_setting_def bt_get_extend split: option.splits)

lemma incr_reached_iff:
  assumes "graph_ok (eng_graph e)"
  shows "incr_reached e changed dirty (pred_map (eng_graph e)) i st \<longleftrightarrow>
    i \<in> set changed \<or> (\<exists>p \<in> preds (eng_graph e) i. p \<notin> set (boundary st) \<and>
      (if bt_get (producers e) p \<noteq> None then p \<in> set (reached_ids st) else p \<in> set dirty))"
  unfolding incr_reached_def opt_list_ex pred_map_set [OF assms] bt_contains_key_def
  by (simp only: if_True if_False simp_thms split: if_split) blast

lemma incr_unreached_unchanged:
  assumes set: "incr_setting e inputs changes B F"
    and dirty: "set dirty = (dep_edges (eng_graph e))\<^sup>* `` set (bt_keys changes)"
    and inv: "incr_inv e (bt_keys changes) dirty S0 B F ys st"
    and i: "bt_get (producers e) i = Some f" "preds (eng_graph e) i \<subseteq> set ys"
    and un: "i \<notin> set dirty \<or> \<not> incr_reached e (bt_keys changes) dirty (pred_map (eng_graph e)) i st"
  shows "i \<notin> set (bt_keys changes)" "bt_get F i = bt_get B i"
proof -
  have g: "graph_ok (eng_graph e)" using set by (simp add: incr_setting_def engine_ok_def)
  show ni: "i \<notin> set (bt_keys changes)"
    using un dirty by (auto simp: incr_reached_iff [OF g])
  show "bt_get F i = bt_get B i"
  proof (rule producer_unchanged [OF set i(1)])
    fix p
    assume p: "(p, i) \<in> dep_edges (eng_graph e)"
    then have ys: "p \<in> set ys" using i(2) by auto
    have up: "p \<in> set dirty \<Longrightarrow> i \<in> set dirty"
      using p unfolding dirty by (auto intro: rtrancl_into_rtrancl)
    consider "p \<in> set (boundary st)" | "bt_get (producers e) p \<noteq> None" "p \<notin> set (reached_ids st)"
      | "bt_get (producers e) p = None" "p \<notin> set dirty"
    proof -
      have "p \<in> set (boundary st) \<or>
          \<not> (if bt_get (producers e) p \<noteq> None then p \<in> set (reached_ids st) else p \<in> set dirty)"
        if "i \<in> set dirty"
        using un that p unfolding incr_reached_iff [OF g] by blast
      moreover have "p \<in> set (reached_ids st) \<Longrightarrow> p \<in> set dirty" using inv by (auto simp: incr_inv_def)
      ultimately show thesis using that up by (cases "i \<in> set dirty") (auto split: if_splits)
    qed
    then show "bt_get F p = bt_get B p"
    proof cases
      case 3
      then have "p \<notin> set (bt_keys changes)" using dirty by auto
      then show ?thesis using nonproducer_unchanged [OF set] 3 by blast
    qed (use inv ys in \<open>auto simp: incr_inv_def\<close>)
  qed
qed

lemma incr_value:
  assumes set: "incr_setting e inputs changes B F"
    and inv: "incr_inv e changed dirty S0 B F ys st"
    and i: "bt_get (producers e) i = Some f" "preds (eng_graph e) i \<subseteq> set ys"
  shows "f (inc_state st) = bt_get F i" "bt_get F i \<noteq> None"
proof -
  have c: "declared_support e" "consistent e (bt_extend inputs changes) F"
    using set by (simp_all add: incr_setting_def)
  have "f (inc_state st) = f F"
    by (rule declared_supportD [OF c(1) i(1)])
      (use inv i(2) consistent_onD(1) [OF c(2)] in \<open>auto simp: incr_inv_def\<close>)
  then show "f (inc_state st) = bt_get F i" using consistent_onD(3) [OF c(2) _ i(1)] by simp
  show "bt_get F i \<noteq> None" using consistent_onD(4) [OF c(2) _ i(1)] by simp
qed

lemma not_tainted: "tainted st = [] \<Longrightarrow> \<not> inputs_tainted ps i st"
  by (simp add: inputs_tainted_def list_ex_iff split: option.splits)

lemma incr_inv_plain:
  assumes "incr_inv e changed dirty S0 B F ys st" "bt_get (producers e) i = None"
  shows "incr_step e B changed dirty ps i st = st" "incr_inv e changed dirty S0 B F (ys @ [i]) st"
proof -
  have "tainted st = []" using assms(1) by (simp add: incr_inv_def)
  then show "incr_step e B changed dirty ps i st = st"
    using assms(2) by (simp add: incr_step_def Let_def not_tainted bt_contains_key_def)
  show "incr_inv e changed dirty S0 B F (ys @ [i]) st"
    using assms by (auto simp: incr_inv_def)
qed

lemma incr_inv_unreached:
  assumes set: "incr_setting e inputs changes B F"
    and dirty: "set dirty = (dep_edges (eng_graph e))\<^sup>* `` set (bt_keys changes)"
    and inv: "incr_inv e (bt_keys changes) dirty (bt_extend B changes) B F ys st"
    and i: "bt_get (producers e) i = Some f" "preds (eng_graph e) i \<subseteq> set ys" "i \<notin> set ys"
    and un: "i \<notin> set dirty \<or> \<not> incr_reached e (bt_keys changes) dirty (pred_map (eng_graph e)) i st"
  shows "incr_inv e (bt_keys changes) dirty (bt_extend B changes) B F (ys @ [i])
    (incr_step e B (bt_keys changes) dirty (pred_map (eng_graph e)) i st)"
proof -
  note same = incr_unreached_unchanged [OF set dirty inv i(1,2) un]
  have "bt_get changes i = None" using same(1) by (simp add: set_bt_keys bt_get_None_iff)
  then have "bt_get (inc_state st) i = bt_get B i"
    using inv i set by (simp add: incr_inv_def bt_get_extend incr_setting_def)
  then have st: "bt_get (inc_state st) i = bt_get F i" using same(2) by simp
  have nr: "i \<notin> set (reached_ids st)" using inv i(3) by (auto simp: incr_inv_def)
  show ?thesis
  proof (cases "i \<in> set dirty")
    case False
    then have "incr_step e B (bt_keys changes) dirty (pred_map (eng_graph e)) i st = st"
      by (simp add: incr_step_def)
    then show ?thesis using inv st same(2) False by (auto simp: incr_inv_def)
  next
    case True
    then have "incr_step e B (bt_keys changes) dirty (pred_map (eng_graph e)) i st =
        st\<lparr>report := (report st)\<lparr>cut_off := bs_insert i (cut_off (report st))\<rparr>\<rparr>"
      using un i(1) by (simp add: incr_step_def bt_contains_key_def)
    then show ?thesis using inv st same(2) True i(1) nr by (auto simp: incr_inv_def)
  qed
qed

lemma incr_inv_reached:
  assumes set: "incr_setting e inputs changes B F"
    and inv: "incr_inv e (bt_keys changes) dirty S0 B F ys st"
    and i: "bt_get (producers e) i = Some f" "preds (eng_graph e) i \<subseteq> set ys" "i \<notin> set ys"
    and re: "i \<in> set dirty" "incr_reached e (bt_keys changes) dirty ps i st"
  shows "incr_inv e (bt_keys changes) dirty S0 B F (ys @ [i])
    (incr_step e B (bt_keys changes) dirty ps i st)"
proof -
  obtain v where v: "f (inc_state st) = Some v" "bt_get F i = Some v"
    using incr_value [OF set inv i(1,2)] by auto
  have "tainted st = []" using inv by (simp add: incr_inv_def)
  then have "incr_step e B (bt_keys changes) dirty ps i st =
      incr_produce B i f False (st\<lparr>reached_ids := bs_insert i (reached_ids st)\<rparr>)"
    using re i(1) by (simp add: incr_step_def Let_def not_tainted)
  then show ?thesis
    using inv v re(1) i(1,3) by (auto simp: incr_inv_def incr_produce_def Let_def)
qed

lemma incr_step_inv:
  assumes set: "incr_setting e inputs changes B F"
    and dirty: "set dirty = (dep_edges (eng_graph e))\<^sup>* `` set (bt_keys changes)"
    and inv: "incr_inv e (bt_keys changes) dirty (bt_extend B changes) B F ys st"
    and i: "preds (eng_graph e) i \<subseteq> set ys" "i \<notin> set ys"
  shows "incr_inv e (bt_keys changes) dirty (bt_extend B changes) B F (ys @ [i])
    (incr_step e B (bt_keys changes) dirty (pred_map (eng_graph e)) i st)"
proof (cases "bt_get (producers e) i")
  case None
  then show ?thesis using incr_inv_plain [OF inv] by simp
next
  case (Some f)
  then show ?thesis
    using incr_inv_unreached [OF set dirty inv Some i] incr_inv_reached [OF set inv Some i] by blast
qed

lemma incr_fold_inv:
  assumes set: "incr_setting e inputs changes B F"
    and dirty: "set dirty = (dep_edges (eng_graph e))\<^sup>* `` set (bt_keys changes)"
    and init: "incr_inv e (bt_keys changes) dirty (bt_extend B changes) B F [] st"
  shows "distinct order \<Longrightarrow> linear_extension (dep_edges (eng_graph e)) order \<Longrightarrow>
    incr_inv e (bt_keys changes) dirty (bt_extend B changes) B F order
      (foldl (\<lambda>st i. incr_step e B (bt_keys changes) dirty (pred_map (eng_graph e)) i st) st order)"
proof (induction order rule: rev_induct)
  case Nil
  then show ?case using init by simp
next
  case (snoc i order)
  then show ?case
    using incr_step_inv [OF set dirty] by (simp add: linear_extension_snoc)
qed

lemma incr_inv_final:
  assumes inv: "incr_inv e changed dirty S0 B F order st" and F: "bt_ok F"
    and prods: "fst ` set (producers e) \<subseteq> set order"
  shows "inc_state st = F"
    "set (rep_recomputed (report st)) \<union> set (cut_off (report st)) = set dirty \<inter> fst ` set (producers e)"
    "set (rep_recomputed (report st)) \<inter> set (cut_off (report st)) = {}"
    "\<forall>k \<in> fst ` set (producers e) - set (rep_recomputed (report st)). bt_get F k = bt_get B k"
    "\<forall>k \<in> set (boundary_nodes (report st)). bt_get F k = bt_get B k"
proof -
  have key: "bt_get (producers e) k \<noteq> None \<longleftrightarrow> k \<in> fst ` set (producers e)" for k
    using bt_get_None_iff [of "producers e" k] by simp
  have get: "bt_get (inc_state st) k = bt_get F k" for k
  proof -
    have "if k \<in> set order \<or> bt_get (producers e) k = None then bt_get (inc_state st) k = bt_get F k
        else bt_get (inc_state st) k = bt_get S0 k"
      using inv unfolding incr_inv_def by blast
    moreover have "k \<in> set order \<or> bt_get (producers e) k = None" using key [of k] prods by auto
    ultimately show ?thesis by simp
  qed
  show "inc_state st = F"
    by (rule btm.entries_determined) (use get F inv in \<open>simp_all add: incr_inv_def\<close>)
  have reached: "set (reached_ids st) \<subseteq> {k \<in> set order \<inter> set dirty. k \<in> fst ` set (producers e)}"
    and cut: "set (cut_off (report st)) =
      {k \<in> set order \<inter> set dirty. k \<in> fst ` set (producers e)} - set (reached_ids st)"
    and rep: "rep_recomputed (report st) = reached_ids st"
    and same: "\<And>k. k \<in> set order \<Longrightarrow> k \<in> fst ` set (producers e) \<Longrightarrow> k \<notin> set (reached_ids st) \<Longrightarrow>
      bt_get F k = bt_get B k"
    using inv unfolding incr_inv_def key by blast+
  show "set (rep_recomputed (report st)) \<union> set (cut_off (report st)) = set dirty \<inter> fst ` set (producers e)"
    "set (rep_recomputed (report st)) \<inter> set (cut_off (report st)) = {}"
    using reached prods unfolding cut rep by blast+
  show "\<forall>k \<in> fst ` set (producers e) - set (rep_recomputed (report st)). bt_get F k = bt_get B k"
    unfolding rep using same prods by blast
  show "\<forall>k \<in> set (boundary_nodes (report st)). bt_get F k = bt_get B k"
    using inv by (simp add: incr_inv_def)
qed

lemma incremental_recompute_correct:
  assumes set: "incr_setting e inputs changes B F" and order: "topological_order (eng_graph e) = Ok order"
  shows "\<exists>r rep. incremental_recompute_with_report e B changes = Ok (r, rep) \<and> res_state r = F
    \<and> res_recomputed r = rep_recomputed rep
    \<and> set (rep_recomputed rep) \<union> set (cut_off rep) =
        set (upward_closure (eng_graph e) (bt_keys changes)) \<inter> fst ` set (producers e)
    \<and> set (rep_recomputed rep) \<inter> set (cut_off rep) = {}
    \<and> (\<forall>k \<in> fst ` set (producers e) - set (rep_recomputed rep). bt_get F k = bt_get B k)
    \<and> (\<forall>k \<in> set (boundary_nodes rep). bt_get F k = bt_get B k)"
proof -
  have g: "graph_ok (eng_graph e)" and prods: "fst ` set (producers e) \<subseteq> dep_nodes (eng_graph e)"
    and oks: "bt_ok B" "bt_ok F"
    using set consistent_onD(1) by (auto simp: incr_setting_def engine_ok_def)
  have ord: "distinct order" "set order = dep_nodes (eng_graph e)"
      "linear_extension (dep_edges (eng_graph e)) order"
    using g order by (cases rule: topological_order_cases; simp)+
  let ?dirty = "upward_closure (eng_graph e) (bt_keys changes)"
  let ?st0 = "\<lparr>inc_state = bt_extend B changes,
      report = \<lparr>rep_recomputed = [], cut_off = [], boundary_nodes = []\<rparr>,
      boundary = [], tainted = [], reached_ids = []\<rparr>"
  define st where
    "st = foldl (\<lambda>st i. incr_step e B (bt_keys changes) ?dirty (pred_map (eng_graph e)) i st) ?st0 order"
  have "incr_inv e (bt_keys changes) ?dirty (bt_extend B changes) B F [] ?st0"
    using nonproducer_current [OF set] oks(1) by (simp add: incr_inv_def bt_ok_extend)
  then have inv: "incr_inv e (bt_keys changes) ?dirty (bt_extend B changes) B F order st"
    using incr_fold_inv [OF set set_upward_closure] ord(1,3) unfolding st_def by blast
  have "incremental_recompute_with_report e B changes =
      Ok (\<lparr>res_state = inc_state st, res_recomputed = rep_recomputed (report st)\<rparr>, report st)"
    using order
    by (simp add: incremental_recompute_with_report_def certify_invalidation_def Let_def st_def)
  moreover note fin = incr_inv_final [OF inv oks(2), unfolded ord(2), OF prods]
  ultimately show ?thesis
    by (intro exI [of _ "\<lparr>res_state = inc_state st, res_recomputed = rep_recomputed (report st)\<rparr>"]
        exI [of _ "report st"]) (use fin in simp)
qed

section \<open>Errors of the full rebuild\<close>

lemma full_step_pending: "full_step e i st = Ok st' \<Longrightarrow> set (pending st') \<subseteq> set (pending st)"
  by (erule full_step_cases) auto

lemma full_pass_pending: "full_pass e is st = Ok st' \<Longrightarrow> set (pending st') \<subseteq> set (pending st)"
  by (induction "is" arbitrary: st) (auto dest: full_step_pending)

lemma full_pass_Err:
  "set (pending st) \<subseteq> fst ` set (producers e) \<Longrightarrow> full_pass e is st \<noteq> Err x"
proof (induction "is" arbitrary: st)
  case (Cons i "is")
  have "\<exists>st'. full_step e i st = Ok st'"
  proof (cases "i \<in> set (pending st)")
    case True
    then obtain f where "bt_get (producers e) i = Some f"
      using Cons.prems producer_of_key [of i e] by blast
    then show ?thesis by (simp add: full_step_def)
  qed (simp add: full_step_def)
  then obtain st' where "full_step e i st = Ok st'" by blast
  then show ?case using Cons full_step_pending by fastforce
qed simp

lemma full_loop_Err:
  "set (pending st) \<subseteq> fst ` set (producers e) \<Longrightarrow> full_loop e schedule n st = Err x \<Longrightarrow>
     \<exists>i \<in> fst ` set (producers e). x = MissingProducer i"
proof (induction n arbitrary: st)
  case 0
  then show ?case by (cases "pending st") auto
next
  case (Suc n)
  let ?st = "st\<lparr>progressed := False\<rparr>"
  have "pending st \<noteq> []" using Suc.prems(2) by auto
  then have "r_bind (full_pass e schedule ?st) (\<lambda>st'.
      if progressed st' then full_loop e schedule n st'
      else (case pending st' of [] \<Rightarrow> Panicked | s # _ \<Rightarrow> Err (MissingProducer s))) = Err x"
    using Suc.prems(2) by (simp split: list.splits)
  moreover have "full_pass e schedule ?st \<noteq> Err x"
    by (rule full_pass_Err) (use Suc.prems(1) in simp)
  ultimately obtain st' where st': "full_pass e schedule ?st = Ok st'"
      "(if progressed st' then full_loop e schedule n st'
        else (case pending st' of [] \<Rightarrow> Panicked | s # _ \<Rightarrow> Err (MissingProducer s))) = Err x"
    unfolding r_bind_eq_Err by blast
  have sub: "set (pending st') \<subseteq> fst ` set (producers e)"
    using full_pass_pending [OF st'(1)] Suc.prems(1) by simp
  show ?case
  proof (cases "progressed st'")
    case True
    then show ?thesis using Suc.IH [OF sub] st'(2) by simp
  next
    case False
    then show ?thesis using sub st'(2) by (cases "pending st'") auto
  qed
qed

lemma full_recompute_Err:
  assumes ok: "engine_ok e" and run: "full_recompute e inputs = Err x"
  obtains (cyclic) ns where "x = Cycle ns" "topological_order (eng_graph e) = Err (Cycle ns)"
  | (missing) order i where "topological_order (eng_graph e) = Ok order" "x = MissingProducer i"
      "i \<in> fst ` set (producers e)"
proof -
  have g: "graph_ok (eng_graph e)" using ok by (simp add: engine_ok_def)
  from g show thesis
  proof (cases rule: topological_order_cases)
    case (order out)
    then have "\<exists>i \<in> fst ` set (producers e). x = MissingProducer i"
      using run by (intro full_loop_Err)
        (simp_all add: full_recompute_unfold set_bt_keys del: full_loop.simps)
    then show thesis using missing order(1) by blast
  next
    case (cycle ns)
    then show thesis using run cyclic [of ns] by (auto simp: full_recompute_def)
  qed
qed

section \<open>A sample engine\<close>

text \<open>
  Two inputs 1 and 2, a producer 3 that keeps the first byte of input 1, a producer 4 that
  copies input 2, and a producer 5 that appends the two. Changing input 1 behind its first
  byte makes 3 an equality boundary, and 5 is cut off.
\<close>

definition sample_head :: "nat producer_fn" where
  "sample_head s = map_option (take 1) (bt_get s 1)"

definition sample_copy :: "nat producer_fn" where
  "sample_copy s = bt_get s 2"

definition sample_join :: "nat producer_fn" where
  "sample_join s =
     (case (bt_get s 3, bt_get s 4) of (Some a, Some b) \<Rightarrow> Some (a @ b) | _ \<Rightarrow> None)"

definition sample_engine :: "nat recompute_engine" where
  "sample_engine =
     register_producer 3 sample_head (register_producer 4 sample_copy
       (register_producer 5 sample_join
         (engine_new (graph_run ExactSupport
            [AddDependency 1 3, AddDependency 2 4, AddDependency 3 5, AddDependency 4 5]))))"

definition sample_inputs :: "nat artifact_state" where
  "sample_inputs = [(1, [7, 8]), (2, [9])]"

definition sample_changes :: "nat artifact_state" where
  "sample_changes = [(1, [7, 6])]"

lemma sample_producers:
  "producers sample_engine = [(3, sample_head), (4, sample_copy), (5, sample_join)]"
  by (simp add: sample_engine_def register_producer_def engine_new_def)

lemma sample_edges: "dep_edges (eng_graph sample_engine) = {(1, 3), (2, 4), (3, 5), (4, 5)}"
  by (auto simp: sample_engine_def register_producer_def engine_new_def dep_edges_run)

lemma sample_support: "declared_support sample_engine"
  unfolding declared_support_def
proof (intro allI impI)
  fix i f and s s' :: "nat artifact_state"
  assume i: "bt_get (producers sample_engine) i = Some f"
    and eq: "\<forall>u. (u, i) \<in> dep_edges (eng_graph sample_engine) \<longrightarrow> bt_get s u = bt_get s' u"
  then consider "i = 3" "f = sample_head" | "i = 4" "f = sample_copy" | "i = 5" "f = sample_join"
    by (auto simp: sample_producers bt_get_Cons split: if_splits)
  then show "f s = f s'"
    by cases (use eq in \<open>simp_all add: sample_edges sample_head_def sample_copy_def sample_join_def\<close>)
qed

lemma sample_ok: "engine_ok sample_engine" "bt_ok sample_inputs" "bt_ok sample_changes"
  by code_simp+

definition sample_base :: "nat recompute_result" where
  "sample_base = \<lparr>res_state = [(1, [7, 8]), (2, [9]), (3, [7]), (4, [9]), (5, [7, 9])],
     res_recomputed = [3, 4, 5]\<rparr>"

definition sample_full :: "nat recompute_result" where
  "sample_full = \<lparr>res_state = [(1, [7, 6]), (2, [9]), (3, [7]), (4, [9]), (5, [7, 9])],
     res_recomputed = [3, 4, 5]\<rparr>"

lemma sample_runs:
  "full_recompute sample_engine sample_inputs = Ok sample_base"
  "full_recompute sample_engine (bt_extend sample_inputs sample_changes) = Ok sample_full"
  by code_simp+

section \<open>Properties\<close>

text \<open>
  C8: When every producer reads only artifacts with a declared edge to it, the full rebuild
  is exactly the search for a consistent state. It never panics; a result is the unique
  state in which every non-producer holds its input and every producer the value it
  computes, with every producer recomputed; a cycle is reported only for a cyclic graph; and
  a missing producer is reported only when no consistent state exists.
\<close>

theorem full_recompute_correct:
  assumes "engine_ok e" "declared_support e" "bt_ok inputs"
  shows "case full_recompute e inputs of
      Ok r \<Rightarrow> consistent e inputs (res_state r) \<and> res_recomputed r = bt_keys (producers e)
        \<and> (\<forall>s. consistent e inputs s \<longrightarrow> s = res_state r)
    | Err (Cycle ns) \<Rightarrow> \<not> acyclic (dep_edges (eng_graph e))
    | Err (MissingProducer i) \<Rightarrow> i \<in> fst ` set (producers e) \<and> (\<nexists>s. consistent e inputs s)
    | _ \<Rightarrow> False"
proof (cases "full_recompute e inputs")
  case (Ok r)
  note sound = full_recompute_sound [OF assms Ok]
  have g: "graph_ok (eng_graph e)" using assms(1) by (simp add: engine_ok_def)
  obtain order where order: "topological_order (eng_graph e) = Ok order"
    using Ok by (cases "topological_order (eng_graph e)") (simp_all add: full_recompute_def)
  have "s = res_state r" if "consistent e inputs s" for s
    using full_recompute_complete [OF assms order that] Ok by auto
  then show ?thesis unfolding Ok result.case using sound by blast
next
  case (Err x)
  from assms(1) Err show ?thesis
  proof (cases rule: full_recompute_Err)
    case (cyclic ns)
    then show ?thesis
      using Err topological_order_Err(2) assms(1) by (auto simp: engine_ok_def)
  next
    case (missing order i)
    then show ?thesis using Err full_recompute_complete [OF assms missing(1)] by auto
  qed
next
  case Panicked
  then show ?thesis using full_recompute_no_panic assms(1) by (auto simp: engine_ok_def)
qed

theorem full_recompute_correct_witness:
  "engine_ok sample_engine \<and> declared_support sample_engine \<and> bt_ok sample_inputs
    \<and> full_recompute sample_engine sample_inputs = Ok sample_base
    \<and> consistent sample_engine sample_inputs (res_state sample_base)
    \<and> full_recompute sample_engine [] = Err (MissingProducer 3)
    \<and> (\<nexists>s. consistent sample_engine [] s)"
proof -
  have empty: "full_recompute sample_engine [] = Err (MissingProducer 3)" by code_simp
  show ?thesis
    using full_recompute_correct [OF sample_ok(1) sample_support sample_ok(2)]
      full_recompute_correct [OF sample_ok(1) sample_support bt_ok_Nil]
      sample_ok sample_support sample_runs(1) empty by simp
qed

text \<open>
  The hypothesis of declared support is needed. Below, producer 3 reads artifact 4 without an
  edge from it: it is scheduled first and computes from the stale input value of artifact 4,
  which its producer then replaces, and it is not run again. The rebuild succeeds with a state
  that is not consistent.
\<close>

definition undeclared_engine :: "nat recompute_engine" where
  "undeclared_engine =
     register_producer 3 (\<lambda>s. bt_get s 4) (register_producer 4 (\<lambda>s. bt_get s 1)
       (engine_new (graph_run ExactSupport [AddDependency 1 4])))"

lemma undeclared_read_breaks_rebuild:
  "\<exists>r. full_recompute undeclared_engine [(1, [7]), (4, [0])] = Ok r
     \<and> \<not> consistent undeclared_engine [(1, [7]), (4, [0])] (res_state r)"
proof -
  have run: "full_recompute undeclared_engine [(1, [7]), (4, [0])] =
      Ok \<lparr>res_state = [(1, [7]), (3, [0]), (4, [7])], res_recomputed = [3, 4]\<rparr>"
    by code_simp
  have "bt_get (producers undeclared_engine) 3 = Some (\<lambda>s. bt_get s 4)"
    by (simp add: undeclared_engine_def register_producer_def engine_new_def bt_get_def)
  then have "consistent undeclared_engine [(1, [7]), (4, [0])] s \<Longrightarrow> bt_get s 3 = bt_get s 4" for s
    by (simp add: consistent_on_def)
  from this [of "[(1, [7]), (3, [0]), (4, [7])]"]
  have "\<not> consistent undeclared_engine [(1, [7]), (4, [0])] [(1, [7]), (3, [0]), (4, [7])]"
    by (auto simp: bt_get_def simp del: One_nat_def)
  then show ?thesis using run by auto
qed

lemma incr_setting_rebuilds:
  assumes "engine_ok e" "declared_support e" "bt_ok inputs" "bt_ok changes"
    and "full_recompute e inputs = Ok base" "full_recompute e (bt_extend inputs changes) = Ok full"
  shows "incr_setting e inputs changes (res_state base) (res_state full)"
  using assms(1,2,4) full_recompute_sound(1) [OF assms(1-3,5)]
    full_recompute_sound(1) [OF assms(1,2) bt_ok_extend [OF assms(3)] assms(6)]
  by (simp add: incr_setting_def)

lemma full_recompute_order:
  "full_recompute e inputs = Ok r \<Longrightarrow> \<exists>order. topological_order (eng_graph e) = Ok order"
  by (auto simp: full_recompute_def)

text \<open>
  C7: Under declared support the incremental pass after a rebuild computes exactly the state
  of a full rebuild on the changed inputs. Its report partitions the producers of the
  invalidation closure into recomputed and cut off; a producer that was not recomputed, and
  every boundary artifact, has the same value in both rebuilds.
\<close>

theorem incremental_refines_full:
  assumes "engine_ok e" "declared_support e" "bt_ok inputs" "bt_ok changes"
    and "full_recompute e inputs = Ok base" "full_recompute e (bt_extend inputs changes) = Ok full"
  shows "\<exists>r rep. incremental_recompute_with_report e (res_state base) changes = Ok (r, rep)
    \<and> res_state r = res_state full \<and> res_recomputed r = rep_recomputed rep
    \<and> set (rep_recomputed rep) \<union> set (cut_off rep) =
        set (upward_closure (eng_graph e) (bt_keys changes)) \<inter> fst ` set (producers e)
    \<and> set (rep_recomputed rep) \<inter> set (cut_off rep) = {}
    \<and> (\<forall>k \<in> fst ` set (producers e) - set (rep_recomputed rep).
         bt_get (res_state full) k = bt_get (res_state base) k)
    \<and> (\<forall>k \<in> set (boundary_nodes rep). bt_get (res_state full) k = bt_get (res_state base) k)"
  using incremental_recompute_correct [OF incr_setting_rebuilds [OF assms]]
    full_recompute_order [OF assms(5)] by blast

theorem incremental_refines_full_witness:
  "engine_ok sample_engine \<and> declared_support sample_engine \<and> bt_ok sample_inputs \<and> bt_ok sample_changes
    \<and> (\<exists>r rep. incremental_recompute_with_report sample_engine (res_state sample_base) sample_changes = Ok (r, rep)
         \<and> res_state r = res_state sample_full \<and> rep_recomputed rep = [3] \<and> cut_off rep = [5])"
proof -
  have "incremental_recompute_with_report sample_engine (res_state sample_base) sample_changes =
      Ok (\<lparr>res_state = res_state sample_full, res_recomputed = [3]\<rparr>,
        \<lparr>rep_recomputed = [3], cut_off = [5], boundary_nodes = [3]\<rparr>)"
    by code_simp
  then show ?thesis
    using incremental_refines_full [OF sample_ok(1) sample_support sample_ok(2,3) sample_runs]
      sample_ok sample_support by auto
qed

text \<open>
  C9: Under declared support the protected comparison never reports a divergence: it refuses
  the heuristic class, and otherwise accepts exactly when both rebuilds succeed, passing on
  the rebuild's own error.
\<close>

theorem equivalence_check_passes:
  assumes "engine_ok e" "declared_support e" "bt_ok inputs" "bt_ok changes"
  shows "assert_incremental_equivalence e inputs changes =
    (if \<not> protects_incremental_equivalence (influence (eng_graph e))
     then Err (UnprotectedInfluence (influence (eng_graph e)))
     else r_bind (full_recompute e (bt_extend inputs changes)) (\<lambda>_.
            r_map (\<lambda>_. ()) (full_recompute e inputs)))"
proof -
  have "assert_incremental_equivalence e inputs changes = Ok ()"
    if p: "protects_incremental_equivalence (influence (eng_graph e))"
      and b: "full_recompute e inputs = Ok base" and f: "full_recompute e (bt_extend inputs changes) = Ok full"
    for base full
  proof -
    obtain order where order: "topological_order (eng_graph e) = Ok order"
      using full_recompute_order [OF b] by blast
    obtain r rep where r: "incremental_recompute_with_report e (res_state base) changes = Ok (r, rep)"
        "res_state r = res_state full" "res_recomputed r = rep_recomputed rep"
        "\<forall>k \<in> fst ` set (producers e) - set (rep_recomputed rep).
          bt_get (res_state full) k = bt_get (res_state base) k"
      using incremental_recompute_correct [OF incr_setting_rebuilds [OF assms b f] order] by blast
    then have incr: "incremental_recompute e (res_state base) changes = Ok r"
      by (simp add: incremental_recompute_def)
    have "first_producer e (\<lambda>i. bt_get (res_state base) i \<noteq> bt_get (res_state full) i
        \<and> i \<notin> set (res_recomputed r)) = None"
      unfolding first_producer_def find_None_iff set_bt_keys r(3) using r(4) by (metis DiffI)
    moreover have "first_producer e (\<lambda>i. bt_get (res_state full) i \<noteq> bt_get (res_state r) i) = None"
      unfolding first_producer_def find_None_iff r(2) by simp
    ultimately show ?thesis
      using p b f incr by (simp add: assert_incremental_equivalence_def)
  qed
  then show ?thesis
    by (cases "full_recompute e (bt_extend inputs changes)"; cases "full_recompute e inputs")
      (auto simp: assert_incremental_equivalence_def)
qed

theorem equivalence_check_passes_witness:
  "engine_ok sample_engine \<and> declared_support sample_engine \<and> bt_ok sample_inputs \<and> bt_ok sample_changes
    \<and> assert_incremental_equivalence sample_engine sample_inputs sample_changes = Ok ()"
proof -
  have "influence (eng_graph sample_engine) = ExactSupport" by code_simp
  then show ?thesis
    using equivalence_check_passes [OF sample_ok(1) sample_support sample_ok(2,3)]
      sample_ok sample_support sample_runs by simp
qed

end
