(* ===== verification/Project_Graph.thy ===== *)
theory Project_Graph
  imports Ordered_Containers
begin

text \<open>
  The source-anchored project graph (crates/graphzero/graphzero-core/src/graph.rs), the truth
  classes of its facts (truth.rs) and the classification of omissions (omission.rs). Content
  hashes are an arbitrary linearly ordered type.
\<close>

section \<open>Truth classes\<close>

datatype truth_class =
    CompilerExact | LspExactScoped | SyntaxDerived | TruthSoundOverapproximation
  | TruthRuntimeObserved | Historical | TruthHeuristic | TruthUnknown

primrec truth_is_exact :: "truth_class \<Rightarrow> bool" where
  "truth_is_exact CompilerExact = True"
| "truth_is_exact LspExactScoped = True"
| "truth_is_exact SyntaxDerived = False"
| "truth_is_exact TruthSoundOverapproximation = False"
| "truth_is_exact TruthRuntimeObserved = False"
| "truth_is_exact Historical = False"
| "truth_is_exact TruthHeuristic = False"
| "truth_is_exact TruthUnknown = False"

primrec admissible_in_strict_fiber :: "truth_class \<Rightarrow> bool" where
  "admissible_in_strict_fiber CompilerExact = True"
| "admissible_in_strict_fiber LspExactScoped = True"
| "admissible_in_strict_fiber SyntaxDerived = True"
| "admissible_in_strict_fiber TruthSoundOverapproximation = True"
| "admissible_in_strict_fiber TruthRuntimeObserved = False"
| "admissible_in_strict_fiber Historical = False"
| "admissible_in_strict_fiber TruthHeuristic = False"
| "admissible_in_strict_fiber TruthUnknown = False"

definition may_upgrade_to_exact :: "truth_class \<Rightarrow> bool" where
  "may_upgrade_to_exact t = False"

primrec truth_as_str :: "truth_class \<Rightarrow> string" where
  "truth_as_str CompilerExact = ''compiler_exact''"
| "truth_as_str LspExactScoped = ''lsp_exact_scoped''"
| "truth_as_str SyntaxDerived = ''syntax_derived''"
| "truth_as_str TruthSoundOverapproximation = ''sound_overapproximation''"
| "truth_as_str TruthRuntimeObserved = ''runtime_observed''"
| "truth_as_str Historical = ''historical''"
| "truth_as_str TruthHeuristic = ''heuristic''"
| "truth_as_str TruthUnknown = ''unknown''"

section \<open>Coverage, relations, anchors\<close>

datatype coverage_class =
    CovComplete | CovSoundOverapproximation | CovObservedOnly | CovPartial | CovUnknown

primrec permits_absence_certificate :: "coverage_class \<Rightarrow> bool" where
  "permits_absence_certificate CovComplete = True"
| "permits_absence_certificate CovSoundOverapproximation = False"
| "permits_absence_certificate CovObservedOnly = False"
| "permits_absence_certificate CovPartial = False"
| "permits_absence_certificate CovUnknown = False"

primrec coverage_as_str :: "coverage_class \<Rightarrow> string" where
  "coverage_as_str CovComplete = ''complete''"
| "coverage_as_str CovSoundOverapproximation = ''sound_overapproximation''"
| "coverage_as_str CovObservedOnly = ''observed_only''"
| "coverage_as_str CovPartial = ''partial''"
| "coverage_as_str CovUnknown = ''unknown''"

datatype relation =
    Defines | Calls | Imports | Implements | References | Tests
  | SchemaDepends | BuildDepends | EffectMayTouch

record 'h source_anchor =
  anchor_source_root :: 'h
  anchor_producer :: 'h
  anchor_configuration :: 'h

record 'h graph_node =
  node_id :: 'h
  node_kind :: string
  node_name :: string
  node_anchor :: "'h source_anchor"
  node_truth :: truth_class

record 'h graph_edge =
  edge_id :: 'h
  edge_from :: 'h
  edge_to :: 'h
  edge_relation :: relation
  edge_truth :: truth_class
  edge_provenance :: "'h source_anchor list"

record 'h negative_knowledge_certificate =
  nk_relation :: relation
  nk_region :: 'h
  nk_source_root :: 'h
  nk_extractor_contract :: 'h
  nk_checked_nodes :: nat
  nk_coverage :: coverage_class

record 'h project_graph =
  pg_source_root :: 'h
  pg_coverage :: coverage_class
  pg_coverage_region :: 'h
  pg_extractor_contract :: 'h
  pg_nodes :: "('h, 'h graph_node) btree_map"
  pg_edges :: "('h, 'h graph_edge) btree_map"

datatype 'h graph_error =
    DuplicateNode 'h
  | DuplicateEdge 'h
  | MissingEndpoint 'h
  | CoverageNotComplete coverage_class
  | RelationPresent 'h
  | StaleRoot

section \<open>Operations\<close>

definition project_graph_new :: "'h \<Rightarrow> coverage_class \<Rightarrow> 'h \<Rightarrow> 'h \<Rightarrow> 'h project_graph" where
  "project_graph_new root coverage region contract =
     \<lparr>pg_source_root = root, pg_coverage = coverage, pg_coverage_region = region,
      pg_extractor_contract = contract, pg_nodes = [], pg_edges = []\<rparr>"

definition add_node ::
  "'h :: linorder graph_node \<Rightarrow> 'h project_graph \<Rightarrow> ('h project_graph, 'h graph_error) result" where
  "add_node n g =
     (if anchor_source_root (node_anchor n) \<noteq> pg_source_root g then Err StaleRoot
      else if bt_contains_key (pg_nodes g) (node_id n) then Err (DuplicateNode (node_id n))
      else Ok (g\<lparr>pg_nodes := bt_insert (node_id n) n (pg_nodes g)\<rparr>))"

definition add_edge ::
  "'h :: linorder graph_edge \<Rightarrow> 'h project_graph \<Rightarrow> ('h project_graph, 'h graph_error) result" where
  "add_edge e g =
     (if list_ex (\<lambda>a. anchor_source_root a \<noteq> pg_source_root g) (edge_provenance e) then Err StaleRoot
      else if \<not> bt_contains_key (pg_nodes g) (edge_from e) then Err (MissingEndpoint (edge_from e))
      else if \<not> bt_contains_key (pg_nodes g) (edge_to e) then Err (MissingEndpoint (edge_to e))
      else if bt_contains_key (pg_edges g) (edge_id e) then Err (DuplicateEdge (edge_id e))
      else Ok (g\<lparr>pg_edges := bt_insert (edge_id e) e (pg_edges g)\<rparr>))"

definition neighbors :: "'h :: linorder project_graph \<Rightarrow> 'h \<Rightarrow> relation \<Rightarrow> 'h btree_set" where
  "neighbors g n r =
     bs_of_list (map edge_to
       (filter (\<lambda>e. edge_from e = n \<and> edge_relation e = r) (bt_values (pg_edges g))))"

definition certify_absence ::
  "'h :: linorder project_graph \<Rightarrow> relation
    \<Rightarrow> ('h negative_knowledge_certificate, 'h graph_error) result" where
  "certify_absence g r =
     (if \<not> permits_absence_certificate (pg_coverage g)
      then Err (CoverageNotComplete (pg_coverage g))
      else (case List.find (\<lambda>e. edge_relation e = r) (bt_values (pg_edges g)) of
              Some e \<Rightarrow> Err (RelationPresent (edge_id e))
            | None \<Rightarrow> Ok \<lparr>nk_relation = r, nk_region = pg_coverage_region g,
                          nk_source_root = pg_source_root g,
                          nk_extractor_contract = pg_extractor_contract g,
                          nk_checked_nodes = length (pg_nodes g),
                          nk_coverage = pg_coverage g\<rparr>))"

section \<open>Omissions\<close>

datatype omission_kind =
    MissingDependencyEdge | MissingCoverageRegion | MissingVerifier | MissingEffectTarget | LatentConfig

datatype recovery_trigger = ForceAutomaticRecovery | Advisory

record 'h omission_impact =
  om_id :: 'h
  om_kind :: omission_kind
  om_omitted :: "'h btree_set"
  om_impacts_actions :: bool
  om_impacts_obligations :: bool
  om_impacts_invalidation :: bool
  om_trigger :: recovery_trigger
  om_premises :: "string list"

definition omission_classify ::
  "'h \<Rightarrow> omission_kind \<Rightarrow> 'h btree_set \<Rightarrow> bool \<Rightarrow> bool \<Rightarrow> bool \<Rightarrow> string list \<Rightarrow> 'h omission_impact" where
  "omission_classify i k omitted actions obligations invalidation premises =
     \<lparr>om_id = i, om_kind = k, om_omitted = omitted, om_impacts_actions = actions,
      om_impacts_obligations = obligations, om_impacts_invalidation = invalidation,
      om_trigger = (if actions \<or> invalidation then ForceAutomaticRecovery else Advisory),
      om_premises = premises\<rparr>"

definition blocks_candidate_publication :: "'h omission_impact \<Rightarrow> bool" where
  "blocks_candidate_publication o' = (om_trigger o' = ForceAutomaticRecovery)"

section \<open>Invariants of a built graph\<close>

definition node_fits :: "'h \<Rightarrow> 'h \<times> 'h graph_node \<Rightarrow> bool" where
  "node_fits root e \<longleftrightarrow> node_id (snd e) = fst e \<and> anchor_source_root (node_anchor (snd e)) = root"

definition edge_fits :: "'h \<Rightarrow> 'h set \<Rightarrow> 'h \<times> 'h graph_edge \<Rightarrow> bool" where
  "edge_fits root ns e \<longleftrightarrow> edge_id (snd e) = fst e \<and> edge_from (snd e) \<in> ns \<and> edge_to (snd e) \<in> ns
     \<and> (\<forall>a \<in> set (edge_provenance (snd e)). anchor_source_root a = root)"

definition project_graph_ok :: "'h :: linorder project_graph \<Rightarrow> bool" where
  "project_graph_ok g \<longleftrightarrow>
     bt_ok (pg_nodes g) \<and> bt_ok (pg_edges g)
     \<and> (\<forall>e \<in> set (pg_nodes g). node_fits (pg_source_root g) e)
     \<and> (\<forall>e \<in> set (pg_edges g). edge_fits (pg_source_root g) (fst ` set (pg_nodes g)) e)"

datatype 'h pg_op = AddNode "'h graph_node" | AddEdge "'h graph_edge"

primrec pg_apply :: "'h :: linorder pg_op \<Rightarrow> 'h project_graph \<Rightarrow> ('h project_graph, 'h graph_error) result" where
  "pg_apply (AddNode n) g = add_node n g"
| "pg_apply (AddEdge e) g = add_edge e g"

text \<open>A refused operation leaves the graph as it was.\<close>

definition pg_step :: "'h :: linorder project_graph \<Rightarrow> 'h pg_op \<Rightarrow> 'h project_graph" where
  "pg_step g op = (case pg_apply op g of Ok g' \<Rightarrow> g' | _ \<Rightarrow> g)"

definition pg_run :: "'h :: linorder project_graph \<Rightarrow> 'h pg_op list \<Rightarrow> 'h project_graph" where
  "pg_run g ops = foldl pg_step g ops"

lemma edge_fits_mono: "edge_fits root ns e \<Longrightarrow> ns \<subseteq> ms \<Longrightarrow> edge_fits root ms e"
  by (auto simp: edge_fits_def)

lemma add_node_ok:
  assumes "project_graph_ok g" "add_node n g = Ok g'"
  shows "project_graph_ok g'"
proof -
  have g': "g' = g\<lparr>pg_nodes := bt_insert (node_id n) n (pg_nodes g)\<rparr>"
    and root: "anchor_source_root (node_anchor n) = pg_source_root g"
    using assms(2) by (simp_all add: add_node_def split: if_splits)
  have "node_fits (pg_source_root g) (node_id n, n)" using root by (simp add: node_fits_def)
  moreover have "edge_fits (pg_source_root g) (insert (node_id n) (fst ` set (pg_nodes g))) e"
    if "e \<in> set (pg_edges g)" for e
    by (rule edge_fits_mono [of _ "fst ` set (pg_nodes g)"])
      (use assms(1) that in \<open>auto simp: project_graph_ok_def\<close>)
  moreover have "\<forall>e \<in> set (bt_insert (node_id n) n (pg_nodes g)). node_fits (pg_source_root g) e"
    using assms(1) calculation(1) by (auto simp: project_graph_ok_def set_bt_insert)
  ultimately show ?thesis
    using assms(1) unfolding g' project_graph_ok_def by simp
qed

lemma add_edge_ok:
  assumes "project_graph_ok g" "add_edge e g = Ok g'"
  shows "project_graph_ok g'"
proof -
  have g': "g' = g\<lparr>pg_edges := bt_insert (edge_id e) e (pg_edges g)\<rparr>"
    using assms(2) by (simp add: add_edge_def split: if_splits)
  have "edge_fits (pg_source_root g) (fst ` set (pg_nodes g)) (edge_id e, e)"
    using assms(2)
    by (auto simp: add_edge_def edge_fits_def bt_contains_key_iff list_ex_iff split: if_splits)
  then show ?thesis
    using assms(1) unfolding g' project_graph_ok_def by (simp add: set_bt_insert)
qed

lemma pg_step_ok: "project_graph_ok g \<Longrightarrow> project_graph_ok (pg_step g op)"
  by (cases op) (auto simp: pg_step_def intro: add_node_ok add_edge_ok split: result.splits)

lemma pg_run_ok: "project_graph_ok g \<Longrightarrow> project_graph_ok (pg_run g ops)"
  unfolding pg_run_def by (induction ops arbitrary: g) (auto intro: pg_step_ok)

lemma pg_step_keeps:
  assumes "project_graph_ok g"
  shows "set (pg_nodes g) \<subseteq> set (pg_nodes (pg_step g op)) \<and> set (pg_edges g) \<subseteq> set (pg_edges (pg_step g op))
    \<and> pg_coverage (pg_step g op) = pg_coverage g \<and> pg_source_root (pg_step g op) = pg_source_root g"
proof (cases op)
  case (AddNode n)
  then show ?thesis
    using assms by (force simp: pg_step_def add_node_def project_graph_ok_def set_bt_insert bt_contains_key_iff)
next
  case (AddEdge e)
  then show ?thesis
    using assms by (force simp: pg_step_def add_edge_def project_graph_ok_def set_bt_insert bt_contains_key_iff)
qed

lemma pg_run_keeps:
  "project_graph_ok g \<Longrightarrow>
     set (pg_nodes g) \<subseteq> set (pg_nodes (pg_run g ops)) \<and> set (pg_edges g) \<subseteq> set (pg_edges (pg_run g ops))
     \<and> pg_coverage (pg_run g ops) = pg_coverage g \<and> pg_source_root (pg_run g ops) = pg_source_root g"
proof (induction ops rule: rev_induct)
  case Nil
  then show ?case by (simp add: pg_run_def)
next
  case (snoc op ops)
  then show ?case
    using pg_step_keeps [OF pg_run_ok [OF snoc.prems], of ops op] by (auto simp: pg_run_def)
qed

lemma project_graph_ok_new: "project_graph_ok (project_graph_new root coverage region contract)"
  by (simp add: project_graph_ok_def project_graph_new_def)

section \<open>Properties\<close>

text \<open>
  Every project graph built by \<open>add_node\<close> and \<open>add_edge\<close> is well formed: identities are
  keys, every edge joins present nodes, and every anchor binds the graph's source root. The
  graph only grows, and neither its declared coverage nor its root changes.
\<close>

theorem project_graph_construction:
  "project_graph_ok (pg_run (project_graph_new root coverage region contract) (as @ bs))
    \<and> set (pg_nodes (pg_run (project_graph_new root coverage region contract) as))
        \<subseteq> set (pg_nodes (pg_run (project_graph_new root coverage region contract) (as @ bs)))
    \<and> set (pg_edges (pg_run (project_graph_new root coverage region contract) as))
        \<subseteq> set (pg_edges (pg_run (project_graph_new root coverage region contract) (as @ bs)))
    \<and> pg_coverage (pg_run (project_graph_new root coverage region contract) (as @ bs)) = coverage"
proof -
  let ?g = "project_graph_new root coverage region contract"
  have ok: "project_graph_ok (pg_run ?g xs)" for xs
    by (rule pg_run_ok [OF project_graph_ok_new])
  have split: "pg_run ?g (as @ bs) = pg_run (pg_run ?g as) bs" by (simp add: pg_run_def)
  have "pg_coverage ?g = coverage" by (simp add: project_graph_new_def)
  then show ?thesis
    using ok [of "as @ bs"] pg_run_keeps [OF ok [of as], of bs]
      pg_run_keeps [OF project_graph_ok_new [of root coverage region contract], of as]
    unfolding split by simp
qed

text \<open>
  C15: An absence certificate is issued exactly when the declared coverage is complete and no
  edge carries the relation, and then no node has a neighbour under it. Every refusal says
  why: the coverage is not complete, or the named edge carries the relation.
\<close>

theorem certify_absence_sound:
  assumes "project_graph_ok g"
  shows "case certify_absence g r of
      Ok c \<Rightarrow> pg_coverage g = CovComplete \<and> (\<forall>n. neighbors g n r = [])
        \<and> nk_relation c = r \<and> nk_source_root c = pg_source_root g \<and> nk_checked_nodes c = length (pg_nodes g)
    | Err (CoverageNotComplete c) \<Rightarrow> c = pg_coverage g \<and> c \<noteq> CovComplete
    | Err (RelationPresent i) \<Rightarrow> pg_coverage g = CovComplete
        \<and> (\<exists>e. bt_get (pg_edges g) i = Some e \<and> edge_relation e = r
             \<and> edge_to e \<in> set (neighbors g (edge_from e) r))
    | _ \<Rightarrow> False"
proof (cases "pg_coverage g = CovComplete")
  case False
  then show ?thesis by (cases "pg_coverage g") (simp_all add: certify_absence_def)
next
  case True
  show ?thesis
  proof (cases "List.find (\<lambda>e. edge_relation e = r) (bt_values (pg_edges g))")
    case None
    then have "filter (\<lambda>e. edge_from e = n \<and> edge_relation e = r) (bt_values (pg_edges g)) = []" for n
      by (auto simp: find_None_iff filter_empty_conv)
    then have "\<forall>n. neighbors g n r = []" by (simp add: neighbors_def bs_of_list_def)
    then show ?thesis using True None by (simp add: certify_absence_def)
  next
    case (Some e)
    then have e: "e \<in> set (bt_values (pg_edges g))" "edge_relation e = r"
      by (auto simp: find_Some_iff)
    then have "bt_get (pg_edges g) (edge_id e) = Some e"
      using assms by (auto simp: project_graph_ok_def set_bt_values bt_get_eq_Some_iff edge_fits_def)
    moreover have "edge_to e \<in> set (neighbors g (edge_from e) r)"
      using e by (simp add: neighbors_def)
    ultimately show ?thesis using True Some e by (simp add: certify_absence_def)
  qed
qed

definition sample_anchor :: "nat source_anchor" where
  "sample_anchor = \<lparr>anchor_source_root = 7, anchor_producer = 8, anchor_configuration = 9\<rparr>"

definition sample_node :: "nat \<Rightarrow> nat graph_node" where
  "sample_node i = \<lparr>node_id = i, node_kind = ''fn'', node_name = ''f'', node_anchor = sample_anchor,
     node_truth = SyntaxDerived\<rparr>"

definition sample_edge :: "nat graph_edge" where
  "sample_edge = \<lparr>edge_id = 5, edge_from = 1, edge_to = 2, edge_relation = Calls,
     edge_truth = SyntaxDerived, edge_provenance = [sample_anchor]\<rparr>"

definition sample_graph :: "nat project_graph" where
  "sample_graph = pg_run (project_graph_new 7 CovComplete 3 4)
     [AddNode (sample_node 1), AddNode (sample_node 2), AddEdge sample_edge]"

theorem certify_absence_sound_witness:
  "project_graph_ok sample_graph \<and> is_ok (certify_absence sample_graph Imports)
    \<and> (\<forall>n. neighbors sample_graph n Imports = [])
    \<and> certify_absence sample_graph Calls = Err (RelationPresent 5)
    \<and> (\<exists>e. bt_get (pg_edges sample_graph) 5 = Some e \<and> edge_relation e = Calls)"
proof -
  have ok: "project_graph_ok sample_graph"
    unfolding sample_graph_def by (rule pg_run_ok [OF project_graph_ok_new])
  have run: "is_ok (certify_absence sample_graph Imports)"
    "certify_absence sample_graph Calls = Err (RelationPresent 5)" by code_simp+
  then obtain c where "certify_absence sample_graph Imports = Ok c" by (auto simp: is_ok_iff)
  then show ?thesis
    using certify_absence_sound [OF ok, of Imports] certify_absence_sound [OF ok, of Calls] ok run by auto
qed

end
