(* ===== verification/Refinement.thy ===== *)
theory Refinement
  imports Dependency_Graph Project_Graph
begin

text \<open>
  Counterexample-guided refinement of the influence graph
  (crates/graphzero/graphzero-core/src/refinement.rs): an observed undeclared influence adds
  an edge, certifies the invalidation of its cone and is retained; duplicates are no-ops.
  \<open>refine_to_fixed_point\<close> is shown to terminate on every trace.
\<close>

section \<open>Observations and the retained store\<close>

record 'a observed_influence =
  obs_source :: 'a
  obs_target :: 'a
  obs_evidence :: string

text \<open>\<open>to_hex\<close> prints a content hash.\<close>

definition from_omission_impact ::
  "('h \<Rightarrow> string) \<Rightarrow> 'h omission_impact \<Rightarrow> 'a \<Rightarrow> 'a \<Rightarrow> 'a observed_influence option" where
  "from_omission_impact to_hex impact source target =
     (if om_kind impact = MissingDependencyEdge \<and> om_trigger impact = ForceAutomaticRecovery
      then Some \<lparr>obs_source = source, obs_target = target,
                 obs_evidence = ''omission:'' @ to_hex (om_id impact)\<rparr>
      else None)"

datatype edge_provenance = EdgeDeclared | EdgeRuntimeObserved

primrec edge_provenance_as_str :: "edge_provenance \<Rightarrow> string" where
  "edge_provenance_as_str EdgeDeclared = ''declared''"
| "edge_provenance_as_str EdgeRuntimeObserved = ''runtime_observed''"

primrec edge_provenance_truth_class :: "edge_provenance \<Rightarrow> truth_class" where
  "edge_provenance_truth_class EdgeDeclared = TruthSoundOverapproximation"
| "edge_provenance_truth_class EdgeRuntimeObserved = TruthRuntimeObserved"

record 'a retained_counterexample =
  rc_sequence :: nat
  rc_influence :: "'a observed_influence"
  rc_edge_added :: "'a \<times> 'a"
  rc_edge_label :: truth_class
  rc_invalidation :: "'a invalidation_certificate"

record 'a counterexample_store =
  cs_records :: "'a retained_counterexample list"
  cs_applied :: "('a \<times> 'a) btree_set"
  cs_next_sequence :: nat

definition store_new :: "'a counterexample_store" where
  "store_new = \<lparr>cs_records = [], cs_applied = [], cs_next_sequence = 0\<rparr>"

definition store_contains :: "'a counterexample_store \<Rightarrow> 'a \<Rightarrow> 'a \<Rightarrow> bool" where
  "store_contains s input output = ((input, output) \<in> set (cs_applied s))"

definition store_push ::
  "'a :: linorder observed_influence \<Rightarrow> 'a \<times> 'a \<Rightarrow> 'a invalidation_certificate \<Rightarrow> 'a counterexample_store
    \<Rightarrow> 'a counterexample_store \<times> 'a retained_counterexample" where
  "store_push infl edge cert s =
     (let r = \<lparr>rc_sequence = cs_next_sequence s, rc_influence = infl, rc_edge_added = edge,
               rc_edge_label = TruthRuntimeObserved, rc_invalidation = cert\<rparr>
      in (\<lparr>cs_records = cs_records s @ [r], cs_applied = bs_insert edge (cs_applied s),
           cs_next_sequence = cs_next_sequence s + 1\<rparr>, r))"

datatype 'a refinement_outcome =
    EdgeAdded "'a retained_counterexample"
  | AlreadyRepresented 'a 'a

record fixed_point_report =
  fp_iterations :: nat
  fp_edges_added :: nat
  fp_fixed_point :: bool

section \<open>The loop\<close>

record 'a refinement_loop =
  rl_graph :: "'a dependency_graph"
  rl_store :: "'a counterexample_store"
  rl_edge_labels :: "('a \<times> 'a, truth_class) btree_map"

definition refinement_new :: "'a dependency_graph \<Rightarrow> 'a refinement_loop" where
  "refinement_new g = \<lparr>rl_graph = g, rl_store = store_new, rl_edge_labels = []\<rparr>"

definition has_edge :: "'a :: linorder dependency_graph \<Rightarrow> 'a \<Rightarrow> 'a \<Rightarrow> bool" where
  "has_edge g u v = (case bt_get (forward g) u of None \<Rightarrow> False | Some targets \<Rightarrow> v \<in> set targets)"

definition observe ::
  "'a :: linorder observed_influence \<Rightarrow> 'a refinement_loop \<Rightarrow> 'a refinement_loop \<times> 'a refinement_outcome" where
  "observe infl lp =
     (if has_edge (rl_graph lp) (obs_source infl) (obs_target infl)
      then (lp, AlreadyRepresented (obs_source infl) (obs_target infl))
      else let source = obs_source infl; target = obs_target infl;
               graph = add_dependency source target (rl_graph lp);
               labels = bt_insert (source, target) TruthRuntimeObserved (rl_edge_labels lp);
               cert = certify_invalidation graph (bs_of_list [source]);
               (store, retained) = store_push infl (source, target) cert (rl_store lp)
           in (\<lparr>rl_graph = graph, rl_store = store, rl_edge_labels = labels\<rparr>, EdgeAdded retained))"

definition sweep :: "'a :: linorder observed_influence list \<Rightarrow> 'a refinement_loop \<Rightarrow> 'a refinement_loop" where
  "sweep trace lp = foldl (\<lambda>lp obs. fst (observe obs lp)) lp trace"

definition store_len :: "'a refinement_loop \<Rightarrow> nat" where
  "store_len lp = length (cs_records (rl_store lp))"

definition provenance_of ::
  "'a :: linorder refinement_loop \<Rightarrow> 'a \<Rightarrow> 'a \<Rightarrow> edge_provenance option" where
  "provenance_of lp input output =
     (if \<not> has_edge (rl_graph lp) input output then None
      else Some (case bt_get (rl_edge_labels lp) (input, output) of
                   Some label \<Rightarrow> (if label = TruthRuntimeObserved then EdgeRuntimeObserved else EdgeDeclared)
                 | None \<Rightarrow> EdgeDeclared))"

abbreviation obs_edge :: "'a observed_influence \<Rightarrow> 'a \<times> 'a" where
  "obs_edge o' \<equiv> (obs_source o', obs_target o')"

lemma has_edge_iff: "has_edge g u v \<longleftrightarrow> (u, v) \<in> dep_edges g"
  by (auto simp: has_edge_def dep_edges_def split: option.splits)

lemma observe_known:
  "obs_edge o' \<in> dep_edges (rl_graph lp) \<Longrightarrow>
     observe o' lp = (lp, AlreadyRepresented (obs_source o') (obs_target o'))"
  by (simp add: observe_def has_edge_iff)

lemma observe_new:
  assumes "obs_edge o' \<notin> dep_edges (rl_graph lp)"
  shows "dep_edges (rl_graph (fst (observe o' lp))) = insert (obs_edge o') (dep_edges (rl_graph lp))"
    "store_len (fst (observe o' lp)) = Suc (store_len lp)"
  using assms
  by (simp_all add: observe_def has_edge_iff Let_def store_push_def store_len_def)

lemma observe_edges:
  "dep_edges (rl_graph (fst (observe o' lp))) = insert (obs_edge o') (dep_edges (rl_graph lp))"
  using observe_new(1) [of o' lp] observe_known [of o' lp]
  by (cases "obs_edge o' \<in> dep_edges (rl_graph lp)") auto

lemma sweep_edges:
  "dep_edges (rl_graph (sweep trace lp)) = dep_edges (rl_graph lp) \<union> obs_edge ` set trace"
  unfolding sweep_def by (induction trace arbitrary: lp) (auto simp: observe_edges)

lemma sweep_known:
  "obs_edge ` set trace \<subseteq> dep_edges (rl_graph lp) \<Longrightarrow> sweep trace lp = lp"
  unfolding sweep_def by (induction trace) (auto simp: observe_known)

lemma sweep_len: "store_len lp \<le> store_len (sweep trace lp)"
  unfolding sweep_def
proof (induction trace arbitrary: lp)
  case (Cons o' trace)
  have "store_len lp \<le> store_len (fst (observe o' lp))"
    using observe_new(2) [of o' lp] observe_known [of o' lp]
    by (cases "obs_edge o' \<in> dep_edges (rl_graph lp)") auto
  then show ?case using Cons.IH [of "fst (observe o' lp)"] by simp
qed simp

function refine_rounds ::
  "'a :: linorder observed_influence list \<Rightarrow> nat \<Rightarrow> 'a refinement_loop
    \<Rightarrow> 'a refinement_loop \<times> fixed_point_report" where
  "refine_rounds trace iterations lp =
     (let lp' = sweep trace lp in
      if store_len lp' - store_len lp = 0
      then (lp', \<lparr>fp_iterations = iterations, fp_edges_added = store_len lp', fp_fixed_point = True\<rparr>)
      else refine_rounds trace (iterations + 1) lp')"
  by pat_completeness auto

text \<open>A round that adds an edge leaves no edge of the trace missing.\<close>

termination
proof (relation "measure (\<lambda>(trace, n, lp). card (obs_edge ` set trace - dep_edges (rl_graph lp)))", goal_cases)
  case 1
  then show ?case by simp
next
  case (2 trace n lp lp')
  have "\<not> obs_edge ` set trace \<subseteq> dep_edges (rl_graph lp)"
    using 2 sweep_known by (metis diff_self_eq_0)
  then have "0 < card (obs_edge ` set trace - dep_edges (rl_graph lp))"
    by (auto simp: card_gt_0_iff)
  moreover have "obs_edge ` set trace - dep_edges (rl_graph lp') = {}"
    using 2 by (simp add: sweep_edges)
  ultimately have "card (obs_edge ` set trace - dep_edges (rl_graph lp'))
      < card (obs_edge ` set trace - dep_edges (rl_graph lp))" by (metis card.empty)
  then show ?case by simp
qed

definition refine_to_fixed_point ::
  "'a :: linorder observed_influence list \<Rightarrow> 'a refinement_loop \<Rightarrow> 'a refinement_loop \<times> fixed_point_report" where
  "refine_to_fixed_point trace lp = refine_rounds trace 0 lp"

declare refine_rounds.simps [simp del]

lemma refine_rounds_known:
  assumes "obs_edge ` set trace \<subseteq> dep_edges (rl_graph lp)"
  shows "refine_rounds trace n lp =
    (lp, \<lparr>fp_iterations = n, fp_edges_added = store_len lp, fp_fixed_point = True\<rparr>)"
  using sweep_known [OF assms] by (subst refine_rounds.simps) (simp add: Let_def)

lemma sweep_grows:
  assumes "\<not> obs_edge ` set trace \<subseteq> dep_edges (rl_graph lp)"
  shows "store_len lp < store_len (sweep trace lp)"
  using assms
proof (induction trace arbitrary: lp)
  case (Cons o' trace)
  have split: "sweep (o' # trace) lp = sweep trace (fst (observe o' lp))" by (simp add: sweep_def)
  show ?case
  proof (cases "obs_edge o' \<in> dep_edges (rl_graph lp)")
    case True
    then show ?thesis using Cons by (simp add: split observe_known)
  next
    case False
    then show ?thesis
      using observe_new(2) [OF False] sweep_len [of "fst (observe o' lp)" trace] by (simp add: split)
  qed
qed simp

lemma refine_to_fixed_point_eq:
  "refine_to_fixed_point trace lp =
     (sweep trace lp,
      \<lparr>fp_iterations = (if obs_edge ` set trace \<subseteq> dep_edges (rl_graph lp) then 0 else 1),
       fp_edges_added = store_len (sweep trace lp), fp_fixed_point = True\<rparr>)"
proof (cases "obs_edge ` set trace \<subseteq> dep_edges (rl_graph lp)")
  case True
  then show ?thesis
    by (simp add: refine_to_fixed_point_def refine_rounds_known sweep_known)
next
  case False
  have "obs_edge ` set trace \<subseteq> dep_edges (rl_graph (sweep trace lp))" by (simp add: sweep_edges)
  then show ?thesis
    using False sweep_grows [OF False]
    by (simp add: refine_to_fixed_point_def refine_rounds.simps [of trace 0] Let_def refine_rounds_known)
qed

section \<open>The invariant of the loop\<close>

text \<open>
  \<open>g0\<close> is the graph the loop was created with. The edges added so far are those of the
  retained records, in order.
\<close>

definition added_edges :: "'a refinement_loop \<Rightarrow> ('a \<times> 'a) list" where
  "added_edges lp = map rc_edge_added (cs_records (rl_store lp))"

definition record_ok :: "('a \<times> 'a) set \<Rightarrow> 'a retained_counterexample list \<Rightarrow> nat \<Rightarrow> bool" where
  "record_ok E rs k \<longleftrightarrow> rc_sequence (rs ! k) = k
     \<and> rc_edge_added (rs ! k) = obs_edge (rc_influence (rs ! k))
     \<and> rc_edge_label (rs ! k) = TruthRuntimeObserved
     \<and> set (invalidated (rc_invalidation (rs ! k)))
         = (E \<union> set (map rc_edge_added (take (Suc k) rs)))\<^sup>* `` {fst (rc_edge_added (rs ! k))}"

definition loop_inv :: "'a :: linorder dependency_graph \<Rightarrow> 'a refinement_loop \<Rightarrow> bool" where
  "loop_inv g0 lp \<longleftrightarrow>
     dep_edges (rl_graph lp) = dep_edges g0 \<union> set (added_edges lp)
     \<and> distinct (added_edges lp) \<and> dep_edges g0 \<inter> set (added_edges lp) = {}
     \<and> set (cs_applied (rl_store lp)) = set (added_edges lp)
     \<and> cs_next_sequence (rl_store lp) = store_len lp
     \<and> (\<forall>e. bt_get (rl_edge_labels lp) e = (if e \<in> set (added_edges lp) then Some TruthRuntimeObserved else None))
     \<and> (\<forall>k < store_len lp. record_ok (dep_edges g0) (cs_records (rl_store lp)) k)"

lemma loop_inv_new: "loop_inv g0 (refinement_new g0)"
  by (simp add: loop_inv_def refinement_new_def store_new_def added_edges_def store_len_def)

lemma record_ok_append: "k < length rs \<Longrightarrow> record_ok E (rs @ [r]) k = record_ok E rs k"
  by (simp add: record_ok_def nth_append)

lemma observe_new_eq:
  assumes "obs_edge o' \<notin> dep_edges (rl_graph lp)"
  defines "g' \<equiv> add_dependency (obs_source o') (obs_target o') (rl_graph lp)"
  shows "observe o' lp =
    (let r = \<lparr>rc_sequence = cs_next_sequence (rl_store lp), rc_influence = o', rc_edge_added = obs_edge o',
              rc_edge_label = TruthRuntimeObserved,
              rc_invalidation = certify_invalidation g' [obs_source o']\<rparr>
     in (\<lparr>rl_graph = g',
          rl_store = \<lparr>cs_records = cs_records (rl_store lp) @ [r],
                      cs_applied = bs_insert (obs_edge o') (cs_applied (rl_store lp)),
                      cs_next_sequence = cs_next_sequence (rl_store lp) + 1\<rparr>,
          rl_edge_labels = bt_insert (obs_edge o') TruthRuntimeObserved (rl_edge_labels lp)\<rparr>, EdgeAdded r))"
  using assms by (simp add: observe_def has_edge_iff Let_def store_push_def bs_of_list_def)

lemma loop_inv_observe:
  assumes inv: "loop_inv g0 lp"
  shows "loop_inv g0 (fst (observe o' lp))"
proof (cases "obs_edge o' \<in> dep_edges (rl_graph lp)")
  case True
  then show ?thesis using inv by (simp add: observe_known)
next
  case False
  let ?lp = "fst (observe o' lp)"
  let ?rs = "cs_records (rl_store ?lp)"
  note new = observe_new_eq [OF False]
  have edges: "dep_edges (rl_graph lp) = dep_edges g0 \<union> set (added_edges lp)"
    and next_seq: "cs_next_sequence (rl_store lp) = store_len lp"
    using inv by (simp_all add: loop_inv_def)
  have fresh: "obs_edge o' \<notin> set (added_edges lp)" "obs_edge o' \<notin> dep_edges g0"
    using False edges by auto
  have added: "added_edges ?lp = added_edges lp @ [obs_edge o']"
    by (simp add: new Let_def added_edges_def)
  have len: "store_len ?lp = Suc (store_len lp)" by (rule observe_new(2) [OF False])
  have last: "record_ok (dep_edges g0) ?rs (store_len lp)"
    using edges next_seq
    by (simp add: new Let_def record_ok_def store_len_def certify_invalidation_def set_upward_closure
        added_edges_def nth_append Un_insert_right)
  have "record_ok (dep_edges g0) ?rs k" if "k < store_len ?lp" for k
  proof (cases "k = store_len lp")
    case False
    then have "k < length (cs_records (rl_store lp))" using that len by (simp add: store_len_def)
    then show ?thesis
      using inv by (simp add: new Let_def record_ok_append loop_inv_def store_len_def)
  qed (use last in simp)
  moreover have "dep_edges (rl_graph ?lp) = dep_edges g0 \<union> set (added_edges ?lp)"
    using observe_edges [of o' lp] edges added by auto
  ultimately show ?thesis
    using inv fresh added len unfolding loop_inv_def
    by (simp add: new Let_def)
qed

lemma loop_inv_sweep: "loop_inv g0 lp \<Longrightarrow> loop_inv g0 (sweep trace lp)"
  unfolding sweep_def by (induction trace arbitrary: lp) (auto simp: loop_inv_observe)

lemma provenance_inv:
  assumes "loop_inv g0 lp"
  shows "provenance_of lp u v =
    (if (u, v) \<in> dep_edges g0 then Some EdgeDeclared
     else if (u, v) \<in> set (added_edges lp) then Some EdgeRuntimeObserved else None)"
  using assms by (auto simp: provenance_of_def has_edge_iff loop_inv_def)

section \<open>Properties\<close>

text \<open>
  C13: Whatever is observed, in any order and with any repetitions, the loop's ledger is
  append-only and exact: record \<open>k\<close> has sequence number \<open>k\<close>, adds the edge of its observation
  with the runtime-observed label, and certifies exactly the artifacts reachable from the
  edge's source once that edge is present. No edge is added twice or duplicates a declared
  edge, the graph holds exactly the declared and the added edges, and an edge is reported as
  declared or runtime-observed accordingly, never upgraded.
\<close>

theorem refinement_ledger:
  "loop_inv g (sweep obs (refinement_new g))
    \<and> (\<exists>rs. cs_records (rl_store (sweep (obs @ later) (refinement_new g)))
          = cs_records (rl_store (sweep obs (refinement_new g))) @ rs)
    \<and> set (added_edges (sweep obs (refinement_new g))) = obs_edge ` set obs - dep_edges g
    \<and> provenance_of (sweep obs (refinement_new g)) u v =
        (if (u, v) \<in> dep_edges g then Some EdgeDeclared
         else if (u, v) \<in> obs_edge ` set obs then Some EdgeRuntimeObserved else None)"
proof -
  let ?lp = "sweep obs (refinement_new g)"
  have inv: "loop_inv g ?lp" by (rule loop_inv_sweep [OF loop_inv_new])
  have grow: "\<exists>rs. cs_records (rl_store (sweep t lp)) = cs_records (rl_store lp) @ rs" for t lp
    unfolding sweep_def
  proof (induction t arbitrary: lp)
    case (Cons o' t)
    have "\<exists>rs. cs_records (rl_store (fst (observe o' lp))) = cs_records (rl_store lp) @ rs"
      using observe_known [of o' lp] observe_new_eq [of o' lp]
      by (cases "obs_edge o' \<in> dep_edges (rl_graph lp)") (auto simp: Let_def)
    then show ?case using Cons.IH [of "fst (observe o' lp)"] by fastforce
  qed simp
  have "sweep (obs @ later) (refinement_new g) = sweep later ?lp" by (simp add: sweep_def)
  then have app: "\<exists>rs. cs_records (rl_store (sweep (obs @ later) (refinement_new g)))
      = cs_records (rl_store ?lp) @ rs" using grow by simp
  have "dep_edges (rl_graph ?lp) = dep_edges g \<union> obs_edge ` set obs"
    by (simp add: sweep_edges refinement_new_def)
  then have added: "set (added_edges ?lp) = obs_edge ` set obs - dep_edges g"
    using inv unfolding loop_inv_def by blast
  show ?thesis using inv app added provenance_inv [OF inv, of u v] by auto
qed

text \<open>
  C14: Refinement of any trace terminates at a fixed point: the graph then contains exactly the
  old edges and those of the trace, a further sweep changes nothing, and the number of adding
  sweeps is 0 if the trace was already represented and 1 otherwise.
\<close>

theorem refinement_reaches_fixed_point:
  "case refine_to_fixed_point trace lp of (lp', rep) \<Rightarrow>
     fp_fixed_point rep \<and> fp_edges_added rep = store_len lp'
     \<and> fp_iterations rep = (if obs_edge ` set trace \<subseteq> dep_edges (rl_graph lp) then 0 else 1)
     \<and> dep_edges (rl_graph lp') = dep_edges (rl_graph lp) \<union> obs_edge ` set trace
     \<and> sweep trace lp' = lp'"
  using sweep_known [of trace "sweep trace lp"]
  by (simp add: refine_to_fixed_point_eq sweep_edges)

end
