(* ===== verification/Grades.thy ===== *)
theory Grades
  imports Project_Graph "HOL-Library.List_Lexorder" "HOL-Library.Char_ord"
begin

text \<open>
  The evidence-grade ledger of crates/graphzero/graphzero-core/src/grades.rs: baseline grades,
  evidence-backed upgrades, cascading revocation, and the mapping to the hub's vocabulary.
  Ledger ordinals are natural numbers: the code counts events in a \<open>u64\<close>.
\<close>

section \<open>Grades and evidence\<close>

datatype grade_name =
    GradeComplete | GradeSoundOverapproximation | GradeObservedOnly | GradeUnknown

primrec grade_as_str :: "grade_name \<Rightarrow> string" where
  "grade_as_str GradeComplete = ''complete''"
| "grade_as_str GradeSoundOverapproximation = ''sound_overapproximation''"
| "grade_as_str GradeObservedOnly = ''observed_only''"
| "grade_as_str GradeUnknown = ''unknown''"

definition may_upgrade_to :: "grade_name \<Rightarrow> grade_name \<Rightarrow> bool" where
  "may_upgrade_to a b \<longleftrightarrow>
     (a, b) \<in> set [(GradeObservedOnly, GradeSoundOverapproximation), (GradeObservedOnly, GradeComplete),
                  (GradeSoundOverapproximation, GradeComplete)]"

primrec grade_from_coverage :: "coverage_class \<Rightarrow> grade_name" where
  "grade_from_coverage CovComplete = GradeComplete"
| "grade_from_coverage CovSoundOverapproximation = GradeSoundOverapproximation"
| "grade_from_coverage CovObservedOnly = GradeObservedOnly"
| "grade_from_coverage CovPartial = GradeObservedOnly"
| "grade_from_coverage CovUnknown = GradeUnknown"

datatype grade_evidence =
    VerificationReceipt string
  | TestRun string
  | BoundedAnalysis string string
  | PriorUpgrade nat

datatype grade_error =
    UnknownArtifact string
  | AlreadyDeclared string
  | EvidenceRequired
  | UpgradeNotAllowed grade_name grade_name
  | NoSuchRecord nat
  | AlreadyRevoked nat

primrec has_empty_reference :: "grade_evidence \<Rightarrow> bool" where
  "has_empty_reference (VerificationReceipt digest) = (digest = [])"
| "has_empty_reference (TestRun run_ref) = (run_ref = [])"
| "has_empty_reference (BoundedAnalysis bound digest) = (bound = [] \<or> digest = [])"
| "has_empty_reference (PriorUpgrade r) = False"

definition require_non_empty :: "grade_evidence \<Rightarrow> (unit, grade_error) result" where
  "require_non_empty e =
     (let empty = (case e of
          VerificationReceipt digest \<Rightarrow> digest = []
        | TestRun run_ref \<Rightarrow> run_ref = []
        | BoundedAnalysis bound digest \<Rightarrow> bound = [] \<or> digest = []
        | PriorUpgrade r \<Rightarrow> False)
      in if empty then Err EvidenceRequired else Ok ())"

definition verification_receipt :: "string \<Rightarrow> (grade_evidence, grade_error) result" where
  "verification_receipt digest =
     r_bind (require_non_empty (VerificationReceipt digest)) (\<lambda>_. Ok (VerificationReceipt digest))"

definition test_run :: "string \<Rightarrow> (grade_evidence, grade_error) result" where
  "test_run run_ref = r_bind (require_non_empty (TestRun run_ref)) (\<lambda>_. Ok (TestRun run_ref))"

definition bounded_analysis :: "string \<Rightarrow> string \<Rightarrow> (grade_evidence, grade_error) result" where
  "bounded_analysis bound digest =
     r_bind (require_non_empty (BoundedAnalysis bound digest)) (\<lambda>_. Ok (BoundedAnalysis bound digest))"

definition prior_upgrade :: "nat \<Rightarrow> grade_evidence" where
  "prior_upgrade r = PriorUpgrade r"

primrec evidence_id :: "grade_evidence \<Rightarrow> string" where
  "evidence_id (VerificationReceipt digest) = ''receipt:'' @ digest"
| "evidence_id (TestRun run_ref) = ''test_run:'' @ run_ref"
| "evidence_id (BoundedAnalysis bound digest) = ''analysis:'' @ digest"
| "evidence_id (PriorUpgrade r) = ''record:'' @ show_nat r"

primrec referenced_record :: "grade_evidence \<Rightarrow> nat option" where
  "referenced_record (VerificationReceipt digest) = None"
| "referenced_record (TestRun run_ref) = None"
| "referenced_record (BoundedAnalysis bound digest) = None"
| "referenced_record (PriorUpgrade r) = Some r"

section \<open>The ledger\<close>

record grade_upgrade_record =
  gr_artifact :: string
  gr_from :: grade_name
  gr_to :: grade_name
  gr_evidence :: grade_evidence
  gr_actor :: string
  gr_ordinal :: nat

record grade_revocation =
  rv_ordinal :: nat
  rv_record :: nat
  rv_reason :: string
  rv_actor :: string
  rv_restored_to :: grade_name

record grade_ledger_entry =
  le_ordinal :: nat
  le_artifact :: string
  le_upgrade :: grade_upgrade_record
  le_revoked :: bool
  le_revocations :: "grade_revocation list"

record grade_ledger =
  baseline :: "(string, grade_name) btree_map"
  gl_records :: "(nat, grade_upgrade_record) btree_map"
  revoked :: "nat btree_set"
  revocations :: "(nat, grade_revocation) btree_map"
  next_ordinal :: nat

definition ledger_new :: grade_ledger where
  "ledger_new = \<lparr>baseline = [], gl_records = [], revoked = [], revocations = [], next_ordinal = 0\<rparr>"

definition declare_grade :: "string \<Rightarrow> grade_name \<Rightarrow> grade_ledger \<Rightarrow> (grade_ledger, grade_error) result" where
  "declare_grade a g l =
     (if bt_contains_key (baseline l) a then Err (AlreadyDeclared a)
      else Ok (l\<lparr>baseline := bt_insert a g (baseline l)\<rparr>))"

definition effective_grade :: "grade_ledger \<Rightarrow> string \<Rightarrow> grade_name option" where
  "effective_grade l a =
     (case bt_get (baseline l) a of
        None \<Rightarrow> None
      | Some base \<Rightarrow>
          Some (foldl (\<lambda>eff r. if gr_artifact r = a \<and> gr_ordinal r \<notin> set (revoked l) then gr_to r else eff)
                  base (bt_values (gl_records l))))"

definition upgrade ::
  "string \<Rightarrow> grade_name \<Rightarrow> grade_evidence \<Rightarrow> string \<Rightarrow> grade_ledger
    \<Rightarrow> (grade_ledger \<times> nat, grade_error) result" where
  "upgrade a g ev actor l =
     r_bind (ok_or (effective_grade l a) (UnknownArtifact a)) (\<lambda>from_grade.
     if has_empty_reference ev then Err EvidenceRequired
     else r_bind (case referenced_record ev of
                    None \<Rightarrow> Ok ()
                  | Some r \<Rightarrow>
                      if \<not> bt_contains_key (gl_records l) r then Err (NoSuchRecord r)
                      else if r \<in> set (revoked l) then Err (AlreadyRevoked r)
                      else Ok ()) (\<lambda>_.
     if \<not> may_upgrade_to from_grade g then Err (UpgradeNotAllowed from_grade g)
     else let ordinal = next_ordinal l
          in Ok (l\<lparr>next_ordinal := next_ordinal l + 1,
                   gl_records := bt_insert ordinal
                     \<lparr>gr_artifact = a, gr_from = from_grade, gr_to = g, gr_evidence = ev,
                      gr_actor = actor, gr_ordinal = ordinal\<rparr> (gl_records l)\<rparr>, ordinal)))"

section \<open>Revocation\<close>

definition explicit_dependent :: "nat \<Rightarrow> grade_upgrade_record \<Rightarrow> bool" where
  "explicit_dependent current candidate =
     (case referenced_record (gr_evidence candidate) of None \<Rightarrow> False | Some r \<Rightarrow> r = current)"

definition implicit_dependent :: "grade_upgrade_record \<Rightarrow> grade_upgrade_record \<Rightarrow> bool" where
  "implicit_dependent current_record candidate =
     (gr_artifact candidate = gr_artifact current_record \<and> gr_from candidate = gr_to current_record)"

text \<open>The ordinals one iteration of the cascade pushes, in push order.\<close>

definition cascade_pushes :: "grade_ledger \<Rightarrow> nat btree_set \<Rightarrow> nat \<Rightarrow> grade_upgrade_record \<Rightarrow> nat list" where
  "cascade_pushes l cascade current current_record =
     map fst (filter (\<lambda>(ordinal, candidate).
       ordinal \<notin> set cascade \<and>
       (explicit_dependent current candidate \<or> implicit_dependent current_record candidate) \<and>
       ordinal > current) (gl_records l))"

lemma cascade_measure:
  assumes "c \<notin> set cascade" "bt_get m c = Some r"
  shows "card (fst ` set m - insert c (set cascade)) < card (fst ` set m - set cascade)"
proof (rule psubset_card_mono)
  show "fst ` set m - insert c (set cascade) \<subset> fst ` set m - set cascade"
    using assms bt_get_None_iff [of m c] by auto
qed simp

text \<open>The stack is a list with its top first. Indexing a missing record panics.\<close>

function cascade_loop ::
  "grade_ledger \<Rightarrow> nat list \<Rightarrow> nat btree_set \<Rightarrow> (nat btree_set, grade_error) result" where
  "cascade_loop l [] cascade = Ok cascade"
| "cascade_loop l (current # stack) cascade =
     (if current \<in> set cascade then cascade_loop l stack cascade
      else (case bt_get (gl_records l) current of
              None \<Rightarrow> Panicked
            | Some current_record \<Rightarrow>
                cascade_loop l
                  (rev (cascade_pushes l (bs_insert current cascade) current current_record) @ stack)
                  (bs_insert current cascade)))"
  by pat_completeness auto

termination
  by (relation "measures [\<lambda>(l, stack, cascade). card (fst ` set (gl_records l) - set cascade),
        \<lambda>(l, stack, cascade). length stack]")
    (simp_all add: cascade_measure)

definition revocation_notes ::
  "grade_ledger \<Rightarrow> nat list \<Rightarrow> string \<Rightarrow> string \<Rightarrow> (grade_ledger, grade_error) result" where
  "revocation_notes l to_revoke reason actor =
     foldl (\<lambda>acc ordinal. r_bind acc (\<lambda>l.
       case bt_get (gl_records l) ordinal of
         None \<Rightarrow> Panicked
       | Some entry \<Rightarrow>
           let restored = (case effective_grade l (gr_artifact entry) of Some g \<Rightarrow> g | None \<Rightarrow> gr_from entry)
           in Ok (l\<lparr>next_ordinal := next_ordinal l + 1,
                    revocations := bt_insert (next_ordinal l)
                      \<lparr>rv_ordinal = next_ordinal l, rv_record = ordinal, rv_reason = reason,
                       rv_actor = actor, rv_restored_to = restored\<rparr> (revocations l)\<rparr>)))
       (Ok l) to_revoke"

definition revoke_upgrade ::
  "nat \<Rightarrow> string \<Rightarrow> string \<Rightarrow> grade_ledger \<Rightarrow> (grade_ledger \<times> nat, grade_error) result" where
  "revoke_upgrade r reason actor l =
     (if \<not> bt_contains_key (gl_records l) r then Err (NoSuchRecord r)
      else r_bind (cascade_loop l [r] []) (\<lambda>cascade.
        let to_revoke = filter (\<lambda>ordinal. ordinal \<notin> set (revoked l)) cascade
        in if to_revoke = [] then Err (AlreadyRevoked r)
           else r_map (\<lambda>l'. (l', length to_revoke))
                  (revocation_notes
                    (l\<lparr>revoked := foldl (\<lambda>s ordinal. bs_insert ordinal s) (revoked l) to_revoke\<rparr>)
                    to_revoke reason actor)))"

text \<open>The fold over the targets of \<open>revoke_evidence\<close>; a refused revocation is skipped.\<close>

definition revoke_target :: "string \<Rightarrow> string \<Rightarrow> (grade_ledger \<times> nat, grade_error) result \<Rightarrow> nat
    \<Rightarrow> (grade_ledger \<times> nat, grade_error) result" where
  "revoke_target reason actor acc target =
     r_bind acc (\<lambda>(l, total).
       case revoke_upgrade target reason actor l of
         Ok (l', count) \<Rightarrow> Ok (l', total + count)
       | Err e \<Rightarrow> Ok (l, total)
       | Panicked \<Rightarrow> Panicked)"

definition revoke_evidence :: "string \<Rightarrow> string \<Rightarrow> string \<Rightarrow> grade_ledger
    \<Rightarrow> (grade_ledger \<times> nat, grade_error) result" where
  "revoke_evidence i reason actor l =
     foldl (revoke_target reason actor) (Ok (l, 0))
       (map fst (filter (\<lambda>(ordinal, r). ordinal \<notin> set (revoked l) \<and> evidence_id (gr_evidence r) = i)
          (gl_records l)))"

definition is_revoked :: "grade_ledger \<Rightarrow> nat \<Rightarrow> bool" where
  "is_revoked l r = (r \<in> set (revoked l))"

definition history :: "grade_ledger \<Rightarrow> string \<Rightarrow> grade_ledger_entry list" where
  "history l a =
     sort_key le_ordinal
       (map (\<lambda>r. \<lparr>le_ordinal = gr_ordinal r, le_artifact = a, le_upgrade = r,
                 le_revoked = (gr_ordinal r \<in> set (revoked l)),
                 le_revocations = filter (\<lambda>note. rv_record note = gr_ordinal r) (bt_values (revocations l))\<rparr>)
         (filter (\<lambda>r. gr_artifact r = a) (bt_values (gl_records l))))"

section \<open>The hub vocabulary\<close>

datatype hub_grade_name = HubProved | HubBoundedComplete | HubObserved | HubUnknown

primrec hub_grade_as_str :: "hub_grade_name \<Rightarrow> string" where
  "hub_grade_as_str HubProved = ''proved''"
| "hub_grade_as_str HubBoundedComplete = ''bounded_complete''"
| "hub_grade_as_str HubObserved = ''observed''"
| "hub_grade_as_str HubUnknown = ''unknown''"

datatype claim_kind = ClaimPositive | ClaimAbsence

fun hub_equivalent :: "grade_name \<Rightarrow> claim_kind \<Rightarrow> hub_grade_name option" where
  "hub_equivalent GradeComplete k = Some HubProved"
| "hub_equivalent GradeSoundOverapproximation ClaimPositive = Some HubBoundedComplete"
| "hub_equivalent GradeSoundOverapproximation ClaimAbsence = None"
| "hub_equivalent GradeObservedOnly k = Some HubObserved"
| "hub_equivalent GradeUnknown k = Some HubUnknown"

fun grade_from_hub :: "hub_grade_name \<Rightarrow> claim_kind \<Rightarrow> grade_name option" where
  "grade_from_hub HubProved k = Some GradeComplete"
| "grade_from_hub HubBoundedComplete ClaimPositive = Some GradeSoundOverapproximation"
| "grade_from_hub HubBoundedComplete ClaimAbsence = None"
| "grade_from_hub HubObserved k = Some GradeObservedOnly"
| "grade_from_hub HubUnknown k = Some GradeUnknown"

end
