(* ===== verification/Grades_Correct.thy ===== *)
theory Grades_Correct
  imports Grades
begin

text \<open>
  Correctness of the evidence-grade ledger. Every ledger a sequence of operations builds
  keeps the chain invariant: the unrevoked upgrades of an artifact, in ledger order, lead step
  by step from its baseline to its effective grade. Revocation is the reachability closure of
  the dependency relation the code names, restores the grade the revoked record started from,
  and never removes a record.
\<close>

section \<open>The cascade is reachability\<close>

definition grade_deps :: "grade_ledger \<Rightarrow> (nat \<times> nat) set" where
  "grade_deps l = {(c, k). \<exists>cr r. bt_get (gl_records l) c = Some cr \<and> bt_get (gl_records l) k = Some r
     \<and> c < k \<and> (explicit_dependent c r \<or> implicit_dependent cr r)}"

lemma grade_deps_keys: "(c, k) \<in> grade_deps l \<Longrightarrow> k \<in> fst ` set (gl_records l)"
  using bt_get_None_iff [of "gl_records l" k] by (auto simp: grade_deps_def)

lemma set_cascade_pushes:
  assumes "bt_ok (gl_records l)" "bt_get (gl_records l) c = Some cr"
  shows "set (cascade_pushes l cascade c cr) = grade_deps l `` {c} - set cascade"
proof (rule set_eqI)
  fix k
  have "k \<in> set (cascade_pushes l cascade c cr) \<longleftrightarrow>
      (\<exists>r. (k, r) \<in> set (gl_records l) \<and> k \<notin> set cascade
         \<and> (explicit_dependent c r \<or> implicit_dependent cr r) \<and> c < k)"
    unfolding cascade_pushes_def by (auto simp: image_iff)
  also have "\<dots> \<longleftrightarrow> k \<in> grade_deps l `` {c} - set cascade"
    using assms(2) bt_get_eq_Some_iff [OF assms(1), of k] by (auto simp: grade_deps_def)
  finally show "k \<in> set (cascade_pushes l cascade c cr) \<longleftrightarrow> k \<in> grade_deps l `` {c} - set cascade" .
qed

lemma cascade_loop_reaches:
  "bt_ok (gl_records l) \<Longrightarrow> set stack \<union> set cascade \<subseteq> fst ` set (gl_records l) \<Longrightarrow>
     grade_deps l `` set cascade \<subseteq> set cascade \<union> set stack \<Longrightarrow> bs_ok cascade \<Longrightarrow>
     \<exists>cs. cascade_loop l stack cascade = Ok cs \<and> bs_ok cs
       \<and> set cs = (grade_deps l)\<^sup>* `` (set cascade \<union> set stack)"
proof (induction l stack cascade rule: cascade_loop.induct)
  case (1 l cascade)
  then show ?case by (simp add: Image_closed_trancl)
next
  case (2 l c stack cascade)
  show ?case
  proof (cases "c \<in> set cascade")
    case True
    have "set stack \<union> set cascade \<subseteq> fst ` set (gl_records l)"
      "grade_deps l `` set cascade \<subseteq> set cascade \<union> set stack"
      using "2.prems" True by auto
    then show ?thesis
      using "2.IH"(1) [OF True "2.prems"(1)] "2.prems"(4) True by (simp add: insert_absorb)
  next
    case False
    obtain cr where cr: "bt_get (gl_records l) c = Some cr"
      using "2.prems"(2) bt_get_None_iff [of "gl_records l" c] by auto
    let ?cascade = "bs_insert c cascade"
    let ?pushes = "cascade_pushes l ?cascade c cr"
    note pushes = set_cascade_pushes [OF "2.prems"(1) cr, of ?cascade]
    have keys: "set (rev ?pushes @ stack) \<union> set ?cascade \<subseteq> fst ` set (gl_records l)"
      using "2.prems"(2) grade_deps_keys pushes by auto
    have closed: "grade_deps l `` set ?cascade \<subseteq> set ?cascade \<union> set (rev ?pushes @ stack)"
      using "2.prems"(3) pushes by auto
    obtain cs where cs: "cascade_loop l (rev ?pushes @ stack) ?cascade = Ok cs" "bs_ok cs"
        "set cs = (grade_deps l)\<^sup>* `` (set ?cascade \<union> set (rev ?pushes @ stack))"
      using "2.IH"(2) [OF False cr "2.prems"(1) keys closed] "2.prems"(4) by auto
    have "(grade_deps l)\<^sup>* `` (set ?cascade \<union> set (rev ?pushes @ stack)) =
        (grade_deps l)\<^sup>* `` (set cascade \<union> set (c # stack))"
    proof
      have "set (rev ?pushes) \<subseteq> grade_deps l `` {c}" using pushes by auto
      then show "(grade_deps l)\<^sup>* `` (set ?cascade \<union> set (rev ?pushes @ stack)) \<subseteq>
          (grade_deps l)\<^sup>* `` (set cascade \<union> set (c # stack))"
        by (auto intro: converse_rtrancl_into_rtrancl dest!: subsetD)
    qed auto
    with cs False cr show ?thesis by simp
  qed
qed

lemma cascade_from:
  assumes "bt_ok (gl_records l)" "r \<in> fst ` set (gl_records l)"
  shows "\<exists>cs. cascade_loop l [r] [] = Ok cs \<and> bs_ok cs \<and> set cs = (grade_deps l)\<^sup>* `` {r}"
  using cascade_loop_reaches [of l "[r]" "[]"] assms by simp

lemma deps_increase: "(c, k) \<in> (grade_deps l)\<^sup>* \<Longrightarrow> c \<le> k"
  by (induction rule: rtrancl_induct) (auto simp: grade_deps_def)

lemma cascade_keys:
  "r \<in> fst ` set (gl_records l) \<Longrightarrow> (grade_deps l)\<^sup>* `` {r} \<subseteq> fst ` set (gl_records l)"
proof
  fix k
  assume r: "r \<in> fst ` set (gl_records l)" and "k \<in> (grade_deps l)\<^sup>* `` {r}"
  then have "(r, k) \<in> (grade_deps l)\<^sup>*" by simp
  then show "k \<in> fst ` set (gl_records l)"
    by (cases rule: rtranclE) (use r grade_deps_keys in auto)
qed

section \<open>Chains of upgrades\<close>

primrec upgrade_chain :: "grade_name \<Rightarrow> grade_upgrade_record list \<Rightarrow> bool" where
  "upgrade_chain b [] = True"
| "upgrade_chain b (r # rs) = (gr_from r = b \<and> upgrade_chain (gr_to r) rs)"

definition chain_end :: "grade_name \<Rightarrow> grade_upgrade_record list \<Rightarrow> grade_name" where
  "chain_end b rs = foldl (\<lambda>_ r. gr_to r) b rs"

definition active :: "grade_ledger \<Rightarrow> string \<Rightarrow> grade_upgrade_record list" where
  "active l a = filter (\<lambda>r. gr_artifact r = a \<and> gr_ordinal r \<notin> set (revoked l)) (bt_values (gl_records l))"

lemma grade_chain_append: "upgrade_chain b (xs @ ys) \<longleftrightarrow> upgrade_chain b xs \<and> upgrade_chain (chain_end b xs) ys"
  by (induction xs arbitrary: b) (auto simp: chain_end_def)

lemma foldl_filter: "foldl (\<lambda>acc x. if P x then f x else acc) b xs = foldl (\<lambda>_ x. f x) b (filter P xs)"
  by (induction xs arbitrary: b) auto

lemma effective_grade_active:
  "effective_grade l a = map_option (\<lambda>b. chain_end b (active l a)) (bt_get (baseline l) a)"
  by (simp add: effective_grade_def chain_end_def active_def foldl_filter split: option.splits)

lemma filter_takeWhile:
  "(\<And>as x y bs. xs = as @ x # y # bs \<Longrightarrow> \<not> P x \<Longrightarrow> \<not> P y) \<Longrightarrow> filter P xs = takeWhile P xs"
proof (induction xs)
  case (Cons x xs)
  have IH: "filter P xs = takeWhile P xs"
    by (rule Cons.IH) (metis Cons.prems append_Cons)
  show ?case
  proof (cases "P x")
    case False
    have "\<not> P y" if "y \<in> set xs" for y
    proof -
      have "\<not> P (hd xs)" using Cons.prems [of "[]" x "hd xs" "tl xs"] False that by (cases xs) auto
      then have "takeWhile P xs = []" by (cases xs) auto
      then show ?thesis using IH that by (metis filter_empty_conv)
    qed
    then show ?thesis using False by simp
  qed (use IH in simp)
qed simp

lemma chain_adjacent: "upgrade_chain b (as @ x # y # bs) \<Longrightarrow> gr_from y = gr_to x"
  by (simp add: grade_chain_append)

lemma upgrade_chain_takeWhile: "upgrade_chain b xs \<Longrightarrow> upgrade_chain b (takeWhile P xs)"
  by (metis grade_chain_append takeWhile_dropWhile_id)

section \<open>The invariant\<close>

definition grade_record_ok :: "grade_ledger \<Rightarrow> nat \<times> grade_upgrade_record \<Rightarrow> bool" where
  "grade_record_ok l e \<longleftrightarrow> gr_ordinal (snd e) = fst e \<and> fst e < next_ordinal l
     \<and> may_upgrade_to (gr_from (snd e)) (gr_to (snd e)) \<and> \<not> has_empty_reference (gr_evidence (snd e))
     \<and> gr_artifact (snd e) \<in> fst ` set (baseline l)
     \<and> (\<forall>c. explicit_dependent c (snd e) \<longrightarrow> c \<in> fst ` set (gl_records l) \<and> c < fst e
          \<and> (c \<in> set (revoked l) \<longrightarrow> fst e \<in> set (revoked l)))"

definition notes_ok :: "grade_ledger \<Rightarrow> bool" where
  "notes_ok l \<longleftrightarrow>
     (\<forall>e \<in> set (revocations l). rv_ordinal (snd e) = fst e \<and> fst e < next_ordinal l
        \<and> fst e \<notin> fst ` set (gl_records l))
     \<and> distinct (map rv_record (bt_values (revocations l)))
     \<and> rv_record ` set (bt_values (revocations l)) = set (revoked l)"

definition ledger_ok :: "grade_ledger \<Rightarrow> bool" where
  "ledger_ok l \<longleftrightarrow>
     bt_ok (baseline l) \<and> bt_ok (gl_records l) \<and> bt_ok (revocations l) \<and> bs_ok (revoked l)
     \<and> (\<forall>e \<in> set (gl_records l). grade_record_ok l e)
     \<and> set (revoked l) \<subseteq> fst ` set (gl_records l)
     \<and> notes_ok l
     \<and> (\<forall>a b. bt_get (baseline l) a = Some b \<longrightarrow> upgrade_chain b (active l a))"

lemma ledger_okD:
  assumes "ledger_ok l"
  shows "bt_ok (baseline l)" "bt_ok (gl_records l)" "bt_ok (revocations l)" "bs_ok (revoked l)"
    "e \<in> set (gl_records l) \<Longrightarrow> grade_record_ok l e" "set (revoked l) \<subseteq> fst ` set (gl_records l)"
    "notes_ok l" "bt_get (baseline l) a = Some b \<Longrightarrow> upgrade_chain b (active l a)"
  using assms by (auto simp: ledger_ok_def)

lemma ledger_ok_new: "ledger_ok ledger_new"
  by (simp add: ledger_ok_def ledger_new_def notes_ok_def active_def bt_values_def)

lemma fresh_ordinal:
  assumes "ledger_ok l"
  shows "\<forall>k \<in> fst ` set (gl_records l). k < next_ordinal l"
    "\<forall>k \<in> fst ` set (revocations l). k < next_ordinal l"
  using ledger_okD(5,7) [OF assms] by (auto simp: grade_record_ok_def notes_ok_def)

lemma active_sorted:
  assumes "ledger_ok l"
  shows "sorted_wrt (\<lambda>x y. gr_ordinal x < gr_ordinal y) (active l a)"
proof -
  have "gr_ordinal r = k" if "(k, r) \<in> set (gl_records l)" for k r
    using ledger_okD(5) [OF assms that] by (simp add: grade_record_ok_def)
  then have "map gr_ordinal (bt_values (gl_records l)) = map fst (gl_records l)"
    by (auto simp: bt_values_def)
  then have "sorted_wrt (<) (map gr_ordinal (bt_values (gl_records l)))"
    using ledger_okD(2) [OF assms] by (simp add: bt_ok_def)
  then show ?thesis by (simp add: active_def sorted_wrt_map sorted_wrt_filter)
qed

lemma active_get:
  assumes "ledger_ok l" "r \<in> set (active l a)"
  shows "bt_get (gl_records l) (gr_ordinal r) = Some r" "gr_artifact r = a" "gr_ordinal r \<notin> set (revoked l)"
proof -
  obtain k where k: "(k, r) \<in> set (gl_records l)"
    using assms(2) by (auto simp: active_def set_bt_values)
  moreover have "gr_ordinal r = k" using ledger_okD(5) [OF assms(1) k] by (simp add: grade_record_ok_def)
  ultimately show "bt_get (gl_records l) (gr_ordinal r) = Some r"
    using ledger_okD(2) [OF assms(1)] by (simp add: bt_get_eq_Some_iff)
  show "gr_artifact r = a" "gr_ordinal r \<notin> set (revoked l)" using assms(2) by (auto simp: active_def)
qed

section \<open>Declarations and upgrades\<close>

lemma declare_grade_ok:
  assumes ok: "ledger_ok l" and d: "declare_grade a g l = Ok l'"
  shows "ledger_ok l'"
proof -
  have l': "l' = l\<lparr>baseline := bt_insert a g (baseline l)\<rparr>" and a: "a \<notin> fst ` set (baseline l)"
    using d by (simp_all add: declare_grade_def bt_contains_key_iff split: if_splits)
  have act: "active l' b = active l b" for b by (simp add: l' active_def)
  have "active l a = []"
    using a ledger_okD(5) [OF ok]
    by (auto simp: active_def filter_empty_conv set_bt_values grade_record_ok_def)
  then have "upgrade_chain b (active l' x)" if "bt_get (baseline l') x = Some b" for x b
    using that ledger_okD(8) [OF ok] unfolding act by (cases "x = a") (simp_all add: l')
  moreover have "grade_record_ok l' e" if "e \<in> set (gl_records l')" for e
    using ledger_okD(5) [OF ok, of e] that by (auto simp: l' grade_record_ok_def)
  moreover have "notes_ok l'" using ledger_okD(7) [OF ok] by (simp add: l' notes_ok_def)
  ultimately show ?thesis using ok by (simp add: ledger_ok_def l')
qed

lemma upgrade_cases:
  assumes "upgrade a g ev actor l = Ok (l', n)"
  obtains from_grade where "effective_grade l a = Some from_grade" "may_upgrade_to from_grade g"
    "\<not> has_empty_reference ev" "n = next_ordinal l"
    "\<And>r. referenced_record ev = Some r \<Longrightarrow> r \<in> fst ` set (gl_records l) \<and> r \<notin> set (revoked l)"
    "l' = l\<lparr>next_ordinal := next_ordinal l + 1,
            gl_records := bt_insert (next_ordinal l)
              \<lparr>gr_artifact = a, gr_from = from_grade, gr_to = g, gr_evidence = ev,
               gr_actor = actor, gr_ordinal = next_ordinal l\<rparr> (gl_records l)\<rparr>"
  using assms
  by (cases "effective_grade l a"; cases "referenced_record ev")
    (auto simp: upgrade_def Let_def bt_contains_key_iff split: if_splits)

lemma upgrade_records:
  assumes "ledger_ok l"
  shows "bt_insert (next_ordinal l) r (gl_records l) = gl_records l @ [(next_ordinal l, r)]"
  by (rule bt_insert_last [OF fresh_ordinal(1) [OF assms]])

lemma upgrade_ok:
  assumes ok: "ledger_ok l" and u: "upgrade a g ev actor l = Ok (l', n)"
  shows "ledger_ok l'"
  using u
proof (cases rule: upgrade_cases)
  case (1 fg)
  let ?r = "\<lparr>gr_artifact = a, gr_from = fg, gr_to = g, gr_evidence = ev, gr_actor = actor,
    gr_ordinal = next_ordinal l\<rparr>"
  have l': "l' = l\<lparr>next_ordinal := next_ordinal l + 1, gl_records := gl_records l @ [(next_ordinal l, ?r)]\<rparr>"
    using 1 upgrade_records [OF ok] by simp
  have fresh: "next_ordinal l \<notin> fst ` set (gl_records l)" using fresh_ordinal(1) [OF ok] by blast
  then have nr: "next_ordinal l \<notin> set (revoked l)" using ledger_okD(6) [OF ok] by blast
  have act: "active l' x = active l x @ (if x = a then [?r] else [])" for x
    using nr by (simp add: l' active_def bt_values_def)
  obtain base where base: "bt_get (baseline l) a = Some base" "fg = chain_end base (active l a)"
    using 1 by (auto simp: effective_grade_active)
  have chain: "upgrade_chain b (active l' x)" if "bt_get (baseline l') x = Some b" for x b
    using that ledger_okD(8) [OF ok] base unfolding act by (auto simp: grade_chain_append l')
  have dep: "c \<in> fst ` set (gl_records l) \<and> c \<notin> set (revoked l) \<and> c < next_ordinal l"
    if "explicit_dependent c ?r" for c
  proof -
    have "c \<in> fst ` set (gl_records l) \<and> c \<notin> set (revoked l)"
      using that 1(5) by (simp add: explicit_dependent_def split: option.splits)
    then show ?thesis using fresh_ordinal(1) [OF ok] by blast
  qed
  have "a \<in> fst ` set (baseline l)" using base(1) bt_get_None_iff [of "baseline l" a] by auto
  then have "grade_record_ok l' (next_ordinal l, ?r)"
    using 1(2,3) dep by (simp add: grade_record_ok_def l')
  moreover have "grade_record_ok l' e" if "e \<in> set (gl_records l)" for e
    using ledger_okD(5) [OF ok that] by (simp add: grade_record_ok_def l' less_Suc_eq)
  moreover have "notes_ok l'"
  proof -
    have "fst e \<noteq> next_ordinal l" if "e \<in> set (revocations l)" for e
      using fresh_ordinal(2) [OF ok] that by force
    then show ?thesis using ledger_okD(7) [OF ok] by (simp add: notes_ok_def l' less_Suc_eq)
  qed
  moreover have "bt_ok (gl_records l')"
    using bt_ok_insert [OF ledger_okD(2) [OF ok], of "next_ordinal l" ?r] upgrade_records [OF ok, of ?r]
    by (simp add: l')
  ultimately show ?thesis
    using ok chain unfolding ledger_ok_def by (auto simp: l')
qed

section \<open>Revocation\<close>

lemma effective_grade_notes [simp]:
  "effective_grade (l\<lparr>next_ordinal := n, revocations := m\<rparr>) a = effective_grade l a"
  by (simp add: effective_grade_def split: option.splits)

text \<open>The notes a revocation appends: one per newly revoked record, in ordinal order.\<close>

definition notes_for :: "grade_ledger \<Rightarrow> nat list \<Rightarrow> string \<Rightarrow> string \<Rightarrow> (nat, grade_revocation) btree_map" where
  "notes_for l to_revoke reason actor =
     map (\<lambda>i. (next_ordinal l + i,
       \<lparr>rv_ordinal = next_ordinal l + i, rv_record = to_revoke ! i, rv_reason = reason, rv_actor = actor,
        rv_restored_to =
          (case bt_get (gl_records l) (to_revoke ! i) of
             Some entry \<Rightarrow> (case effective_grade l (gr_artifact entry) of Some g \<Rightarrow> g | None \<Rightarrow> gr_from entry)
           | None \<Rightarrow> GradeUnknown)\<rparr>)) [0 ..< length to_revoke]"

lemma revocation_notes_snoc:
  "revocation_notes l (xs @ [x]) reason actor =
     r_bind (revocation_notes l xs reason actor) (\<lambda>l.
       case bt_get (gl_records l) x of
         None \<Rightarrow> Panicked
       | Some entry \<Rightarrow>
           let restored = (case effective_grade l (gr_artifact entry) of Some g \<Rightarrow> g | None \<Rightarrow> gr_from entry)
           in Ok (l\<lparr>next_ordinal := next_ordinal l + 1,
                    revocations := bt_insert (next_ordinal l)
                      \<lparr>rv_ordinal = next_ordinal l, rv_record = x, rv_reason = reason,
                       rv_actor = actor, rv_restored_to = restored\<rparr> (revocations l)\<rparr>))"
  by (simp add: revocation_notes_def)

lemma notes_for_snoc:
  "notes_for l (xs @ [x]) reason actor = notes_for l xs reason actor @
     [(next_ordinal l + length xs,
       \<lparr>rv_ordinal = next_ordinal l + length xs, rv_record = x, rv_reason = reason, rv_actor = actor,
        rv_restored_to =
          (case bt_get (gl_records l) x of
             Some entry \<Rightarrow> (case effective_grade l (gr_artifact entry) of Some g \<Rightarrow> g | None \<Rightarrow> gr_from entry)
           | None \<Rightarrow> GradeUnknown)\<rparr>)]"
  by (simp add: notes_for_def nth_append)

lemma revocation_notes_eq:
  assumes "\<forall>k \<in> fst ` set (revocations l). k < next_ordinal l"
  shows "set xs \<subseteq> fst ` set (gl_records l) \<Longrightarrow>
    revocation_notes l xs reason actor =
      Ok (l\<lparr>next_ordinal := next_ordinal l + length xs,
            revocations := revocations l @ notes_for l xs reason actor\<rparr>)"
proof (induction xs rule: rev_induct)
  case Nil
  then show ?case by (simp add: revocation_notes_def notes_for_def)
next
  case (snoc x xs)
  obtain entry where entry: "bt_get (gl_records l) x = Some entry"
    using snoc.prems bt_get_None_iff [of "gl_records l" x] by auto
  have "\<forall>k \<in> fst ` set (revocations l @ notes_for l xs reason actor). k < next_ordinal l + length xs"
    using assms by (force simp: notes_for_def)
  from bt_insert_last [OF this] show ?case
    using snoc entry by (simp add: revocation_notes_snoc notes_for_snoc Let_def)
qed

text \<open>\<open>revoke_upgrade\<close> in closed form, on every branch.\<close>

definition newly_revoked :: "grade_ledger \<Rightarrow> nat \<Rightarrow> nat set" where
  "newly_revoked l r = (grade_deps l)\<^sup>* `` {r} - set (revoked l)"

definition revoked_ledger :: "grade_ledger \<Rightarrow> nat list \<Rightarrow> string \<Rightarrow> string \<Rightarrow> grade_ledger" where
  "revoked_ledger l xs reason actor =
     (let l1 = l\<lparr>revoked := foldl (\<lambda>s k. bs_insert k s) (revoked l) xs\<rparr>
      in l1\<lparr>next_ordinal := next_ordinal l + length xs,
            revocations := revocations l @ notes_for l1 xs reason actor\<rparr>)"

lemma revoke_upgrade_cases:
  assumes ok: "ledger_ok l"
  obtains (missing) "r \<notin> fst ` set (gl_records l)" "revoke_upgrade r reason actor l = Err (NoSuchRecord r)"
  | (already) "r \<in> fst ` set (gl_records l)" "newly_revoked l r = {}"
      "revoke_upgrade r reason actor l = Err (AlreadyRevoked r)"
  | (revokes) xs where "r \<in> fst ` set (gl_records l)" "xs \<noteq> []" "bs_ok xs" "set xs = newly_revoked l r"
      "revoke_upgrade r reason actor l = Ok (revoked_ledger l xs reason actor, length xs)"
proof (cases "r \<in> fst ` set (gl_records l)")
  case False
  then show thesis using missing by (simp add: revoke_upgrade_def bt_contains_key_iff)
next
  case True
  obtain cs where cs: "cascade_loop l [r] [] = Ok cs" "bs_ok cs" "set cs = (grade_deps l)\<^sup>* `` {r}"
    using cascade_from [OF ledger_okD(2) [OF ok] True] by blast
  let ?xs = "filter (\<lambda>k. k \<notin> set (revoked l)) cs"
  have xs: "set ?xs = newly_revoked l r" "bs_ok ?xs"
    using cs by (auto simp: newly_revoked_def)
  show thesis
  proof (cases "?xs = []")
    case True': True
    then have "newly_revoked l r = {}" using xs(1) by simp
    then show thesis
      using already True True' cs(1) by (simp add: revoke_upgrade_def bt_contains_key_iff Let_def)
  next
    case False
    let ?l = "l\<lparr>revoked := foldl (\<lambda>s k. bs_insert k s) (revoked l) ?xs\<rparr>"
    have "revocation_notes ?l ?xs reason actor = Ok (revoked_ledger l ?xs reason actor)"
    proof -
      have "set ?xs \<subseteq> fst ` set (gl_records ?l)"
        using cascade_keys [OF True] unfolding xs(1) newly_revoked_def by auto
      moreover have "\<forall>k \<in> fst ` set (revocations ?l). k < next_ordinal ?l"
        using fresh_ordinal(2) [OF ok] by simp
      ultimately show ?thesis
        using revocation_notes_eq [of ?l ?xs reason actor] by (simp add: revoked_ledger_def Let_def)
    qed
    then have "revoke_upgrade r reason actor l = Ok (revoked_ledger l ?xs reason actor, length ?xs)"
      using True False cs(1) by (simp add: revoke_upgrade_def bt_contains_key_iff Let_def)
    then show thesis using revokes [OF True False xs(2,1)] by simp
  qed
qed

lemma revoked_ledger_simps [simp]:
  "baseline (revoked_ledger l xs reason actor) = baseline l"
  "gl_records (revoked_ledger l xs reason actor) = gl_records l"
  "set (revoked (revoked_ledger l xs reason actor)) = set (revoked l) \<union> set xs"
  "bs_ok (revoked l) \<Longrightarrow> bs_ok (revoked (revoked_ledger l xs reason actor))"
  "next_ordinal (revoked_ledger l xs reason actor) = next_ordinal l + length xs"
  by (simp_all add: revoked_ledger_def Let_def foldl_bs_insert)

text \<open>Revocation cuts the chain of every artifact at the first revoked record.\<close>

lemma active_revoked:
  assumes ok: "ledger_ok l" and base: "bt_get (baseline l) a = Some b"
    and xs: "set xs = newly_revoked l r"
  shows "active (revoked_ledger l xs reason actor) a =
    takeWhile (\<lambda>x. gr_ordinal x \<notin> newly_revoked l r) (active l a)"
proof -
  have "active (revoked_ledger l xs reason actor) a =
      filter (\<lambda>x. gr_ordinal x \<notin> newly_revoked l r) (active l a)"
    by (auto simp: active_def xs intro!: filter_cong)
  also have "\<dots> = takeWhile (\<lambda>x. gr_ordinal x \<notin> newly_revoked l r) (active l a)"
  proof (rule filter_takeWhile)
    fix as x y bs
    assume split: "active l a = as @ x # y # bs" and "\<not> gr_ordinal x \<notin> newly_revoked l r"
    then have x: "gr_ordinal x \<in> newly_revoked l r" by simp
    have mem: "x \<in> set (active l a)" "y \<in> set (active l a)" using split by auto
    have "gr_from y = gr_to x"
      using ledger_okD(8) [OF ok base] chain_adjacent split by metis
    moreover have "gr_ordinal x < gr_ordinal y"
      using active_sorted [OF ok, of a] by (simp add: split sorted_wrt_append)
    ultimately have "(gr_ordinal x, gr_ordinal y) \<in> grade_deps l"
      using active_get [OF ok mem(1)] active_get [OF ok mem(2)]
      by (auto simp: grade_deps_def implicit_dependent_def)
    then show "\<not> gr_ordinal y \<notin> newly_revoked l r"
      using x active_get(3) [OF ok mem(2)] by (auto simp: newly_revoked_def intro: rtrancl_into_rtrancl)
  qed
  finally show ?thesis .
qed

lemma notes_for_records:
  "map rv_record (bt_values (notes_for l xs reason actor)) = xs"
  by (simp add: notes_for_def bt_values_def o_def map_nth)

lemma notes_ok_revoked:
  assumes ok: "ledger_ok l" and xs: "bs_ok xs" "set xs = newly_revoked l r"
  shows "notes_ok (revoked_ledger l xs reason actor)"
proof -
  let ?l1 = "l\<lparr>revoked := foldl (\<lambda>s k. bs_insert k s) (revoked l) xs\<rparr>"
  let ?new = "notes_for ?l1 xs reason actor"
  have revs: "revocations (revoked_ledger l xs reason actor) = revocations l @ ?new"
    by (simp add: revoked_ledger_def Let_def)
  have old: "notes_ok l" by (rule ledger_okD(7) [OF ok])
  have "map rv_record (bt_values (revocations l @ ?new)) = map rv_record (bt_values (revocations l)) @ xs"
    using notes_for_records [of ?l1 xs reason actor] by (simp add: bt_values_def)
  moreover have "set xs \<inter> set (revoked l) = {}" using xs(2) by (auto simp: newly_revoked_def)
  ultimately have recs: "distinct (map rv_record (bt_values (revocations l @ ?new)))"
      "set (map rv_record (bt_values (revocations l @ ?new))) = set (revoked l) \<union> set xs"
    using old bs_ok_distinct [OF xs(1)] by (auto simp: notes_ok_def)
  have "rv_ordinal (snd e) = fst e \<and> fst e < next_ordinal l + length xs \<and> fst e \<notin> fst ` set (gl_records l)"
    if "e \<in> set (revocations l @ ?new)" for e
  proof (cases "e \<in> set (revocations l)")
    case True
    then show ?thesis using old by (auto simp: notes_ok_def)
  next
    case False
    then have "e \<in> set ?new" using that by simp
    then have "rv_ordinal (snd e) = fst e" "next_ordinal l \<le> fst e" "fst e < next_ordinal l + length xs"
      by (auto simp: notes_for_def)
    then show ?thesis using fresh_ordinal(1) [OF ok] by force
  qed
  then show ?thesis using recs by (simp add: notes_ok_def revs)
qed

lemma revoked_ledger_ok:
  assumes ok: "ledger_ok l" and r: "r \<in> fst ` set (gl_records l)"
    and xs: "bs_ok xs" "set xs = newly_revoked l r"
  shows "ledger_ok (revoked_ledger l xs reason actor)"
proof -
  let ?l = "revoked_ledger l xs reason actor"
  let ?l1 = "l\<lparr>revoked := foldl (\<lambda>s k. bs_insert k s) (revoked l) xs\<rparr>"
  have "bt_ok (revocations ?l)"
  proof -
    have "map fst (notes_for ?l1 xs reason actor) = map (\<lambda>i. next_ordinal l + i) [0 ..< length xs]"
      by (simp add: notes_for_def o_def)
    then have "sorted_wrt (<) (map fst (revocations l) @ map fst (notes_for ?l1 xs reason actor))"
      using ledger_okD(3) [OF ok] fresh_ordinal(2) [OF ok]
      by (fastforce simp: sorted_wrt_append bt_ok_def sorted_wrt_map)
    then show ?thesis by (simp add: bt_ok_def revoked_ledger_def Let_def)
  qed
  moreover have "grade_record_ok ?l e" if e: "e \<in> set (gl_records l)" for e
  proof -
    note old = ledger_okD(5) [OF ok e]
    have "fst e \<in> set (revoked l) \<union> set xs"
      if "explicit_dependent c (snd e)" "c \<in> set (revoked l) \<union> set xs" for c
    proof (cases "c \<in> set (revoked l)")
      case True
      then show ?thesis using old that by (simp add: grade_record_ok_def)
    next
      case False
      then have c: "(r, c) \<in> (grade_deps l)\<^sup>*" using that(2) xs(2) by (auto simp: newly_revoked_def)
      have keys: "c \<in> fst ` set (gl_records l)" "c < fst e"
        using old that(1) by (simp_all add: grade_record_ok_def)
      obtain cr where "bt_get (gl_records l) c = Some cr"
        using keys(1) bt_get_None_iff [of "gl_records l" c] by auto
      moreover have "bt_get (gl_records l) (fst e) = Some (snd e)"
        using e ledger_okD(2) [OF ok] by (simp add: bt_get_eq_Some_iff)
      ultimately have "(c, fst e) \<in> grade_deps l" using keys(2) that(1) by (auto simp: grade_deps_def)
      then show ?thesis using c xs(2) by (auto simp: newly_revoked_def intro: rtrancl_into_rtrancl)
    qed
    then show ?thesis using old by (auto simp: grade_record_ok_def)
  qed
  moreover have "upgrade_chain b (active ?l a)" if "bt_get (baseline l) a = Some b" for a b
    unfolding active_revoked [OF ok that xs(2)]
    by (rule upgrade_chain_takeWhile [OF ledger_okD(8) [OF ok that]])
  moreover have "set xs \<subseteq> fst ` set (gl_records l)"
    using cascade_keys [OF r] xs(2) by (auto simp: newly_revoked_def)
  ultimately show ?thesis
    using ok notes_ok_revoked [OF ok xs] ledger_okD(4,6) [OF ok] by (simp add: ledger_ok_def)
qed

lemma revoke_upgrade_ok:
  assumes ok: "ledger_ok l"
  shows "revoke_upgrade r reason actor l \<noteq> Panicked"
    "revoke_upgrade r reason actor l = Ok (l', n) \<Longrightarrow> ledger_ok l' \<and> gl_records l' = gl_records l
       \<and> baseline l' = baseline l \<and> set (revoked l') = set (revoked l) \<union> newly_revoked l r \<and> n = card (newly_revoked l r)"
    "revoke_upgrade r reason actor l = Err e \<Longrightarrow> r \<in> fst ` set (gl_records l) \<Longrightarrow> r \<in> set (revoked l)"
proof -
  from ok have cases: "revoke_upgrade r reason actor l \<noteq> Panicked \<and>
    (revoke_upgrade r reason actor l = Ok (l', n) \<longrightarrow> ledger_ok l' \<and> gl_records l' = gl_records l
       \<and> baseline l' = baseline l \<and> set (revoked l') = set (revoked l) \<union> newly_revoked l r \<and> n = card (newly_revoked l r)) \<and>
    (revoke_upgrade r reason actor l = Err e \<longrightarrow> r \<in> fst ` set (gl_records l) \<longrightarrow> r \<in> set (revoked l))"
  proof (cases rule: revoke_upgrade_cases [of _ r reason actor])
    case already
    then show ?thesis by (auto simp: newly_revoked_def)
  next
    case (revokes xs)
    then show ?thesis
      using revoked_ledger_ok [OF ok revokes(1,3,4)] distinct_card [OF bs_ok_distinct [OF revokes(3)]] by auto
  qed auto
  then show "revoke_upgrade r reason actor l \<noteq> Panicked"
    "revoke_upgrade r reason actor l = Ok (l', n) \<Longrightarrow> ledger_ok l' \<and> gl_records l' = gl_records l
       \<and> baseline l' = baseline l \<and> set (revoked l') = set (revoked l) \<union> newly_revoked l r \<and> n = card (newly_revoked l r)"
    "revoke_upgrade r reason actor l = Err e \<Longrightarrow> r \<in> fst ` set (gl_records l) \<Longrightarrow> r \<in> set (revoked l)"
    by blast+
qed

lemma revoke_targets:
  "ledger_ok l \<Longrightarrow> set ts \<subseteq> fst ` set (gl_records l) \<Longrightarrow>
     \<exists>l' n'. foldl (revoke_target reason actor) (Ok (l, n)) ts = Ok (l', n') \<and> ledger_ok l'
       \<and> gl_records l' = gl_records l \<and> baseline l' = baseline l
       \<and> set (revoked l) \<union> set ts \<subseteq> set (revoked l')"
proof (induction ts arbitrary: l n)
  case (Cons t ts)
  show ?case
  proof (cases "revoke_upgrade t reason actor l")
    case (Ok res)
    obtain l1 k where res: "res = (l1, k)" by (cases res)
    note r = revoke_upgrade_ok(2) [OF Cons.prems(1) Ok [unfolded res]]
    have t: "t \<in> set (revoked l1)" using r by (auto simp: newly_revoked_def)
    have step: "revoke_target reason actor (Ok (l, n)) t = Ok (l1, n + k)"
      using Ok res by (simp add: revoke_target_def)
    have "set ts \<subseteq> fst ` set (gl_records l1)" using r Cons.prems(2) by simp
    from Cons.IH [OF conjunct1 [OF r] this, of "n + k"] show ?thesis
      using r t by (simp add: step) blast
  next
    case (Err e)
    have "t \<in> set (revoked l)" using revoke_upgrade_ok(3) [OF Cons.prems(1) Err] Cons.prems(2) by simp
    moreover have "revoke_target reason actor (Ok (l, n)) t = Ok (l, n)"
      using Err by (simp add: revoke_target_def)
    ultimately show ?thesis using Cons.IH [OF Cons.prems(1), of n] Cons.prems(2) by auto
  next
    case Panicked
    then show ?thesis using revoke_upgrade_ok(1) [OF Cons.prems(1)] by blast
  qed
qed simp

lemma revoke_evidence_ok:
  assumes ok: "ledger_ok l"
  shows "\<exists>l' n. revoke_evidence i reason actor l = Ok (l', n) \<and> ledger_ok l'
    \<and> gl_records l' = gl_records l \<and> baseline l' = baseline l \<and> set (revoked l) \<subseteq> set (revoked l')
    \<and> (\<forall>e \<in> set (gl_records l'). evidence_id (gr_evidence (snd e)) = i \<longrightarrow> fst e \<in> set (revoked l'))"
proof -
  let ?ts = "map fst (filter (\<lambda>(k, r). k \<notin> set (revoked l) \<and> evidence_id (gr_evidence r) = i) (gl_records l))"
  have sub: "set ?ts \<subseteq> fst ` set (gl_records l)" by auto
  obtain l' n where l': "foldl (revoke_target reason actor) (Ok (l, 0)) ?ts = Ok (l', n)" "ledger_ok l'"
      "gl_records l' = gl_records l" "baseline l' = baseline l" "set (revoked l) \<union> set ?ts \<subseteq> set (revoked l')"
    using revoke_targets [OF ok sub] by blast
  have "fst e \<in> set (revoked l')" if "e \<in> set (gl_records l)" "evidence_id (gr_evidence (snd e)) = i" for e
  proof (cases "fst e \<in> set (revoked l)")
    case False
    then have "fst e \<in> set ?ts" using that by (force simp: image_iff)
    then show ?thesis using l'(5) by blast
  qed (use l'(5) in blast)
  then show ?thesis using l' unfolding revoke_evidence_def by auto
qed

section \<open>Runs\<close>

datatype grade_op =
    Declare string grade_name
  | Upgrade string grade_name grade_evidence string
  | Revoke nat string string
  | RevokeEvidence string string string

primrec grade_apply :: "grade_op \<Rightarrow> grade_ledger \<Rightarrow> (grade_ledger, grade_error) result" where
  "grade_apply (Declare a g) l = declare_grade a g l"
| "grade_apply (Upgrade a g ev actor) l = r_map fst (upgrade a g ev actor l)"
| "grade_apply (Revoke r reason actor) l = r_map fst (revoke_upgrade r reason actor l)"
| "grade_apply (RevokeEvidence i reason actor) l = r_map fst (revoke_evidence i reason actor l)"

text \<open>A refused operation leaves the ledger as it was.\<close>

definition grade_step :: "grade_ledger \<Rightarrow> grade_op \<Rightarrow> grade_ledger" where
  "grade_step l op = (case grade_apply op l of Ok l' \<Rightarrow> l' | _ \<Rightarrow> l)"

definition grade_run :: "grade_op list \<Rightarrow> grade_ledger" where
  "grade_run ops = foldl grade_step ledger_new ops"

lemma grade_apply_ok:
  assumes ok: "ledger_ok l" and ap: "grade_apply op l = Ok l'"
  shows "ledger_ok l' \<and> (\<exists>rs. gl_records l' = gl_records l @ rs) \<and> set (revoked l) \<subseteq> set (revoked l')
    \<and> (\<forall>a g. bt_get (baseline l) a = Some g \<longrightarrow> bt_get (baseline l') a = Some g)"
proof (cases op)
  case (Declare a g)
  then have d: "declare_grade a g l = Ok l'" using ap by simp
  then have "l' = l\<lparr>baseline := bt_insert a g (baseline l)\<rparr>" "bt_get (baseline l) a = None"
    by (simp_all add: declare_grade_def bt_contains_key_iff bt_get_None_iff split: if_splits)
  then show ?thesis using declare_grade_ok [OF ok d] by auto
next
  case (Upgrade a g ev actor)
  then obtain n where u: "upgrade a g ev actor l = Ok (l', n)" using ap by auto
  from u show ?thesis
    by (cases rule: upgrade_cases) (use upgrade_ok [OF ok u] upgrade_records [OF ok] in auto)
next
  case (Revoke r reason actor)
  then show ?thesis using ap revoke_upgrade_ok(2) [OF ok] by auto
next
  case (RevokeEvidence i reason actor)
  then show ?thesis using ap revoke_evidence_ok [OF ok, of i reason actor] by auto
qed

lemma grade_apply_no_panic: "ledger_ok l \<Longrightarrow> grade_apply op l \<noteq> Panicked"
proof (cases op)
  case (Upgrade a g ev actor)
  have "upgrade a g ev actor l \<noteq> Panicked"
    by (auto simp: upgrade_def ok_or_def r_bind_eq_Panicked Let_def split: option.splits if_splits)
  then show ?thesis using Upgrade by (cases "upgrade a g ev actor l") simp_all
next
  case (Revoke r reason actor)
  assume "ledger_ok l"
  then show ?thesis
    using Revoke revoke_upgrade_ok(1) [of l r reason actor] by (cases "revoke_upgrade r reason actor l") simp_all
next
  case (RevokeEvidence i reason actor)
  assume "ledger_ok l"
  then show ?thesis using RevokeEvidence revoke_evidence_ok [of l i reason actor] by auto
qed (simp add: declare_grade_def)

lemma grade_step_ok:
  "ledger_ok l \<Longrightarrow> ledger_ok (grade_step l op) \<and> (\<exists>rs. gl_records (grade_step l op) = gl_records l @ rs)
     \<and> set (revoked l) \<subseteq> set (revoked (grade_step l op))
     \<and> (\<forall>a g. bt_get (baseline l) a = Some g \<longrightarrow> bt_get (baseline (grade_step l op)) a = Some g)"
  using grade_apply_ok [of l op] by (cases "grade_apply op l") (simp_all add: grade_step_def)

lemma grade_run_ok: "ledger_ok (grade_run ops)"
proof -
  have "ledger_ok l \<Longrightarrow> ledger_ok (foldl grade_step l ops)" for l
    by (induction ops arbitrary: l) (auto simp: grade_step_ok)
  then show ?thesis unfolding grade_run_def using ledger_ok_new by blast
qed

lemma grade_run_grows:
  "\<exists>rs. gl_records (grade_run (ops @ ops')) = gl_records (grade_run ops) @ rs"
  "set (revoked (grade_run ops)) \<subseteq> set (revoked (grade_run (ops @ ops')))"
  "bt_get (baseline (grade_run ops)) a = Some g \<Longrightarrow> bt_get (baseline (grade_run (ops @ ops'))) a = Some g"
proof -
  have "(\<exists>rs. gl_records (grade_run (ops @ ops')) = gl_records (grade_run ops) @ rs)
    \<and> set (revoked (grade_run ops)) \<subseteq> set (revoked (grade_run (ops @ ops')))
    \<and> (bt_get (baseline (grade_run ops)) a = Some g \<longrightarrow> bt_get (baseline (grade_run (ops @ ops'))) a = Some g)"
  proof (induction ops' rule: rev_induct)
    case (snoc op ops')
    have "grade_run (ops @ ops' @ [op]) = grade_step (grade_run (ops @ ops')) op"
      by (simp add: grade_run_def)
    then show ?case using snoc grade_step_ok [OF grade_run_ok [of "ops @ ops'"], of op] by auto
  qed simp
  then show "\<exists>rs. gl_records (grade_run (ops @ ops')) = gl_records (grade_run ops) @ rs"
    "set (revoked (grade_run ops)) \<subseteq> set (revoked (grade_run (ops @ ops')))"
    "bt_get (baseline (grade_run ops)) a = Some g \<Longrightarrow> bt_get (baseline (grade_run (ops @ ops'))) a = Some g"
    by blast+
qed

section \<open>Properties\<close>

lemma effective_grade_restored:
  assumes ok: "ledger_ok l" and r: "bt_get (gl_records l) r = Some x" "r \<notin> set (revoked l)"
    and xs: "set xs = newly_revoked l r"
  shows "effective_grade (revoked_ledger l xs reason actor) (gr_artifact x) = Some (gr_from x)"
proof -
  have mem: "(r, x) \<in> set (gl_records l)" using r(1) by (rule bt_get_SomeD)
  have rec: "gr_ordinal x = r" "gr_artifact x \<in> fst ` set (baseline l)"
    using ledger_okD(5) [OF ok mem] by (simp_all add: grade_record_ok_def)
  then obtain b where b: "bt_get (baseline l) (gr_artifact x) = Some b"
    using bt_get_None_iff [of "baseline l" "gr_artifact x"] by auto
  have "x \<in> set (active l (gr_artifact x))"
    using mem rec(1) r(2) by (force simp: active_def set_bt_values)
  then obtain as bs where split: "active l (gr_artifact x) = as @ x # bs" by (auto dest: split_list)
  have "gr_ordinal y < r" if "y \<in> set as" for y
    using active_sorted [OF ok, of "gr_artifact x"] that rec(1) by (auto simp: split sorted_wrt_append)
  then have "gr_ordinal y \<notin> newly_revoked l r" if "y \<in> set as" for y
    using that deps_increase [of r "gr_ordinal y" l] by (fastforce simp: newly_revoked_def)
  moreover have "gr_ordinal x \<in> newly_revoked l r" using rec(1) r(2) by (simp add: newly_revoked_def)
  ultimately have "takeWhile (\<lambda>y. gr_ordinal y \<notin> newly_revoked l r) (as @ x # bs) = as"
    by (induction as) auto
  moreover have "gr_from x = chain_end b as"
    using ledger_okD(8) [OF ok b] by (simp add: split grade_chain_append)
  ultimately show ?thesis
    using b active_revoked [OF ok b xs] by (simp add: effective_grade_active split)
qed

text \<open>
  C16: Every ledger a sequence of operations builds is well formed, and no operation on it
  panics. In particular the unrevoked upgrades of an artifact form a chain of allowed,
  evidence-backed steps from its baseline to its effective grade, a record that cites a
  revoked record is itself revoked, and every revoked record has exactly one revocation note.
  History is append-only: records, revocations and baselines persist.
\<close>

theorem grade_ledger_invariant:
  "ledger_ok (grade_run ops) \<and> grade_apply op (grade_run ops) \<noteq> Panicked
    \<and> (\<exists>rs. gl_records (grade_run (ops @ later)) = gl_records (grade_run ops) @ rs)
    \<and> set (revoked (grade_run ops)) \<subseteq> set (revoked (grade_run (ops @ later)))
    \<and> effective_grade (grade_run ops) a =
        map_option (\<lambda>b. chain_end b (active (grade_run ops) a)) (bt_get (baseline (grade_run ops)) a)"
  using grade_run_ok [of ops] grade_apply_no_panic [of "grade_run ops" op] grade_run_grows(1,2) [of ops later]
    effective_grade_active [of "grade_run ops" a] by blast

text \<open>
  C17: Revoking an active record succeeds; it revokes exactly the records reachable from it by
  the dependency relation, reports how many, keeps every record and baseline, and leaves the
  artifact at exactly the grade the revoked upgrade started from.
\<close>

theorem revocation_restores_grade:
  assumes "ledger_ok l" "bt_get (gl_records l) r = Some x" "r \<notin> set (revoked l)"
  shows "\<exists>l'. revoke_upgrade r reason actor l = Ok (l', card (newly_revoked l r)) \<and> ledger_ok l'
    \<and> gl_records l' = gl_records l \<and> baseline l' = baseline l
    \<and> set (revoked l') = set (revoked l) \<union> (grade_deps l)\<^sup>* `` {r}
    \<and> effective_grade l' (gr_artifact x) = Some (gr_from x)"
proof -
  have key: "r \<in> fst ` set (gl_records l)" using assms(2) bt_get_None_iff [of "gl_records l" r] by auto
  have ne: "r \<in> newly_revoked l r" using assms(3) by (simp add: newly_revoked_def)
  from assms(1) show ?thesis
  proof (cases rule: revoke_upgrade_cases [of _ r reason actor])
    case missing
    then show ?thesis using key by blast
  next
    case already
    then show ?thesis using ne by blast
  next
    case (revokes xs)
    have "length xs = card (newly_revoked l r)"
      using distinct_card [OF bs_ok_distinct [OF revokes(3)]] revokes(4) by simp
    then show ?thesis
      using revokes revoked_ledger_ok [OF assms(1) key revokes(3,4)]
        effective_grade_restored [OF assms revokes(4)]
      by (intro exI [of _ "revoked_ledger l xs reason actor"]) (auto simp: newly_revoked_def)
  qed
qed

definition sample_ops :: "grade_op list" where
  "sample_ops =
     [Declare ''a'' GradeObservedOnly, Declare ''b'' GradeObservedOnly,
      Upgrade ''a'' GradeSoundOverapproximation (TestRun ''t'') ''me'',
      Upgrade ''a'' GradeComplete (VerificationReceipt ''d'') ''me'',
      Upgrade ''b'' GradeComplete (PriorUpgrade 1) ''me'']"

definition sample_record :: grade_upgrade_record where
  "sample_record = \<lparr>gr_artifact = ''a'', gr_from = GradeObservedOnly, gr_to = GradeSoundOverapproximation,
     gr_evidence = TestRun ''t'', gr_actor = ''me'', gr_ordinal = 0\<rparr>"

theorem revocation_restores_grade_witness:
  "ledger_ok (grade_run sample_ops) \<and> bt_get (gl_records (grade_run sample_ops)) 0 = Some sample_record
    \<and> 0 \<notin> set (revoked (grade_run sample_ops))
    \<and> effective_grade (grade_run sample_ops) ''a'' = Some GradeComplete
    \<and> (\<exists>l' n. revoke_upgrade 0 ''r'' ''me'' (grade_run sample_ops) = Ok (l', n)
         \<and> effective_grade l' ''a'' = Some GradeObservedOnly)"
proof -
  have run: "bt_get (gl_records (grade_run sample_ops)) 0 = Some sample_record"
    "0 \<notin> set (revoked (grade_run sample_ops))"
    "effective_grade (grade_run sample_ops) ''a'' = Some GradeComplete" by code_simp+
  show ?thesis
    using revocation_restores_grade [OF grade_run_ok run(1,2), of "''r''" "''me''"] grade_run_ok run
    by (auto simp: sample_record_def)
qed

text \<open>
  C18: After \<open>revoke_evidence\<close> no unrevoked record carries the evidence identifier, whatever
  the history of the ledger; the operation always succeeds and removes no record.
\<close>

theorem revoke_evidence_complete:
  "\<exists>l' n. revoke_evidence i reason actor (grade_run ops) = Ok (l', n) \<and> ledger_ok l'
    \<and> gl_records l' = gl_records (grade_run ops)
    \<and> filter (\<lambda>e. evidence_id (gr_evidence (snd e)) = i \<and> \<not> is_revoked l' (fst e)) (gl_records l') = []"
proof -
  obtain l' n where l': "revoke_evidence i reason actor (grade_run ops) = Ok (l', n)" "ledger_ok l'"
      "gl_records l' = gl_records (grade_run ops)"
      "\<forall>e \<in> set (gl_records l'). evidence_id (gr_evidence (snd e)) = i \<longrightarrow> fst e \<in> set (revoked l')"
    using revoke_evidence_ok [OF grade_run_ok [of ops], of i reason actor] by blast
  have "filter (\<lambda>e. evidence_id (gr_evidence (snd e)) = i \<and> \<not> is_revoked l' (fst e)) (gl_records l') = []"
    using l'(4) by (simp add: filter_empty_conv is_revoked_def)
  then show ?thesis using l'(1,2,3) by blast
qed

text \<open>
  The two grade vocabularies translate into each other exactly: a grade maps to a hub
  grade if and only if that hub grade maps back to it, for the same kind of claim, and only
  the bounded grade has no hub equivalent, for absence claims.
\<close>

theorem hub_grades_correspond:
  "(hub_equivalent g k = Some h \<longleftrightarrow> grade_from_hub h k = Some g)
    \<and> (hub_equivalent g k = None \<longleftrightarrow> g = GradeSoundOverapproximation \<and> k = ClaimAbsence)
    \<and> (grade_from_hub h k = None \<longleftrightarrow> h = HubBoundedComplete \<and> k = ClaimAbsence)"
  by (cases g; cases k; cases h) simp_all

text \<open>
  Revoking a record a second time can revoke an unrelated active record: the implicit
  dependency compares grades only, so an upgrade that started from a later, still active
  upgrade to the same grade counts as dependent on the revoked one.
\<close>

definition repeated_ops :: "grade_op list" where
  "repeated_ops =
     [Declare ''a'' GradeObservedOnly,
      Upgrade ''a'' GradeSoundOverapproximation (TestRun ''t'') ''me'',
      Revoke 0 ''r'' ''me'',
      Upgrade ''a'' GradeSoundOverapproximation (TestRun ''u'') ''me'',
      Upgrade ''a'' GradeComplete (VerificationReceipt ''d'') ''me'']"

lemma repeated_revocation_overreaches:
  "is_revoked (grade_run repeated_ops) 0 \<and> \<not> is_revoked (grade_run repeated_ops) 3
    \<and> r_map snd (revoke_upgrade 0 ''r'' ''me'' (grade_run repeated_ops)) = Ok 1
    \<and> r_map (\<lambda>(l, n). is_revoked l 3) (revoke_upgrade 0 ''r'' ''me'' (grade_run repeated_ops)) = Ok True"
  by code_simp

end
