(* ===== verification/Derivability.thy ===== *)
theory Derivability
  imports Refinement Grades
begin

text \<open>
  The three-valued derivability predicate
  (crates/graphzero/graphzero-core/src/derivability.rs): a breadth-first search from the
  declared roots that stops at the queried artifact and reconstructs a proof path from its
  parent map. The search is a total function; the walk back along the parent map is a partial
  function, shown to return on every map the search builds.
\<close>

section \<open>Answers\<close>

datatype unknown_reason = ArtifactUnknown | RuntimeObservedRegion nat

datatype 'a derivability_answer =
    Derivable 'a "'a list" grade_name truth_class
  | NotDerivable bool coverage_class
  | DerivabilityUnknown unknown_reason

primrec answer_is_derivable :: "'a derivability_answer \<Rightarrow> bool" where
  "answer_is_derivable (Derivable root path grade truth) = True"
| "answer_is_derivable (NotDerivable certified coverage) = False"
| "answer_is_derivable (DerivabilityUnknown reason) = False"

primrec answer_grade :: "'a derivability_answer \<Rightarrow> grade_name option" where
  "answer_grade (Derivable root path grade truth) = Some grade"
| "answer_grade (NotDerivable certified coverage) = None"
| "answer_grade (DerivabilityUnknown reason) = None"

record 'a derivability_predicate =
  dp_graph :: "'a dependency_graph"
  dp_roots :: "'a btree_set"
  dp_runtime_edges :: "('a \<times> 'a) btree_set"
  dp_coverage :: coverage_class

definition derivability_new ::
  "'a dependency_graph \<Rightarrow> 'a btree_set \<Rightarrow> coverage_class \<Rightarrow> 'a derivability_predicate" where
  "derivability_new g roots coverage =
     \<lparr>dp_graph = g, dp_roots = roots, dp_runtime_edges = [], dp_coverage = coverage\<rparr>"

definition mark_runtime_observed ::
  "'a :: linorder \<Rightarrow> 'a \<Rightarrow> 'a derivability_predicate \<Rightarrow> 'a derivability_predicate" where
  "mark_runtime_observed input output p =
     p\<lparr>dp_runtime_edges := bs_insert (input, output) (dp_runtime_edges p)\<rparr>"

definition runtime_edges_of :: "'a :: linorder refinement_loop \<Rightarrow> ('a \<times> 'a) btree_set" where
  "runtime_edges_of lp =
     foldl (\<lambda>s (input, targets).
       foldl (\<lambda>s output. if provenance_of lp input output = Some EdgeRuntimeObserved
                         then bs_insert (input, output) s else s) s targets)
       [] (forward (rl_graph lp))"

definition from_refinement_loop ::
  "'a :: linorder refinement_loop \<Rightarrow> 'a btree_set \<Rightarrow> coverage_class \<Rightarrow> 'a derivability_predicate" where
  "from_refinement_loop lp roots coverage =
     \<lparr>dp_graph = rl_graph lp, dp_roots = roots, dp_runtime_edges = runtime_edges_of lp,
      dp_coverage = coverage\<rparr>"

section \<open>The search\<close>

record 'a search_st =
  parent :: "('a, 'a) btree_map"
  queue :: "'a list"
  reached :: "'a btree_set"

definition search_init :: "'a :: linorder btree_set \<Rightarrow> 'a search_st" where
  "search_init roots =
     foldl (\<lambda>st root. if root \<in> set (reached st) then st
                      else st\<lparr>reached := bs_insert root (reached st), queue := queue st @ [root]\<rparr>)
       \<lparr>parent = [], queue = [], reached = []\<rparr> roots"

definition search_visit :: "'a :: linorder \<Rightarrow> 'a btree_set \<Rightarrow> 'a search_st \<Rightarrow> 'a search_st" where
  "search_visit u targets st =
     foldl (\<lambda>st v. if v \<in> set (reached st) then st
                   else \<lparr>parent = bt_insert v u (parent st), queue = queue st @ [v],
                         reached = bs_insert v (reached st)\<rparr>) st targets"

text \<open>The same visit without parents is that of the upward closure.\<close>

lemma search_visit_closure:
  "(reached (search_visit u ts st), queue (search_visit u ts st)) = closure_visit ts (reached st, queue st)"
  unfolding search_visit_def closure_visit_def
  by (induction ts arbitrary: st) (simp_all split: if_splits)

lemma search_visit_spec:
  "set (reached (search_visit u ts st)) = set (reached st) \<union> set ts"
  "set (queue (search_visit u ts st)) = set (queue st) \<union> (set ts - set (reached st))"
  "finite T \<Longrightarrow> set ts \<subseteq> T \<Longrightarrow>
     2 * card (T - set (reached (search_visit u ts st))) + length (queue (search_visit u ts st))
       \<le> 2 * card (T - set (reached st)) + length (queue st)"
  using closure_visit_spec [OF search_visit_closure [of u ts st, symmetric], of T] by blast+

function search_loop :: "'a :: linorder dependency_graph \<Rightarrow> 'a \<Rightarrow> 'a search_st \<Rightarrow> 'a search_st" where
  "search_loop g x st =
     (case queue st of
        [] \<Rightarrow> st
      | u # q \<Rightarrow>
          if u = x then st\<lparr>queue := q\<rparr>
          else (case bt_get (forward g) u of
                  None \<Rightarrow> search_loop g x (st\<lparr>queue := q\<rparr>)
                | Some targets \<Rightarrow> search_loop g x (search_visit u targets (st\<lparr>queue := q\<rparr>))))"
  by pat_completeness auto

termination
proof (relation "measure (\<lambda>(g, x, st). 2 * card (graph_targets g - set (reached st)) + length (queue st))",
    goal_cases)
  case 1
  then show ?case by simp
next
  case (2 g x st u q)
  then show ?case by simp
next
  case (3 g x st u q ts)
  then show ?case
    using search_visit_spec(3) [OF finite_graph_targets bt_get_targets [OF 3(3)], of u "st\<lparr>queue := q\<rparr>"] by simp
qed

declare search_loop.simps [simp del]

text \<open>Walking the parent map back from an artifact, most recent first.\<close>

partial_function (option) path_back :: "('a :: linorder, 'a) btree_map \<Rightarrow> 'a \<Rightarrow> 'a list option" where
  "path_back m current =
     (case bt_get m current of
        None \<Rightarrow> Some [current]
      | Some p \<Rightarrow> Option.bind (path_back m p) (\<lambda>rest. Some (current # rest)))"

primrec windows2 :: "'a list \<Rightarrow> ('a \<times> 'a) list" where
  "windows2 [] = []"
| "windows2 (u # us) = (case us of [] \<Rightarrow> [] | v # _ \<Rightarrow> [(u, v)]) @ windows2 us"

definition derivability :: "'a :: linorder derivability_predicate \<Rightarrow> 'a \<Rightarrow> 'a derivability_answer option" where
  "derivability p x =
     (if \<not> bt_contains_key (forward (dp_graph p)) x then Some (DerivabilityUnknown ArtifactUnknown)
      else let st = search_loop (dp_graph p) x (search_init (dp_roots p)) in
        if x \<in> set (reached st)
        then map_option (\<lambda>back.
               let path = rev back;
                   any_runtime = list_ex (\<lambda>w. w \<in> set (dp_runtime_edges p)) (windows2 path)
               in if any_runtime
                  then Derivable (hd path) path GradeObservedOnly TruthRuntimeObserved
                  else Derivable (hd path) path GradeSoundOverapproximation TruthSoundOverapproximation)
               (path_back (parent st) x)
        else if dp_runtime_edges p \<noteq> []
        then Some (DerivabilityUnknown (RuntimeObservedRegion (length (dp_runtime_edges p))))
        else Some (NotDerivable (permits_absence_certificate (dp_coverage p)) (dp_coverage p)))"

section \<open>Search trees\<close>

inductive tree_path :: "('a :: linorder, 'a) btree_map \<Rightarrow> 'a set \<Rightarrow> 'a \<Rightarrow> 'a list \<Rightarrow> bool"
  for m roots where
  tree_root: "r \<in> roots \<Longrightarrow> bt_get m r = None \<Longrightarrow> tree_path m roots r [r]"
| tree_step: "bt_get m v = Some u \<Longrightarrow> tree_path m roots u path \<Longrightarrow> tree_path m roots v (path @ [v])"

lemma tree_path_back: "tree_path m roots v path \<Longrightarrow> path_back m v = Some (rev path)"
  by (induction rule: tree_path.induct) (simp_all add: path_back.simps)

lemma tree_path_extend:
  "tree_path m roots w path \<Longrightarrow> v \<notin> roots \<Longrightarrow> bt_get m v = None \<Longrightarrow> tree_path (bt_insert v u m) roots w path"
proof (induction rule: tree_path.induct)
  case (tree_root r)
  then show ?case by (auto intro: tree_path.tree_root)
next
  case (tree_step w u' path)
  then have "bt_get (bt_insert v u m) w = Some u'" by auto
  then show ?case using tree_step tree_path.tree_step by blast
qed

lemma tree_path_ends: "tree_path m roots v path \<Longrightarrow> path \<noteq> [] \<and> hd path \<in> roots \<and> last path = v"
  by (induction rule: tree_path.induct) auto

lemma tree_path_walk:
  "tree_path m roots v path \<Longrightarrow> (\<And>a b. bt_get m a = Some b \<Longrightarrow> (b, a) \<in> E) \<Longrightarrow>
     successively (\<lambda>a b. (a, b) \<in> E) path"
proof (induction rule: tree_path.induct)
  case (tree_step v u path)
  then show ?case using tree_path_ends [OF tree_step.hyps(2)] by (simp add: successively_append_iff)
qed simp

definition search_inv :: "'a :: linorder dependency_graph \<Rightarrow> 'a set \<Rightarrow> 'a search_st \<Rightarrow> bool" where
  "search_inv g roots st \<longleftrightarrow>
     roots \<subseteq> set (reached st) \<and> set (queue st) \<subseteq> set (reached st)
     \<and> set (reached st) \<subseteq> (dep_edges g)\<^sup>* `` roots
     \<and> (\<forall>v u. bt_get (parent st) v = Some u \<longrightarrow> (u, v) \<in> dep_edges g \<and> v \<in> set (reached st))
     \<and> (\<forall>v \<in> set (reached st). \<exists>path. tree_path (parent st) roots v path)"

lemma search_inv_discover:
  assumes inv: "search_inv g roots st" and u: "u \<in> set (reached st)" "(u, v) \<in> dep_edges g"
    and v: "v \<notin> set (reached st)"
  shows "search_inv g roots \<lparr>parent = bt_insert v u (parent st), queue = queue st @ [v],
    reached = bs_insert v (reached st)\<rparr>"
proof -
  have fresh: "bt_get (parent st) v = None" "v \<notin> roots"
    using inv v unfolding search_inv_def by (meson not_None_eq, blast)
  have tree: "\<exists>path. tree_path (bt_insert v u (parent st)) roots w path" if "w \<in> set (reached st)" for w
    using inv that tree_path_extend [OF _ fresh(2,1)] unfolding search_inv_def by blast
  then obtain path where "tree_path (bt_insert v u (parent st)) roots u path" using u(1) by blast
  then have "tree_path (bt_insert v u (parent st)) roots v (path @ [v])"
    by (intro tree_path.tree_step [of _ v u]) auto
  moreover have "v \<in> (dep_edges g)\<^sup>* `` roots"
  proof -
    have "u \<in> (dep_edges g)\<^sup>* `` roots" using inv u(1) unfolding search_inv_def by blast
    then show ?thesis using u(2) by (auto intro: rtrancl_into_rtrancl)
  qed
  moreover have "\<forall>a b. bt_get (bt_insert v u (parent st)) a = Some b \<longrightarrow>
      (b, a) \<in> dep_edges g \<and> a \<in> insert v (set (reached st))"
    using inv u(2) by (simp add: search_inv_def)
  ultimately show ?thesis
    using inv tree unfolding search_inv_def by auto
qed

lemma search_inv_visit:
  assumes "search_inv g roots st" "u \<in> set (reached st)" "\<And>v. v \<in> set ts \<Longrightarrow> (u, v) \<in> dep_edges g"
  shows "search_inv g roots (search_visit u ts st)"
  using assms unfolding search_visit_def
proof (induction ts arbitrary: st)
  case (Cons v ts)
  then show ?case using search_inv_discover [OF Cons.prems(1,2), of v] by simp
qed simp

lemma search_loop_inv:
  "search_inv g roots st \<Longrightarrow> dep_edges g `` (set (reached st) - set (queue st)) \<subseteq> set (reached st) \<Longrightarrow>
     search_inv g roots (search_loop g x st) \<and>
     (x \<in> set (reached (search_loop g x st)) \<or>
      set (reached (search_loop g x st)) = (dep_edges g)\<^sup>* `` roots)"
proof (induction g x st rule: search_loop.induct)
  case (1 g x st)
  show ?case
  proof (cases "queue st")
    case Nil
    then have "dep_edges g `` set (reached st) \<subseteq> set (reached st)" using "1.prems"(2) by simp
    then have closed: "(dep_edges g)\<^sup>* `` set (reached st) = set (reached st)" by (rule closed_rtrancl)
    have "(dep_edges g)\<^sup>* `` roots \<subseteq> (dep_edges g)\<^sup>* `` set (reached st)"
      using "1.prems"(1) by (auto simp: search_inv_def)
    then have "set (reached st) = (dep_edges g)\<^sup>* `` roots"
      using "1.prems"(1) unfolding closed search_inv_def by blast
    then show ?thesis using "1.prems"(1) Nil by (simp add: search_loop.simps)
  next
    case (Cons u q)
    have u: "u \<in> set (reached st)" using "1.prems"(1) Cons by (auto simp: search_inv_def)
    have inv: "search_inv g roots (st\<lparr>queue := q\<rparr>)"
      using "1.prems"(1) Cons by (auto simp: search_inv_def)
    show ?thesis
    proof (cases "u = x")
      case True
      then show ?thesis using inv u Cons by (simp add: search_loop.simps [of g x st])
    next
      case False
      show ?thesis
      proof (cases "bt_get (forward g) u")
        case None
        have "dep_edges g `` (set (reached st) - set q) \<subseteq> set (reached st)"
          using "1.prems"(2) edges_Image_None [OF None] unfolding Cons by (rule drain_None)
        then show ?thesis
          using "1.IH"(1) [OF Cons False None] inv Cons False None by (simp add: search_loop.simps [of g x st])
      next
        case (Some ts)
        let ?st = "search_visit u ts (st\<lparr>queue := q\<rparr>)"
        have vs: "set (reached ?st) = set (reached st) \<union> set ts"
            "set (queue ?st) = set q \<union> (set ts - set (reached st))"
          using search_visit_spec(1,2) [of u ts "st\<lparr>queue := q\<rparr>"] by simp_all
        have "search_inv g roots ?st"
          by (rule search_inv_visit [OF inv]) (use u Some in \<open>auto simp: dep_edges_def\<close>)
        moreover have "dep_edges g `` (set (reached ?st) - set (queue ?st)) \<subseteq> set (reached ?st)"
          using "1.prems"(2) edges_Image_Some [OF Some] vs unfolding Cons by (rule drain_Some)
        ultimately show ?thesis
          using "1.IH"(2) [OF Cons False Some] Cons False Some by (simp add: search_loop.simps [of g x st])
      qed
    qed
  qed
qed

lemma search_init_spec:
  "set (reached (search_init roots)) = set roots \<and> set (queue (search_init roots)) = set roots
    \<and> parent (search_init roots) = []"
proof -
  have "set (reached st) = set (queue st) \<Longrightarrow>
      set (reached (foldl (\<lambda>st root. if root \<in> set (reached st) then st
        else st\<lparr>reached := bs_insert root (reached st), queue := queue st @ [root]\<rparr>) st rs)) = set (reached st) \<union> set rs
      \<and> set (queue (foldl (\<lambda>st root. if root \<in> set (reached st) then st
        else st\<lparr>reached := bs_insert root (reached st), queue := queue st @ [root]\<rparr>) st rs)) = set (reached st) \<union> set rs
      \<and> parent (foldl (\<lambda>st root. if root \<in> set (reached st) then st
        else st\<lparr>reached := bs_insert root (reached st), queue := queue st @ [root]\<rparr>) st rs) = parent st" for st :: "'a search_st" and rs
    by (induction rs arbitrary: st) auto
  then show ?thesis by (simp add: search_init_def)
qed

lemma search_inv_init: "search_inv g (set roots) (search_init roots)"
  using search_init_spec [of roots] by (auto simp: search_inv_def intro!: exI tree_path.tree_root)

lemma search_result:
  assumes st: "st = search_loop g x (search_init roots)"
  shows "search_inv g (set roots) st" "x \<in> set (reached st) \<longleftrightarrow> x \<in> (dep_edges g)\<^sup>* `` set roots"
proof -
  have "search_inv g (set roots) st \<and>
     (x \<in> set (reached st) \<or> set (reached st) = (dep_edges g)\<^sup>* `` set roots)"
    unfolding st
    by (rule search_loop_inv [OF search_inv_init]) (simp add: search_init_spec [of roots])
  then show "search_inv g (set roots) st" "x \<in> set (reached st) \<longleftrightarrow> x \<in> (dep_edges g)\<^sup>* `` set roots"
    unfolding search_inv_def by blast+
qed

section \<open>Properties\<close>

text \<open>
  C19: The predicate always answers, and every answer is justified. A derivable answer
  carries a walk of dependency edges from a declared root to the artifact, graded as observed
  exactly when the walk uses a runtime-observed edge. A negative answer, or the answer that the
  region is runtime-observed, is given only when no root reaches the artifact; it is certified
  exactly under complete coverage and never while runtime-observed edges are known. An unknown
  artifact is one the graph does not contain.
\<close>

theorem derivability_answers:
  "\<exists>ans. derivability p x = Some ans \<and>
     (case ans of
        Derivable root path grade truth \<Rightarrow>
          root \<in> set (dp_roots p) \<and> path \<noteq> [] \<and> hd path = root \<and> last path = x
          \<and> successively (\<lambda>a b. (a, b) \<in> dep_edges (dp_graph p)) path
          \<and> (grade, truth) = (if set (windows2 path) \<inter> set (dp_runtime_edges p) \<noteq> {}
               then (GradeObservedOnly, TruthRuntimeObserved)
               else (GradeSoundOverapproximation, TruthSoundOverapproximation))
      | NotDerivable certified coverage \<Rightarrow>
          x \<notin> (dep_edges (dp_graph p))\<^sup>* `` set (dp_roots p) \<and> dp_runtime_edges p = []
          \<and> coverage = dp_coverage p \<and> (certified \<longleftrightarrow> coverage = CovComplete)
      | DerivabilityUnknown ArtifactUnknown \<Rightarrow> x \<notin> fst ` set (forward (dp_graph p))
      | DerivabilityUnknown (RuntimeObservedRegion n) \<Rightarrow>
          x \<notin> (dep_edges (dp_graph p))\<^sup>* `` set (dp_roots p)
          \<and> n = length (dp_runtime_edges p) \<and> 0 < n)"
proof (cases "bt_contains_key (forward (dp_graph p)) x")
  case False
  then show ?thesis by (simp add: derivability_def bt_contains_key_iff)
next
  case True
  define st where "st = search_loop (dp_graph p) x (search_init (dp_roots p))"
  note res = search_result [OF st_def]
  show ?thesis
  proof (cases "x \<in> set (reached st)")
    case False
    then show ?thesis
      using True res(2) by (cases "dp_coverage p") (auto simp: derivability_def Let_def st_def [symmetric])
  next
    case in_reached: True
    obtain path where path: "tree_path (parent st) (set (dp_roots p)) x path"
      using res(1) in_reached unfolding search_inv_def by blast
    have "\<And>a b. bt_get (parent st) a = Some b \<Longrightarrow> (b, a) \<in> dep_edges (dp_graph p)"
      using res(1) unfolding search_inv_def by blast
    note walk = tree_path_walk [OF path this]
    have "list_ex (\<lambda>w. w \<in> set (dp_runtime_edges p)) (windows2 path) \<longleftrightarrow>
        set (windows2 path) \<inter> set (dp_runtime_edges p) \<noteq> {}" by (auto simp: list_ex_iff)
    then show ?thesis
      using True in_reached tree_path_back [OF path] tree_path_ends [OF path] walk
      by (simp add: derivability_def Let_def st_def [symmetric])
  qed
qed

lemma runtime_edges_inner:
  "set (foldl (\<lambda>s v. if P v then bs_insert (u, v) s else s) s ts) = set s \<union> {(u, v) |v. v \<in> set ts \<and> P v}"
  by (induction ts arbitrary: s) auto

lemma runtime_edges_outer:
  "set (foldl (\<lambda>s (u, ts). foldl (\<lambda>s v. if P u v then bs_insert (u, v) s else s) s ts) s es) =
     set s \<union> {(u, v) |u v ts. (u, ts) \<in> set es \<and> v \<in> set ts \<and> P u v}"
proof (induction es arbitrary: s)
  case (Cons e es)
  obtain u ts where e: "e = (u, ts)" by (cases e)
  show ?case using Cons.IH [of "foldl (\<lambda>s v. if P u v then bs_insert (u, v) s else s) s ts"]
    by (auto simp: e runtime_edges_inner)
qed simp

lemma runtime_edges_of_refined:
  "obs_edge ` set obs - dep_edges g \<subseteq> set (runtime_edges_of (sweep obs (refinement_new g)))"
proof
  let ?lp = "sweep obs (refinement_new g)"
  fix e
  assume e: "e \<in> obs_edge ` set obs - dep_edges g"
  obtain u v where uv: "e = (u, v)" by (cases e)
  have inv: "loop_inv g ?lp" by (rule loop_inv_sweep [OF loop_inv_new])
  have "dep_edges (rl_graph ?lp) = dep_edges g \<union> obs_edge ` set obs"
    by (simp add: sweep_edges refinement_new_def)
  then have mem: "(u, v) \<in> dep_edges (rl_graph ?lp)" "(u, v) \<in> set (added_edges ?lp)"
    using e inv uv unfolding loop_inv_def by blast+
  then obtain ts where "(u, ts) \<in> set (forward (rl_graph ?lp))" "v \<in> set ts"
    by (auto simp: dep_edges_def dest: bt_get_SomeD)
  moreover have "provenance_of ?lp u v = Some EdgeRuntimeObserved"
    using provenance_inv [OF inv, of u v] mem(2) e uv by simp
  ultimately show "e \<in> set (runtime_edges_of ?lp)"
    unfolding runtime_edges_of_def runtime_edges_outer uv by auto
qed

text \<open>
  C20: Refinement and derivability compose safely. Once an observation has added an edge to
  the graph, a predicate built from the refined loop never asserts absence: an unreachable
  artifact is answered as unknown, under every declared coverage.
\<close>

theorem refined_absence_withheld:
  assumes "\<not> obs_edge ` set obs \<subseteq> dep_edges g"
  shows "derivability (from_refinement_loop (sweep obs (refinement_new g)) roots coverage) x
    \<noteq> Some (NotDerivable certified cov)"
proof -
  have "runtime_edges_of (sweep obs (refinement_new g)) \<noteq> []"
    using assms runtime_edges_of_refined [of obs g] by auto
  then show ?thesis
    by (auto simp: derivability_def from_refinement_loop_def Let_def split: if_splits)
qed

definition sample_observation :: "nat observed_influence" where
  "sample_observation = \<lparr>obs_source = 1, obs_target = 2, obs_evidence = ''trace''\<rparr>"

theorem refined_absence_withheld_witness:
  "\<not> obs_edge ` set [sample_observation] \<subseteq> dep_edges (graph_new ExactSupport)
    \<and> derivability (from_refinement_loop (sweep [sample_observation] (refinement_new (graph_new ExactSupport)))
         [2] CovComplete) 1 = Some (DerivabilityUnknown (RuntimeObservedRegion 1))
    \<and> derivability (from_refinement_loop (sweep [sample_observation] (refinement_new (graph_new ExactSupport)))
         [2] CovComplete) 1 \<noteq> Some (NotDerivable True CovComplete)"
proof -
  have new: "\<not> obs_edge ` set [sample_observation] \<subseteq> dep_edges (graph_new ExactSupport :: nat dependency_graph)"
    by simp
  have "derivability (from_refinement_loop (sweep [sample_observation] (refinement_new (graph_new ExactSupport)))
      [2] CovComplete) 1 = Some (DerivabilityUnknown (RuntimeObservedRegion 1))"
    by code_simp
  then show ?thesis
    using refined_absence_withheld [OF new, of "[2]" CovComplete 1 True CovComplete] new by blast
qed

end
