(* ===== verification/Dirty_Tracking.thy ===== *)
theory Dirty_Tracking
  imports Dependency_Graph
begin

text \<open>
  Dirty sets from a change journal: recorded dependency closures
  (crates/graphzero/graphzero-core/src/invalidation.rs), the journal and the dirty report
  (graphzero-core/src/dirty.rs), and the schema stamps the report carries
  (graphzero-types/src/schema_version.rs).
\<close>

section \<open>Schema stamps\<close>

datatype store_segment_kind = SegFingerprint | SegDirtySet | SegSnapshot

primrec segment_as_str :: "store_segment_kind \<Rightarrow> string" where
  "segment_as_str SegFingerprint = ''fingerprint''"
| "segment_as_str SegDirtySet = ''dirty_set''"
| "segment_as_str SegSnapshot = ''snapshot''"

definition store_schema_major :: u32 where
  "store_schema_major = 1"

definition store_schema_minor :: u32 where
  "store_schema_minor = 0"

record schema_version_stamp =
  schema_major :: u32
  schema_minor :: u32
  writer_version :: string

definition stamp_current :: "string \<Rightarrow> schema_version_stamp" where
  "stamp_current writer =
     \<lparr>schema_major = store_schema_major, schema_minor = store_schema_minor, writer_version = writer\<rparr>"

definition stamp_new :: "u32 \<Rightarrow> u32 \<Rightarrow> string \<Rightarrow> schema_version_stamp" where
  "stamp_new major minor writer =
     \<lparr>schema_major = major, schema_minor = minor, writer_version = writer\<rparr>"

datatype admit_outcome = Compatible | DegradedOlderMinor

datatype schema_refuse_reason = NewerMajor | OlderMajor

primrec refuse_reason_as_str :: "schema_refuse_reason \<Rightarrow> string" where
  "refuse_reason_as_str NewerMajor = ''newer_major''"
| "refuse_reason_as_str OlderMajor = ''older_major''"

record schema_version_error =
  err_segment :: store_segment_kind
  err_found_major :: u32
  err_found_minor :: u32
  err_supported_major :: u32
  err_supported_minor :: u32
  err_reason :: schema_refuse_reason

definition admit_read ::
  "store_segment_kind \<Rightarrow> schema_version_stamp \<Rightarrow> u32 \<Rightarrow> u32
    \<Rightarrow> (admit_outcome, schema_version_error) result" where
  "admit_read segment found supported_major supported_minor =
     (let refuse = (\<lambda>reason. \<lparr>err_segment = segment, err_found_major = schema_major found,
            err_found_minor = schema_minor found, err_supported_major = supported_major,
            err_supported_minor = supported_minor, err_reason = reason\<rparr>)
      in if schema_major found > supported_major then Err (refuse NewerMajor)
         else if schema_major found < supported_major then Err (refuse OlderMajor)
         else if schema_minor found < supported_minor then Ok DegradedOlderMinor
         else Ok Compatible)"

definition admit_current ::
  "store_segment_kind \<Rightarrow> schema_version_stamp \<Rightarrow> (admit_outcome, schema_version_error) result" where
  "admit_current segment found = admit_read segment found store_schema_major store_schema_minor"

record snapshot_schema_segment =
  seg_schema_major :: u32
  seg_schema_minor :: u32
  seg_writer_version :: string
  seg_snapshot_id :: u64
  seg_segment :: store_segment_kind

definition segment_for_snapshot :: "u64 \<Rightarrow> string \<Rightarrow> snapshot_schema_segment" where
  "segment_for_snapshot snapshot_id writer =
     (let stamp = stamp_current writer in
      \<lparr>seg_schema_major = schema_major stamp, seg_schema_minor = schema_minor stamp,
       seg_writer_version = writer_version stamp, seg_snapshot_id = snapshot_id,
       seg_segment = SegSnapshot\<rparr>)"

definition segment_stamp :: "snapshot_schema_segment \<Rightarrow> schema_version_stamp" where
  "segment_stamp s =
     \<lparr>schema_major = seg_schema_major s, schema_minor = seg_schema_minor s,
      writer_version = seg_writer_version s\<rparr>"

section \<open>Recorded closures\<close>

record ('a, 'h) dependency_closure_record =
  cl_artifact :: 'a
  cl_consulted :: "'a btree_set"
  cl_influence :: influence_class
  cl_producer_digest :: 'h

definition record_dependency_closure ::
  "'a \<Rightarrow> 'a btree_set \<Rightarrow> influence_class \<Rightarrow> 'h \<Rightarrow> ('a, 'h) dependency_closure_record" where
  "record_dependency_closure artifact consulted infl digest =
     \<lparr>cl_artifact = artifact, cl_consulted = consulted, cl_influence = infl, cl_producer_digest = digest\<rparr>"

definition dirty_from_closure ::
  "('a :: linorder, 'h) dependency_closure_record list \<Rightarrow> 'a btree_set \<Rightarrow> 'a btree_set" where
  "dirty_from_closure closures journal_changed =
     foldl (\<lambda>dirty rec. if list_ex (\<lambda>c. c \<in> set journal_changed) (cl_consulted rec)
                        then bs_insert (cl_artifact rec) dirty else dirty) [] closures"

section \<open>The change journal\<close>

datatype journal_event_kind = JournalCreate | JournalModify | JournalDelete | JournalRename

record 'a journal_event =
  ev_kind :: journal_event_kind
  ev_artifact :: 'a
  ev_to :: "'a option"

record 'h bookmark =
  bm_id :: 'h
  bm_label :: string

record ('a, 'h) dirty_report =
  dr_schema_major :: u32
  dr_schema_minor :: u32
  dr_writer_version :: string
  dr_since :: "'h bookmark"
  dr_journal_changed :: "'a btree_set"
  dr_dirty_artifacts :: "'a btree_set"
  dr_certificate :: "'a invalidation_certificate"

definition dirty_schema_stamp :: "('a, 'h) dirty_report \<Rightarrow> schema_version_stamp" where
  "dirty_schema_stamp r =
     \<lparr>schema_major = dr_schema_major r, schema_minor = dr_schema_minor r,
      writer_version = dr_writer_version r\<rparr>"

definition dirty_admit_schema ::
  "('a, 'h) dirty_report \<Rightarrow> (admit_outcome, schema_version_error) result" where
  "dirty_admit_schema r = admit_current SegDirtySet (dirty_schema_stamp r)"

text \<open>\<open>version\<close> is the crate version the build substitutes.\<close>

definition dirty_set_writer_version :: "string \<Rightarrow> string" where
  "dirty_set_writer_version version = ''graphzero-core@'' @ version"

definition stamp_dirty_report ::
  "string \<Rightarrow> 'h bookmark \<Rightarrow> 'a btree_set \<Rightarrow> 'a btree_set \<Rightarrow> 'a invalidation_certificate
    \<Rightarrow> ('a, 'h) dirty_report" where
  "stamp_dirty_report version since journal_changed dirty cert =
     (let stamp = stamp_current (dirty_set_writer_version version) in
      \<lparr>dr_schema_major = schema_major stamp, dr_schema_minor = schema_minor stamp,
       dr_writer_version = writer_version stamp, dr_since = since,
       dr_journal_changed = journal_changed, dr_dirty_artifacts = dirty, dr_certificate = cert\<rparr>)"

definition journal_changed_set :: "'a :: linorder journal_event list \<Rightarrow> 'a btree_set" where
  "journal_changed_set events =
     foldl (\<lambda>out e. let out = bs_insert (ev_artifact e) out
                    in case ev_to e of Some t \<Rightarrow> bs_insert t out | None \<Rightarrow> out) [] events"

definition dirty_since ::
  "string \<Rightarrow> 'h bookmark \<Rightarrow> 'a :: linorder journal_event list
    \<Rightarrow> ('a, 'h) dependency_closure_record list \<Rightarrow> 'a dependency_graph \<Rightarrow> ('a, 'h) dirty_report" where
  "dirty_since version since events closures g =
     (let journal_changed = journal_changed_set events;
          dirty = foldl (\<lambda>d c. bs_insert c d) (dirty_from_closure closures journal_changed) journal_changed;
          cert = certify_invalidation g dirty
      in stamp_dirty_report version since journal_changed (invalidated cert) cert)"

definition closures_graph :: "('a :: linorder, 'h) dependency_closure_record list \<Rightarrow> 'a dependency_graph" where
  "closures_graph closures =
     foldl (\<lambda>g rec. foldl (\<lambda>g c. add_dependency c (cl_artifact rec) g)
                      (ensure_node (cl_artifact rec) g) (cl_consulted rec))
       (graph_new SoundOverapproximation) closures"

definition dirty_since_closures_only ::
  "string \<Rightarrow> 'h bookmark \<Rightarrow> 'a :: linorder journal_event list
    \<Rightarrow> ('a, 'h) dependency_closure_record list \<Rightarrow> ('a, 'h) dirty_report" where
  "dirty_since_closures_only version since events closures =
     dirty_since version since events closures (closures_graph closures)"

section \<open>Sets\<close>

definition consulted_by :: "('a, 'h) dependency_closure_record list \<Rightarrow> ('a \<times> 'a) set" where
  "consulted_by closures = {(c, cl_artifact rec) |c rec. rec \<in> set closures \<and> c \<in> set (cl_consulted rec)}"

definition touched :: "'a journal_event list \<Rightarrow> 'a set" where
  "touched events = ev_artifact ` set events \<union> {t. \<exists>e \<in> set events. ev_to e = Some t}"

lemma journal_changed_fold:
  "set (foldl (\<lambda>out e. let out = bs_insert (ev_artifact e) out
      in case ev_to e of Some t \<Rightarrow> bs_insert t out | None \<Rightarrow> out) s events) = set s \<union> touched events"
  "bs_ok s \<Longrightarrow> bs_ok (foldl (\<lambda>out e. let out = bs_insert (ev_artifact e) out
      in case ev_to e of Some t \<Rightarrow> bs_insert t out | None \<Rightarrow> out) s events)"
  by (induction events arbitrary: s) (auto simp: touched_def Let_def split: option.splits)

lemma set_journal_changed: "set (journal_changed_set events) = touched events"
  and bs_ok_journal_changed: "bs_ok (journal_changed_set events)"
  by (simp_all add: journal_changed_set_def journal_changed_fold)

lemma dirty_closure_fold:
  "set (foldl (\<lambda>d rec. if list_ex (\<lambda>c. c \<in> set changed) (cl_consulted rec)
      then bs_insert (cl_artifact rec) d else d) s closures) = set s \<union> consulted_by closures `` set changed"
  "bs_ok s \<Longrightarrow> bs_ok (foldl (\<lambda>d rec. if list_ex (\<lambda>c. c \<in> set changed) (cl_consulted rec)
      then bs_insert (cl_artifact rec) d else d) s closures)"
proof (induction closures arbitrary: s)
  case Nil
  { case 1 show ?case by (simp add: consulted_by_def) }
  { case 2 then show ?case by simp }
next
  case (Cons rec closures)
  have step: "consulted_by (rec # closures) `` set changed =
      (if list_ex (\<lambda>c. c \<in> set changed) (cl_consulted rec) then {cl_artifact rec} else {})
        \<union> consulted_by closures `` set changed"
    by (auto simp: consulted_by_def list_ex_iff)
  { case 1 show ?case using Cons.IH(1) by (simp add: step) }
  { case 2 then show ?case using Cons.IH(2) by simp }
qed

lemma set_dirty_from_closure:
  "set (dirty_from_closure closures changed) = consulted_by closures `` set changed"
  and bs_ok_dirty_from_closure: "bs_ok (dirty_from_closure closures changed)"
  by (simp_all add: dirty_from_closure_def dirty_closure_fold)

lemma add_consulted:
  "dep_edges (foldl (\<lambda>g c. add_dependency c a g) g cs) = dep_edges g \<union> {(c, a) |c. c \<in> set cs}"
  by (induction cs arbitrary: g) auto

lemma dep_edges_closures_graph: "dep_edges (closures_graph closures) = consulted_by closures"
proof -
  have "dep_edges (foldl (\<lambda>g rec. foldl (\<lambda>g c. add_dependency c (cl_artifact rec) g)
      (ensure_node (cl_artifact rec) g) (cl_consulted rec)) g closures) = dep_edges g \<union> consulted_by closures" for g
    by (induction closures arbitrary: g) (auto simp: add_consulted consulted_by_def)
  then show ?thesis by (simp add: closures_graph_def)
qed

section \<open>Properties\<close>

text \<open>
  C21: The dirty set reported since a bookmark is exactly the set of artifacts the influence
  graph reaches from the touched artifacts (both ends of a rename included) and from the
  artifacts whose recorded closure consulted a touched one. The report's certificate certifies
  that same set.
\<close>

theorem dirty_since_exact:
  "set (dr_dirty_artifacts (dirty_since version since events closures g)) =
     (dep_edges g)\<^sup>* `` (touched events \<union> consulted_by closures `` touched events)
   \<and> bs_ok (dr_dirty_artifacts (dirty_since version since events closures g))
   \<and> invalidated (dr_certificate (dirty_since version since events closures g))
       = dr_dirty_artifacts (dirty_since version since events closures g)"
proof -
  let ?seeds = "foldl (\<lambda>d c. bs_insert c d)
    (dirty_from_closure closures (journal_changed_set events)) (journal_changed_set events)"
  have "set ?seeds = touched events \<union> consulted_by closures `` touched events"
    by (auto simp: foldl_bs_insert set_dirty_from_closure set_journal_changed)
  moreover have "bs_ok ?seeds" by (rule foldl_bs_insert(2) [OF bs_ok_dirty_from_closure])
  ultimately show ?thesis
    using uc.close_set [of g ?seeds] uc.close_ok [of ?seeds g]
    by (simp add: dirty_since_def stamp_dirty_report_def certify_invalidation_def Let_def)
qed

text \<open>
  C22: With no influence graph but the recorded closures, the dirty set is exactly the set of
  artifacts a touched one reaches through recorded consultations, so no artifact that
  transitively consulted a change is missed.
\<close>

theorem dirty_closures_only_exact:
  "set (dr_dirty_artifacts (dirty_since_closures_only version since events closures)) =
     (consulted_by closures)\<^sup>* `` touched events"
proof -
  let ?changed = "journal_changed_set events"
  let ?seeds = "foldl (\<lambda>d c. bs_insert c d) (dirty_from_closure closures ?changed) ?changed"
  have seeds: "set ?seeds = touched events \<union> consulted_by closures `` touched events"
    by (auto simp: foldl_bs_insert set_dirty_from_closure set_journal_changed)
  have "upward_closure (closures_graph closures) ?seeds = upward_closure (closures_graph closures) ?changed"
    by (rule uc.close_absorb)
      (auto simp: bs_ok_journal_changed foldl_bs_insert(2) bs_ok_dirty_from_closure seeds
        set_journal_changed dep_edges_closures_graph)
  then show ?thesis
    using uc.close_set [of "closures_graph closures" ?changed]
    by (simp add: dirty_since_closures_only_def dirty_since_def stamp_dirty_report_def
        certify_invalidation_def Let_def set_journal_changed dep_edges_closures_graph)
qed

end
