(* ===== verification/Csr.thy ===== *)
theory Csr
  imports Ordered_Containers
begin

text \<open>
  Compressed sparse row adjacency (graphzero-store/src/store/csr.rs): the builder that sorts
  edges by source and turns counts into offsets, the bounds-checked reader, and the reverse
  index filled by counting placement. Offsets and edge numbers are 32-bit words; additions wrap,
  as in a release build. An index out of bounds panics.
\<close>

section \<open>Building and reading\<close>

record span_entry =
  sp_blob_idx :: u32
  sp_start :: u32
  sp_end :: u32
  sp_symbol_id :: u32
  sp_block_start :: u32
  sp_block_end :: u32

definition span_default :: span_entry where
  "span_default = \<lparr>sp_blob_idx = 0, sp_start = 0, sp_end = 0, sp_symbol_id = 0, sp_block_start = 0,
     sp_block_end = 0\<rparr>"

record edge =
  e_target :: u32
  e_kind :: byte
  e_confidence :: byte

text \<open>Source, target, kind, confidence and evidence of an edge under construction.\<close>

type_synonym raw_edge = "u32 \<times> u32 \<times> byte \<times> byte \<times> span_entry"

type_synonym csr_builder = "raw_edge list"

abbreviation raw_src :: "raw_edge \<Rightarrow> u32" where "raw_src e \<equiv> fst e"
abbreviation raw_dst :: "raw_edge \<Rightarrow> u32" where "raw_dst e \<equiv> fst (snd e)"
abbreviation raw_kind :: "raw_edge \<Rightarrow> byte" where "raw_kind e \<equiv> fst (snd (snd e))"
abbreviation raw_confidence :: "raw_edge \<Rightarrow> byte" where "raw_confidence e \<equiv> fst (snd (snd (snd e)))"
abbreviation raw_evidence :: "raw_edge \<Rightarrow> span_entry" where "raw_evidence e \<equiv> snd (snd (snd (snd e)))"

record edges_view =
  v_offsets :: "u32 list"
  v_targets :: "u32 list"
  v_kinds :: "byte list"
  v_confidences :: "byte list"

record built_csr = edges_view +
  csr_evidence :: "span_entry list"

definition built_empty :: "nat \<Rightarrow> built_csr" where
  "built_empty n = \<lparr>v_offsets = replicate (wrap_usize (n + 1)) 0, v_targets = [], v_kinds = [], v_confidences = [],
     csr_evidence = []\<rparr>"

definition add_edge_with_evidence ::
  "u32 \<Rightarrow> u32 \<Rightarrow> byte \<Rightarrow> byte \<Rightarrow> span_entry \<Rightarrow> csr_builder \<Rightarrow> csr_builder" where
  "add_edge_with_evidence src dst kind confidence ev b = b @ [(src, dst, kind, confidence, ev)]"

definition csr_add_edge :: "u32 \<Rightarrow> u32 \<Rightarrow> byte \<Rightarrow> byte \<Rightarrow> csr_builder \<Rightarrow> csr_builder" where
  "csr_add_edge src dst kind confidence b = add_edge_with_evidence src dst kind confidence span_default b"

primrec count_sources :: "raw_edge list \<Rightarrow> u32 list \<Rightarrow> (u32 list, unit) result" where
  "count_sources [] offsets = Ok offsets"
| "count_sources (e # es) offsets =
     (let i = unat (raw_src e) + 1
      in if \<not> i < length offsets then Panicked
         else count_sources es (offsets[i := offsets ! i + 1]))"

definition prefix_sums :: "u32 list \<Rightarrow> u32 list" where
  "prefix_sums offsets = foldl (\<lambda>a i. a[i := a ! i + a ! (i - 1)]) offsets [1..<length offsets]"

definition csr_build :: "csr_builder \<Rightarrow> nat \<Rightarrow> (built_csr, unit) result" where
  "csr_build b num_symbols =
     (let edges = sort_key raw_src b
      in r_bind (count_sources edges (replicate (wrap_usize (num_symbols + 1)) 0)) (\<lambda>offsets.
           Ok \<lparr>v_offsets = prefix_sums offsets, v_targets = map raw_dst edges,
               v_kinds = map raw_kind edges, v_confidences = map raw_confidence edges,
               csr_evidence = map raw_evidence edges\<rparr>))"

definition num_symbols :: "'z edges_view_scheme \<Rightarrow> nat" where
  "num_symbols v = length (v_offsets v) - 1"

definition csr_range :: "'z edges_view_scheme \<Rightarrow> u32 \<Rightarrow> nat \<times> nat" where
  "csr_range v src =
     (let s = unat src
      in if length (v_offsets v) \<le> s + 1 then (0, 0)
         else let lo = unat (v_offsets v ! s); hi = unat (v_offsets v ! (s + 1))
              in if hi < lo \<or> length (v_targets v) < hi then (0, 0) else (lo, hi))"

definition edge_base :: "'z edges_view_scheme \<Rightarrow> u32 \<Rightarrow> nat" where
  "edge_base v src = fst (csr_range v src)"

primrec edges_at :: "'z edges_view_scheme \<Rightarrow> nat list \<Rightarrow> (edge list, unit) result" where
  "edges_at v [] = Ok []"
| "edges_at v (i # is) =
     (if i < length (v_targets v) \<and> i < length (v_kinds v) \<and> i < length (v_confidences v)
      then r_map (Cons \<lparr>e_target = v_targets v ! i, e_kind = v_kinds v ! i,
                        e_confidence = v_confidences v ! i\<rparr>) (edges_at v is)
      else Panicked)"

definition csr_edges :: "'z edges_view_scheme \<Rightarrow> u32 \<Rightarrow> (edge list, unit) result" where
  "csr_edges v src = (case csr_range v src of (lo, hi) \<Rightarrow> edges_at v [lo..<hi])"

section \<open>The reverse index\<close>

definition kind_calls :: byte where "kind_calls = 0"
definition kind_imports :: byte where "kind_imports = 1"
definition kind_refs :: byte where "kind_refs = 2"

definition is_blast_kind :: "byte \<Rightarrow> bool" where
  "is_blast_kind kind = (kind = kind_calls \<or> kind = kind_refs \<or> kind = kind_imports)"

record reverse_index =
  ri_offsets :: "u32 list"
  ri_entries :: "(u32 \<times> u32) list"

text \<open>A target with its entry: the source and the edge number.\<close>

type_synonym rev_pair = "u32 \<times> u32 \<times> u32"

definition count_rev_targets :: "nat \<Rightarrow> rev_pair list \<Rightarrow> u32 list" where
  "count_rev_targets n pairs =
     foldl (\<lambda>a p. let slot = unat (fst p) + 1 in if slot \<le> n then a[slot := a ! slot + 1] else a)
       (replicate (n + 1) 0) pairs"

primrec place_pairs ::
  "rev_pair list \<Rightarrow> u32 list \<Rightarrow> (u32 \<times> u32) list \<Rightarrow> ((u32 \<times> u32) list, unit) result" where
  "place_pairs [] cursor entries = Ok entries"
| "place_pairs (p # ps) cursor entries =
     (let t = unat (fst p)
      in if \<not> t < length cursor then Panicked
         else let slot = unat (cursor ! t)
              in place_pairs ps (cursor[t := cursor ! t + 1])
                   (if slot < length entries then entries[slot := snd p] else entries))"

definition from_pairs :: "nat \<Rightarrow> rev_pair list \<Rightarrow> (reverse_index, unit) result" where
  "from_pairs n pairs =
     (let offsets = prefix_sums (count_rev_targets n pairs)
      in r_map (\<lambda>entries. \<lparr>ri_offsets = offsets, ri_entries = entries\<rparr>)
           (place_pairs pairs (take n offsets) (replicate (length pairs) (0, 0))))"

definition callers :: "reverse_index \<Rightarrow> u32 \<Rightarrow> (u32 \<times> u32) list" where
  "callers r target =
     (let t = unat target
      in if length (ri_offsets r) \<le> t + 1 then []
         else let lo = unat (ri_offsets r ! t); hi = unat (ri_offsets r ! (t + 1))
              in if lo \<le> hi \<and> hi \<le> length (ri_entries r) then take (hi - lo) (drop lo (ri_entries r))
                 else [])"

text \<open>The pairs one source contributes, and those of all sources in ascending order.\<close>

definition source_pairs ::
  "(byte \<Rightarrow> bool) \<Rightarrow> 'z edges_view_scheme \<Rightarrow> u32 \<Rightarrow> (rev_pair list, unit) result" where
  "source_pairs keep v src =
     r_map (\<lambda>es. map (\<lambda>(i, e). (e_target e, src, of_nat (edge_base v src + i)))
       (filter (\<lambda>(i, e). keep (e_kind e) \<and> unat (e_target e) < num_symbols v) (enumerate 0 es)))
       (csr_edges v src)"

primrec all_pairs ::
  "(byte \<Rightarrow> bool) \<Rightarrow> 'z edges_view_scheme \<Rightarrow> nat list \<Rightarrow> (rev_pair list, unit) result" where
  "all_pairs keep v [] = Ok []"
| "all_pairs keep v (s # ss) =
     r_bind (source_pairs keep v (of_nat s)) (\<lambda>ps. r_map (\<lambda>qs. ps @ qs) (all_pairs keep v ss))"

definition build_filtered ::
  "'z edges_view_scheme \<Rightarrow> (byte \<Rightarrow> bool) \<Rightarrow> (reverse_index, unit) result" where
  "build_filtered v keep =
     r_bind (all_pairs keep v [0..<unat (of_nat (num_symbols v) :: u32)])
       (\<lambda>pairs. from_pairs (num_symbols v) pairs)"

definition reverse_build :: "'z edges_view_scheme \<Rightarrow> byte option \<Rightarrow> (reverse_index, unit) result" where
  "reverse_build v filter_kind =
     (case filter_kind of
        Some kind \<Rightarrow> build_filtered v (\<lambda>k. k = kind)
      | None \<Rightarrow> build_filtered v (\<lambda>_. True))"

text \<open>The one-pass build of the three views.\<close>

type_synonym pair_lists = "rev_pair list \<times> rev_pair list \<times> rev_pair list"

definition bundle_push :: "nat \<Rightarrow> u32 \<Rightarrow> nat \<Rightarrow> pair_lists \<Rightarrow> nat \<times> edge \<Rightarrow> pair_lists" where
  "bundle_push n src base acc ie =
     (case (acc, ie) of ((al, bl, ca), (offset, e)) \<Rightarrow>
        if n \<le> unat (e_target e) then (al, bl, ca)
        else let entry = (e_target e, src, of_nat (base + offset))
             in (al @ [entry],
                 if is_blast_kind (e_kind e) then bl @ [entry] else bl,
                 if e_kind e = kind_calls then ca @ [entry] else ca))"

primrec bundle_pairs :: "'z edges_view_scheme \<Rightarrow> nat list \<Rightarrow> pair_lists \<Rightarrow> (pair_lists, unit) result" where
  "bundle_pairs v [] acc = Ok acc"
| "bundle_pairs v (s # ss) acc =
     r_bind (csr_edges v (of_nat s)) (\<lambda>es.
       bundle_pairs v ss
         (foldl (bundle_push (num_symbols v) (of_nat s) (edge_base v (of_nat s))) acc (enumerate 0 es)))"

record reverse_index_bundle =
  rb_all :: reverse_index
  rb_blast :: reverse_index
  rb_calls :: reverse_index

definition bundle_build :: "'z edges_view_scheme \<Rightarrow> (reverse_index_bundle, unit) result" where
  "bundle_build v =
     (let n = num_symbols v
      in r_bind (bundle_pairs v [0..<unat (of_nat n :: u32)] ([], [], [])) (\<lambda>(al, bl, ca).
         r_bind (from_pairs n al) (\<lambda>a.
         r_bind (from_pairs n bl) (\<lambda>b.
         r_map (\<lambda>c. \<lparr>rb_all = a, rb_blast = b, rb_calls = c\<rparr>) (from_pairs n ca)))))"

section \<open>Counting\<close>

lemma unat_u32: "m < 2 ^ 32 \<Longrightarrow> unat (of_nat m :: u32) = m"
  by (simp add: unat_of_nat take_bit_nat_eq_self)

definition below :: "nat list \<Rightarrow> nat \<Rightarrow> nat" where
  "below keys k = length (filter (\<lambda>x. x < k) keys)"

definition occurs :: "nat list \<Rightarrow> nat \<Rightarrow> nat" where
  "occurs keys k = length (filter (\<lambda>x. x = k) keys)"

lemma below_0 [simp]: "below keys 0 = 0"
  by (simp add: below_def)

lemma below_Suc: "below keys (Suc k) = below keys k + occurs keys k"
  by (induction keys) (auto simp: below_def occurs_def less_Suc_eq)

lemma below_mono: "j \<le> k \<Longrightarrow> below keys j \<le> below keys k"
  by (induction k) (auto simp: below_Suc le_Suc_eq)

lemma below_le: "below keys k \<le> length keys"
  by (simp add: below_def)

lemma occurs_append: "occurs (xs @ ys) k = occurs xs k + occurs ys k"
  by (simp add: occurs_def)

lemma length_prefix_sums [simp]: "length (prefix_sums a) = length a"
proof -
  have "length (foldl (\<lambda>a i. a[i := f a i]) a is) = length a" for f :: "u32 list \<Rightarrow> nat \<Rightarrow> u32" and "is" a
    by (induction "is" arbitrary: a) simp_all
  then show ?thesis by (simp add: prefix_sums_def)
qed

lemma prefix_sums_step:
  assumes "m < length a"
  shows "k < length a \<Longrightarrow>
    foldl (\<lambda>a i. a[i := a ! i + a ! (i - 1)]) a [1..<Suc m] ! k = (if k \<le> m then sum_list (take (Suc k) a) else a ! k)
    \<and> length (foldl (\<lambda>a i. a[i := a ! i + a ! (i - 1)]) a [1..<Suc m]) = length (a :: u32 list)"
  using assms
proof (induction m arbitrary: k)
  case 0
  then show ?case by (cases a) auto
next
  case (Suc m)
  let ?b = "foldl (\<lambda>a i. a[i := a ! i + a ! (i - 1)]) a [1..<Suc m]"
  have len: "length ?b = length a" using Suc.IH [of k] Suc.prems by simp
  have "?b ! Suc m = a ! Suc m" "?b ! m = sum_list (take (Suc m) a)"
    using Suc.IH [of "Suc m"] Suc.IH [of m] Suc.prems by simp_all
  then have "?b ! Suc m + ?b ! m = sum_list (take (Suc (Suc m)) a)"
    using Suc.prems by (simp add: take_Suc_conv_app_nth [of "Suc m"] add.commute)
  then show ?case
    using Suc.IH [of k] Suc.prems len by (auto simp: nth_list_update)
qed

lemma nth_prefix_sums: "k < length a \<Longrightarrow> prefix_sums a ! k = sum_list (take (Suc k) a)"
  using prefix_sums_step [of "length a - 1" a k] by (cases "length a") (auto simp: prefix_sums_def)

lemma prefix_counts:
  assumes "length a = n + 1" "a ! 0 = 0" "\<And>i. i < n \<Longrightarrow> a ! Suc i = of_nat (occurs keys i)"
  shows "k \<le> n \<Longrightarrow> prefix_sums a ! k = of_nat (below keys k)"
proof (induction k)
  case 0
  then show ?case using assms by (cases a) (simp_all add: nth_prefix_sums)
next
  case (Suc k)
  then have "prefix_sums a ! Suc k = prefix_sums a ! k + a ! Suc k"
    using assms(1) by (simp add: nth_prefix_sums take_Suc_conv_app_nth [of "Suc k"])
  then show ?case using Suc assms(3) [of k] by (simp add: below_Suc)
qed

lemma count_sources_Ok:
  "(\<And>e. e \<in> set es \<Longrightarrow> unat (raw_src e) + 1 < length a) \<Longrightarrow>
   \<exists>a'. count_sources es a = Ok a' \<and> length a' = length a \<and> (a \<noteq> [] \<longrightarrow> a' ! 0 = a ! 0) \<and>
     (\<forall>i. Suc i < length a \<longrightarrow> a' ! Suc i = a ! Suc i + of_nat (occurs (map (\<lambda>e. unat (raw_src e)) es) i))"
proof (induction es arbitrary: a)
  case (Cons e es)
  let ?i = "unat (raw_src e) + 1"
  have i: "?i < length a" using Cons.prems by simp
  obtain a' where "count_sources es (a[?i := a ! ?i + 1]) = Ok a'" "length a' = length a"
    and "a \<noteq> [] \<longrightarrow> a' ! 0 = a ! 0"
    and "\<forall>i. Suc i < length a \<longrightarrow> a' ! Suc i = a[?i := a ! ?i + 1] ! Suc i + of_nat (occurs (map (\<lambda>e. unat (raw_src e)) es) i)"
    using Cons.IH [of "a[?i := a ! ?i + 1]"] Cons.prems by auto
  then show ?case using i by (auto simp: Let_def occurs_def nth_list_update)
qed (simp add: occurs_def)

lemma count_sources_Panicked:
  "e \<in> set es \<Longrightarrow> length a \<le> unat (raw_src e) + 1 \<Longrightarrow> count_sources es a = Panicked"
  by (induction es arbitrary: a) (auto simp: Let_def)

section \<open>Sorted segments\<close>

lemma sorted_split:
  fixes key :: "'a \<Rightarrow> nat"
  assumes "sorted (map key xs)"
  shows "xs = filter (\<lambda>x. key x < s) xs @ filter (\<lambda>x. key x = s) xs @ filter (\<lambda>x. s < key x) xs"
  using assms
proof (induction xs)
  case (Cons x xs)
  then have IH: "xs = filter (\<lambda>x. key x < s) xs @ filter (\<lambda>x. key x = s) xs @ filter (\<lambda>x. s < key x) xs"
    and le: "\<And>y. y \<in> set xs \<Longrightarrow> key x \<le> key y" by auto
  consider "key x < s" | "key x = s" | "s < key x" by fastforce
  then show ?case
  proof cases
    case 1
    then show ?thesis using IH by simp
  next
    case 2
    then have "filter (\<lambda>x. key x < s) xs = []" using le by (auto simp: filter_empty_conv leD)
    then show ?thesis using IH 2 by simp
  next
    case 3
    then have "filter (\<lambda>x. key x < s) xs = []" "filter (\<lambda>x. key x = s) xs = []"
      using le by (auto simp: filter_empty_conv; force)+
    then show ?thesis using IH 3 by simp
  qed
qed simp

lemma below_map: "below (map key xs) s = length (filter (\<lambda>x. key x < s) xs)"
  by (simp add: below_def filter_map comp_def)

lemma occurs_map: "occurs (map key xs) s = length (filter (\<lambda>x. key x = s) xs)"
  by (simp add: occurs_def filter_map comp_def)

lemma sorted_segment:
  fixes key :: "'a \<Rightarrow> nat"
  assumes "sorted (map key xs)"
  shows "take (occurs (map key xs) s) (drop (below (map key xs) s) xs) = filter (\<lambda>x. key x = s) xs"
proof -
  have "take b (drop a (A @ B @ C)) = B" if "a = length A" "b = length B" for a b :: nat and A B C :: "'a list"
    using that by simp
  then show ?thesis
    using sorted_split [OF assms, of s] by (metis below_map occurs_map)
qed

lemma enumerate_memD: "(k, x) \<in> set (enumerate n xs) \<Longrightarrow> x \<in> set xs"
  by (metis image_eqI map_snd_enumerate set_map snd_conv)

lemma map_enumerate_snd: "map (\<lambda>(k, x). f x) (enumerate n xs) = map f xs"
  by (induction xs arbitrary: n) simp_all

lemma filter_enumerate_all: "(\<And>x. x \<in> set xs \<Longrightarrow> P x) \<Longrightarrow> filter (\<lambda>(k, x). P x) (enumerate n xs) = enumerate n xs"
  by (auto simp: filter_id_conv dest: enumerate_memD)

lemma filter_enumerate_none: "(\<And>x. x \<in> set xs \<Longrightarrow> \<not> P x) \<Longrightarrow> filter (\<lambda>(k, x). P x) (enumerate n xs) = []"
  by (auto simp: filter_empty_conv dest: enumerate_memD)

lemma enumerate_segment:
  fixes key :: "'a \<Rightarrow> nat"
  assumes "sorted (map key xs)"
  shows "filter (\<lambda>(k, x). key x = s) (enumerate 0 xs)
    = enumerate (below (map key xs) s) (filter (\<lambda>x. key x = s) xs)"
proof -
  let ?A = "filter (\<lambda>x. key x < s) xs" and ?B = "filter (\<lambda>x. key x = s) xs" and ?C = "filter (\<lambda>x. s < key x) xs"
  have "enumerate 0 xs = enumerate 0 ?A @ enumerate (length ?A) ?B @ enumerate (length ?A + length ?B) ?C"
    using sorted_split [OF assms, of s] by (metis add_0 enumerate_append_eq)
  moreover have "filter (\<lambda>(k, x). key x = s) (enumerate n ?A) = []"
      "filter (\<lambda>(k, x). key x = s) (enumerate n ?B) = enumerate n ?B"
      "filter (\<lambda>(k, x). key x = s) (enumerate n ?C) = []" for n
    by (rule filter_enumerate_none filter_enumerate_all; auto)+
  ultimately show ?thesis by (simp add: below_map)
qed

lemma concat_segments:
  fixes key :: "'a \<Rightarrow> nat"
  assumes "sorted (map key xs)"
  shows "concat (map (\<lambda>s. filter (\<lambda>x. key x = s) xs) [0..<n]) = filter (\<lambda>x. key x < n) xs"
proof (induction n)
  case (Suc n)
  have "filter (\<lambda>x. key x < Suc n) xs = filter (\<lambda>x. key x < n) xs @ filter (\<lambda>x. key x = n) xs"
    by (subst sorted_split [OF assms, of n], subst filter_append, subst filter_append)
      (simp add: filter_empty_conv cong: conj_cong)
  then show ?case using Suc by simp
qed simp

section \<open>The reader on a built adjacency\<close>

definition to_edge :: "raw_edge \<Rightarrow> edge" where
  "to_edge e = \<lparr>e_target = raw_dst e, e_kind = raw_kind e, e_confidence = raw_confidence e\<rparr>"

abbreviation src_keys :: "raw_edge list \<Rightarrow> nat list" where
  "src_keys es \<equiv> map (\<lambda>e. unat (raw_src e)) es"

text \<open>The contract of a built adjacency over its sorted edges.\<close>

definition built_from :: "raw_edge list \<Rightarrow> nat \<Rightarrow> built_csr \<Rightarrow> bool" where
  "built_from es n b \<longleftrightarrow> length (v_offsets b) = n + 1 \<and> (\<forall>k \<le> n. unat (v_offsets b ! k) = below (src_keys es) k)
     \<and> v_targets b = map raw_dst es \<and> v_kinds b = map raw_kind es
     \<and> v_confidences b = map raw_confidence es \<and> csr_evidence b = map raw_evidence es
     \<and> sorted (src_keys es) \<and> (\<forall>e \<in> set es. unat (raw_src e) < n) \<and> length es < 2 ^ 32"

lemma sorted_src_keys: "sorted (src_keys (sort_key raw_src es))"
proof -
  have "sorted (map raw_src (sort_key raw_src es))" by simp
  then show ?thesis by (simp add: sorted_map word_le_nat_alt)
qed

lemma csr_build_Ok:
  assumes "\<forall>e \<in> set es. unat (raw_src e) < n" "length es < 2 ^ 32" "n + 1 < 2 ^ 64"
  shows "\<exists>b. csr_build es n = Ok b \<and> built_from (sort_key raw_src es) n b"
proof -
  let ?es = "sort_key raw_src es"
  obtain a where a: "count_sources ?es (replicate (n + 1) 0) = Ok a" "length a = n + 1" "a ! 0 = 0"
    and cnt: "\<And>i. i < n \<Longrightarrow> a ! Suc i = of_nat (occurs (src_keys ?es) i)"
    using count_sources_Ok [of ?es "replicate (n + 1) 0"] assms(1) by (auto simp: nth_append)
  have "unat (prefix_sums a ! k) = below (src_keys ?es) k" if "k \<le> n" for k
    using prefix_counts [OF a(2,3) cnt that] below_le [of "src_keys ?es" k] assms(2)
    by (simp add: unat_of_nat take_bit_nat_eq_self_iff take_bit_nat_eq_self)
  then show ?thesis
    using a assms sorted_src_keys [of es]
    by (simp add: csr_build_def Let_def built_from_def del: replicate.simps)
qed

lemma edges_at_map:
  "(\<And>i. i \<in> set is \<Longrightarrow> i < length es) \<Longrightarrow> v_targets v = map raw_dst es \<Longrightarrow> v_kinds v = map raw_kind es \<Longrightarrow>
   v_confidences v = map raw_confidence es \<Longrightarrow> edges_at v is = Ok (map (\<lambda>i. to_edge (es ! i)) is)"
  by (induction "is") (auto simp: to_edge_def)

lemma map_nth_upt: "hi \<le> length xs \<Longrightarrow> map (\<lambda>i. xs ! i) [lo..<hi] = take (hi - lo) (drop lo xs)"
  by (rule nth_equalityI) auto

lemma built_range:
  assumes "built_from es n b" "unat s < n"
  shows "csr_range b s = (below (src_keys es) (unat s), below (src_keys es) (Suc (unat s)))"
  using assms below_mono [of "unat s" "Suc (unat s)" "src_keys es"] below_le [of "src_keys es" "Suc (unat s)"]
  by (auto simp: built_from_def csr_range_def Let_def)

lemma built_edges:
  assumes "built_from es n b"
  shows "csr_edges b s = Ok (map to_edge (filter (\<lambda>e. raw_src e = s) es))"
proof (cases "unat s < n")
  case True
  have len: "below (src_keys es) (Suc (unat s)) \<le> length es" using below_le [of "src_keys es"] by simp
  have "filter (\<lambda>e. raw_src e = s) es = filter (\<lambda>e. unat (raw_src e) = unat s) es"
    by (simp add: word_unat_eq_iff)
  also have "\<dots> = take (occurs (src_keys es) (unat s)) (drop (below (src_keys es) (unat s)) es)"
    using sorted_segment [of "\<lambda>e. unat (raw_src e)" es] assms by (simp add: built_from_def)
  also have "\<dots> = map (\<lambda>i. es ! i) [below (src_keys es) (unat s)..<below (src_keys es) (Suc (unat s))]"
    using len by (simp add: map_nth_upt below_Suc)
  finally show ?thesis
    using edges_at_map [of "[below (src_keys es) (unat s)..<below (src_keys es) (Suc (unat s))]" es b] len assms
    by (simp add: csr_edges_def built_range [OF assms True] built_from_def)
next
  case False
  then have "filter (\<lambda>e. raw_src e = s) es = []" using assms by (auto simp: built_from_def filter_empty_conv)
  moreover have "csr_range b s = (0, 0)" using False assms by (simp add: csr_range_def Let_def built_from_def)
  ultimately show ?thesis by (simp add: csr_edges_def)
qed

lemma built_evidence:
  assumes "built_from es n b"
  shows "take (length (filter (\<lambda>e. raw_src e = s) es)) (drop (edge_base b s) (csr_evidence b))
    = map raw_evidence (filter (\<lambda>e. raw_src e = s) es)"
proof (cases "unat s < n")
  case True
  have flt: "filter (\<lambda>e. raw_src e = s) es = filter (\<lambda>e. unat (raw_src e) = unat s) es"
    by (simp add: word_unat_eq_iff)
  have "sorted (src_keys es)" using assms by (simp add: built_from_def)
  then have "take (length (filter (\<lambda>e. raw_src e = s) es)) (drop (below (src_keys es) (unat s)) es)
      = filter (\<lambda>e. raw_src e = s) es"
    unfolding flt by (rule sorted_segment [unfolded occurs_map])
  then show ?thesis
    using assms by (simp add: edge_base_def built_range [OF assms True] built_from_def drop_map take_map)
next
  case False
  then have "filter (\<lambda>e. raw_src e = s) es = []" using assms by (auto simp: built_from_def filter_empty_conv)
  then show ?thesis by simp
qed

section \<open>Counting placement\<close>

abbreviation tgt_keys :: "rev_pair list \<Rightarrow> nat list" where
  "tgt_keys ps \<equiv> map (\<lambda>p. unat (fst p)) ps"

lemma count_targets_step:
  fixes a :: "u32 list"
  assumes "\<And>p. p \<in> set ps \<Longrightarrow> unat (fst p) < n" "length a = n + 1"
  shows "length (foldl (\<lambda>a p. let slot = unat (fst p) + 1 in if slot \<le> n then a[slot := a ! slot + 1] else a) a ps) = n + 1
   \<and> foldl (\<lambda>a p. let slot = unat (fst p) + 1 in if slot \<le> n then a[slot := a ! slot + 1] else a) a ps ! 0 = a ! 0
   \<and> (\<forall>i < n. foldl (\<lambda>a p. let slot = unat (fst p) + 1 in if slot \<le> n then a[slot := a ! slot + 1] else a) a ps ! Suc i
        = a ! Suc i + of_nat (occurs (tgt_keys ps) i))"
  using assms
proof (induction ps arbitrary: a)
  case (Cons p ps)
  then show ?case
    using Cons.IH [of "a[Suc (unat (fst p)) := a ! Suc (unat (fst p)) + 1]"]
    by (auto simp: Let_def occurs_def nth_list_update)
qed (simp add: occurs_def)

lemma rev_offsets:
  assumes "\<And>p. p \<in> set ps \<Longrightarrow> unat (fst p) < n" "k \<le> n"
  shows "prefix_sums (count_rev_targets n ps) ! k = of_nat (below (tgt_keys ps) k)"
    and "length (prefix_sums (count_rev_targets n ps)) = n + 1"
  using prefix_counts [of "count_rev_targets n ps" n "tgt_keys ps" k] assms
    count_targets_step [of ps n "replicate (n + 1) 0"]
  by (simp_all add: count_rev_targets_def nth_append)

text \<open>Slots of different targets are apart, and slots of one target follow each other.\<close>

lemma slots_apart:
  assumes "below keys t + i = below keys u + j" "i < occurs keys t" "j < occurs keys u"
  shows "t = u \<and> i = j"
proof -
  have "\<not> t < u" using assms below_mono [of "Suc t" u keys] by (auto simp: below_Suc)
  moreover have "\<not> u < t" using assms below_mono [of "Suc u" t keys] by (auto simp: below_Suc)
  ultimately show ?thesis using assms by simp
qed

lemma slot_bound: "i < occurs keys t \<Longrightarrow> below keys t + i < length keys"
  using below_le [of keys "Suc t"] by (simp add: below_Suc)

definition placed :: "nat list \<Rightarrow> rev_pair list \<Rightarrow> u32 list \<Rightarrow> (u32 \<times> u32) list \<Rightarrow> bool" where
  "placed keys dn cursor entries \<longleftrightarrow> length entries = length keys
     \<and> (\<forall>t < length cursor. cursor ! t = of_nat (below keys t + occurs (tgt_keys dn) t))
     \<and> (\<forall>t. \<forall>j < occurs (tgt_keys dn) t.
          entries ! (below keys t + j) = map snd (filter (\<lambda>p. unat (fst p) = t) dn) ! j)"

lemma placed_step:
  assumes pl: "placed keys dn cursor entries" and keys: "keys = tgt_keys (dn @ p # ps)"
    and t: "unat (fst p) < length cursor" and len: "length keys < 2 ^ 32"
  shows "unat (cursor ! unat (fst p)) < length entries"
    and "placed keys (dn @ [p]) (cursor[unat (fst p) := cursor ! unat (fst p) + 1])
           (entries[unat (cursor ! unat (fst p)) := snd p])"
proof -
  let ?t = "unat (fst p)" and ?c = "\<lambda>t. occurs (tgt_keys dn) t"
  have lt: "?c ?t < occurs keys ?t" using keys by (simp add: occurs_append occurs_def)
  have le: "?c t \<le> occurs keys t" for t using keys by (simp add: occurs_append)
  have bound: "below keys ?t + ?c ?t < length keys" using lt by (rule slot_bound)
  then have slot: "unat (cursor ! ?t) = below keys ?t + ?c ?t"
  proof -
    have "cursor ! ?t = of_nat (below keys ?t + ?c ?t)" using pl t unfolding placed_def by blast
    then show ?thesis using unat_u32 [of "below keys ?t + ?c ?t"] bound len by (simp only:)
  qed
  then show "unat (cursor ! ?t) < length entries" using bound pl by (simp add: placed_def)
  have entry: "entries[below keys ?t + ?c ?t := snd p] ! (below keys t + j)
      = map snd (filter (\<lambda>q. unat (fst q) = t) (dn @ [p])) ! j" if j: "j < occurs (tgt_keys (dn @ [p])) t" for t j
  proof (cases "t = ?t \<and> j = ?c ?t")
    case True
    have "length (filter (\<lambda>q. unat (fst q) = ?t) dn) = ?c ?t" by (simp add: occurs_map)
    then show ?thesis using True bound pl by (simp add: placed_def nth_append)
  next
    case False
    then have j': "j < ?c t" using j by (auto simp: occurs_append occurs_def split: if_splits)
    then have "below keys t + j \<noteq> below keys ?t + ?c ?t"
      using slots_apart [of keys t j ?t "?c ?t"] False lt le [of t] by auto
    moreover have "j < length (filter (\<lambda>q. unat (fst q) = t) dn)" using j' by (simp add: occurs_map)
    ultimately show ?thesis using pl j' by (simp add: placed_def nth_append)
  qed
  show "placed keys (dn @ [p]) (cursor[?t := cursor ! ?t + 1]) (entries[unat (cursor ! ?t) := snd p])"
    unfolding slot
  proof (unfold placed_def, intro conjI allI impI)
    fix t assume "t < length (cursor[?t := cursor ! ?t + 1])"
    then show "cursor[?t := cursor ! ?t + 1] ! t = of_nat (below keys t + occurs (tgt_keys (dn @ [p])) t)"
      using pl by (cases "t = ?t") (simp_all add: placed_def occurs_append, simp_all add: occurs_def)
  qed (use entry pl in \<open>auto simp: placed_def\<close>)
qed

lemma place_pairs_Ok:
  "placed keys dn cursor entries \<Longrightarrow> keys = tgt_keys (dn @ ps) \<Longrightarrow> length keys < 2 ^ 32 \<Longrightarrow>
   (\<And>p. p \<in> set ps \<Longrightarrow> unat (fst p) < length cursor) \<Longrightarrow>
   \<exists>out cur. place_pairs ps cursor entries = Ok out \<and> placed keys (dn @ ps) cur out"
proof (induction ps arbitrary: dn cursor entries)
  case (Cons p ps)
  note step = placed_step [OF Cons.prems(1,2) _ Cons.prems(3)]
  show ?case
    using Cons.IH [OF step(2)] Cons.prems step(1) by (auto simp: Let_def)
qed auto

lemma from_pairs_callers:
  assumes tg: "\<And>p. p \<in> set ps \<Longrightarrow> unat (fst p) < n" and len: "length ps < 2 ^ 32"
  shows "\<exists>r. from_pairs n ps = Ok r \<and> (\<forall>t. callers r t = map snd (filter (\<lambda>p. fst p = t) ps))"
proof -
  define offs where "offs = prefix_sums (count_rev_targets n ps)"
  have off: "offs ! k = of_nat (below (tgt_keys ps) k)" if "k \<le> n" for k
    using rev_offsets(1) [OF tg that] by (simp add: offs_def)
  have offu: "unat (offs ! k) = below (tgt_keys ps) k" if "k \<le> n" for k
    using off [OF that] below_le [of "tgt_keys ps" k] len by (simp add: unat_of_nat take_bit_nat_eq_self)
  have lo: "length offs = n + 1" using rev_offsets(2) [of ps n 0] tg by (simp add: offs_def)
  have "placed (tgt_keys ps) [] (take n offs) (replicate (length ps) (0, 0))"
    using lo off by (simp add: placed_def occurs_def)
  then have "\<exists>out cur. place_pairs ps (take n offs) (replicate (length ps) (0, 0)) = Ok out
      \<and> placed (tgt_keys ps) ([] @ ps) cur out"
    by (rule place_pairs_Ok) (use lo len tg in simp_all)
  then obtain out cur where out: "place_pairs ps (take n offs) (replicate (length ps) (0, 0)) = Ok out"
    and pl: "placed (tgt_keys ps) ps cur out" by (simp only: append_Nil) blast
  have "callers \<lparr>ri_offsets = offs, ri_entries = out\<rparr> t = map snd (filter (\<lambda>p. fst p = t) ps)" for t
  proof (cases "unat t < n")
    case True
    have hi: "below (tgt_keys ps) (unat t) + occurs (tgt_keys ps) (unat t) \<le> length out"
      using below_le [of "tgt_keys ps" "Suc (unat t)"] pl by (simp add: below_Suc placed_def)
    have "filter (\<lambda>p. fst p = t) ps = filter (\<lambda>p. unat (fst p) = unat t) ps"
      by (simp add: word_unat_eq_iff)
    moreover have "take (occurs (tgt_keys ps) (unat t)) (drop (below (tgt_keys ps) (unat t)) out)
        = map snd (filter (\<lambda>p. unat (fst p) = unat t) ps)"
      using pl hi by (intro nth_equalityI) (auto simp: placed_def occurs_map)
    ultimately show ?thesis
      using True hi offu lo by (simp add: callers_def Let_def below_Suc)
  next
    case False
    then have "filter (\<lambda>p. fst p = t) ps = []" using tg by (auto simp: filter_empty_conv)
    then show ?thesis using False lo by (simp add: callers_def)
  qed
  then show ?thesis using out by (simp add: from_pairs_def Let_def offs_def)
qed

section \<open>The reverse index of a built adjacency\<close>

lemma built_num_symbols: "built_from es n b \<Longrightarrow> num_symbols b = n"
  by (simp add: built_from_def num_symbols_def)

text \<open>The pairs of all edges in order, the reference of the per-source scan.\<close>

definition edge_pairs :: "(byte \<Rightarrow> bool) \<Rightarrow> nat \<Rightarrow> (nat \<times> raw_edge) list \<Rightarrow> rev_pair list" where
  "edge_pairs keep n kes = map (\<lambda>(k, e). (raw_dst e, raw_src e, of_nat k))
     (filter (\<lambda>(k, e). keep (raw_kind e) \<and> unat (raw_dst e) < n) kes)"

lemma edge_pairs_concat: "edge_pairs keep n (concat xss) = concat (map (edge_pairs keep n) xss)"
  by (induction xss) (simp_all add: edge_pairs_def)

lemma source_pairs_edges:
  "(\<And>e. e \<in> set es \<Longrightarrow> raw_src e = s) \<Longrightarrow>
   map (\<lambda>(i, e). (e_target e, s, of_nat (base + i) :: u32))
     (filter (\<lambda>(i, e). keep (e_kind e) \<and> unat (e_target e) < n) (enumerate m (map to_edge es)))
   = edge_pairs keep n (enumerate (base + m) es)"
  by (induction es arbitrary: m) (auto simp: edge_pairs_def to_edge_def)

lemma built_source_pairs:
  assumes b: "built_from es n b" and s: "unat s < n"
  shows "source_pairs keep b s
    = Ok (edge_pairs keep n (filter (\<lambda>(k, e). unat (raw_src e) = unat s) (enumerate 0 es)))"
proof -
  have sorted: "sorted (src_keys es)" using b by (simp add: built_from_def)
  have "filter (\<lambda>e. unat (raw_src e) = unat s) es = filter (\<lambda>e. raw_src e = s) es"
    by (simp add: word_unat_eq_iff)
  then show ?thesis
    using source_pairs_edges [of "filter (\<lambda>e. raw_src e = s) es" s "below (src_keys es) (unat s)" keep n 0]
    by (simp add: source_pairs_def built_edges [OF b] built_num_symbols [OF b] edge_base_def
        built_range [OF b s] enumerate_segment [OF sorted])
qed

lemma all_pairs_built:
  assumes b: "built_from es n b" and n: "n < 2 ^ 32" and "\<And>s. s \<in> set ss \<Longrightarrow> s < n"
  shows "all_pairs keep b ss = Ok (concat (map (\<lambda>s. edge_pairs keep n
    (filter (\<lambda>(k, e). unat (raw_src e) = s) (enumerate 0 es))) ss))"
  using assms(3)
proof (induction ss)
  case (Cons s ss)
  then have s: "s < n" by simp
  then have "unat (of_nat s :: u32) = s" using n by (intro unat_u32) simp
  then show ?case using Cons built_source_pairs [OF b, of "of_nat s" keep] s by simp
qed simp

lemma built_all_pairs:
  assumes b: "built_from es n b" and n: "n < 2 ^ 32"
  shows "all_pairs keep b [0..<n] = Ok (edge_pairs keep n (enumerate 0 es))"
proof -
  have "sorted (map (\<lambda>(k, e). unat (raw_src e)) (enumerate 0 es))"
    using b by (simp add: built_from_def map_enumerate_snd)
  then have "concat (map (\<lambda>s. filter (\<lambda>ke. (case ke of (k, e) \<Rightarrow> unat (raw_src e)) = s) (enumerate 0 es)) [0..<n])
      = filter (\<lambda>ke. (case ke of (k, e) \<Rightarrow> unat (raw_src e)) < n) (enumerate 0 es)"
    by (rule concat_segments)
  moreover have "filter (\<lambda>ke. (case ke of (k, e) \<Rightarrow> unat (raw_src e)) < n) (enumerate 0 es) = enumerate 0 es"
    using b by (auto simp: filter_id_conv built_from_def dest!: enumerate_memD)
  ultimately have "concat (map (\<lambda>s. filter (\<lambda>(k, e). unat (raw_src e) = s) (enumerate 0 es)) [0..<n]) = enumerate 0 es"
    by (simp add: case_prod_unfold)
  then show ?thesis
    using all_pairs_built [OF b n, of "[0..<n]" keep] edge_pairs_concat [symmetric, of keep n
      "map (\<lambda>s. filter (\<lambda>(k, e). unat (raw_src e) = s) (enumerate 0 es)) [0..<n]"]
    by (simp add: comp_def)
qed

lemma built_reverse:
  assumes b: "built_from es n b" and n: "n < 2 ^ 32"
  shows "\<exists>r. build_filtered b keep = Ok r \<and> (\<forall>t. callers r t =
    map (\<lambda>(k, e). (raw_src e, of_nat k))
      (filter (\<lambda>(k, e). keep (raw_kind e) \<and> raw_dst e = t \<and> unat t < n) (enumerate 0 es)))"
proof -
  let ?ps = "edge_pairs keep n (enumerate 0 es)"
  have "length ?ps \<le> length es"
    unfolding edge_pairs_def by (simp, rule order_trans, rule length_filter_le, simp)
  then have len: "length ?ps < 2 ^ 32" using b by (simp add: built_from_def)
  have tg: "unat (fst p) < n" if "p \<in> set ?ps" for p using that by (auto simp: edge_pairs_def)
  have ref: "map snd (filter (\<lambda>p. fst p = t) ?ps) = map (\<lambda>(k, e). (raw_src e, of_nat k))
      (filter (\<lambda>(k, e). keep (raw_kind e) \<and> raw_dst e = t \<and> unat t < n) (enumerate 0 es))" for t
    unfolding edge_pairs_def filter_map filter_filter map_map comp_def case_prod_unfold
    by (rule arg_cong2 [where f = map], rule ext, simp, rule filter_cong, rule refl, auto)
  show ?thesis
    using from_pairs_callers [of ?ps n, OF tg len] built_all_pairs [OF b n, of keep] unat_u32 [OF n]
    by (simp add: build_filtered_def built_num_symbols [OF b] ref)
qed

section \<open>The bundle\<close>

lemma bundle_push_edges:
  "foldl (bundle_push (num_symbols v) s base) (al, bl, ca) ies =
     (al @ map (\<lambda>(i, e). (e_target e, s, of_nat (base + i))) (filter (\<lambda>(i, e). unat (e_target e) < num_symbols v) ies),
      bl @ map (\<lambda>(i, e). (e_target e, s, of_nat (base + i)))
        (filter (\<lambda>(i, e). is_blast_kind (e_kind e) \<and> unat (e_target e) < num_symbols v) ies),
      ca @ map (\<lambda>(i, e). (e_target e, s, of_nat (base + i)))
        (filter (\<lambda>(i, e). e_kind e = kind_calls \<and> unat (e_target e) < num_symbols v) ies))"
  by (induction ies arbitrary: al bl ca) (auto simp: bundle_push_def Let_def)

lemma edges_at_total: "edges_at v is = Panicked \<or> (\<exists>es. edges_at v is = Ok es)"
  by (induction "is") auto

lemma bundle_pairs_eq:
  "bundle_pairs v ss (al, bl, ca) =
     r_bind (all_pairs (\<lambda>_. True) v ss) (\<lambda>a. r_bind (all_pairs is_blast_kind v ss) (\<lambda>b.
       r_map (\<lambda>c. (al @ a, bl @ b, ca @ c)) (all_pairs (\<lambda>k. k = kind_calls) v ss)))"
proof (induction ss arbitrary: al bl ca)
  case (Cons s ss)
  consider "csr_edges v (of_nat s) = Panicked" | es where "csr_edges v (of_nat s) = Ok es"
    unfolding csr_edges_def case_prod_unfold using edges_at_total by blast
  then show ?case
  proof cases
    case 1
    then show ?thesis by (simp add: source_pairs_def)
  next
    case 2
    then show ?thesis
      by (cases "all_pairs (\<lambda>_. True) v ss"; cases "all_pairs is_blast_kind v ss"; cases "all_pairs (\<lambda>k. k = kind_calls) v ss")
        (simp_all add: source_pairs_def Cons.IH bundle_push_edges)
  qed
qed simp

lemma bundle_build_eq:
  "bundle_build v = r_bind (all_pairs (\<lambda>_. True) v [0..<unat (of_nat (num_symbols v) :: u32)]) (\<lambda>a.
     r_bind (all_pairs is_blast_kind v [0..<unat (of_nat (num_symbols v) :: u32)]) (\<lambda>b.
     r_bind (all_pairs (\<lambda>k. k = kind_calls) v [0..<unat (of_nat (num_symbols v) :: u32)]) (\<lambda>c.
     r_bind (from_pairs (num_symbols v) a) (\<lambda>ra. r_bind (from_pairs (num_symbols v) b) (\<lambda>rb.
     r_map (\<lambda>rc. \<lparr>rb_all = ra, rb_blast = rb, rb_calls = rc\<rparr>) (from_pairs (num_symbols v) c))))))"
  unfolding bundle_build_def Let_def bundle_pairs_eq
  by (cases "all_pairs (\<lambda>_. True) v [0..<unat (of_nat (num_symbols v) :: u32)]";
      cases "all_pairs is_blast_kind v [0..<unat (of_nat (num_symbols v) :: u32)]";
      cases "all_pairs (\<lambda>k. k = kind_calls) v [0..<unat (of_nat (num_symbols v) :: u32)]") simp_all

lemma build_filtered_bundle:
  "build_filtered v (\<lambda>_. True) = Ok a \<Longrightarrow> build_filtered v is_blast_kind = Ok b \<Longrightarrow>
   build_filtered v (\<lambda>k. k = kind_calls) = Ok c \<Longrightarrow>
   bundle_build v = Ok \<lparr>rb_all = a, rb_blast = b, rb_calls = c\<rparr>"
  by (auto simp: bundle_build_eq build_filtered_def r_bind_eq_Ok)

section \<open>Properties\<close>

definition sample_csr :: csr_builder where
  "sample_csr =
     csr_add_edge 2 0 kind_refs 9 (csr_add_edge 0 1 kind_calls 5 (csr_add_edge 2 1 kind_calls 7 []))"

text \<open>
  C27: The adjacency round-trips. When every source is a symbol, the edges fit 32-bit offsets and
  the number of symbols is not the largest \<open>usize\<close> (whose successor wraps), the build succeeds, the reader returns for each source its edges in insertion order, and edge
  number \<open>edge_base + i\<close> of a source carries the evidence of its \<open>i\<close>-th edge; without the first
  condition the build panics.
\<close>

theorem csr_roundtrip:
  assumes "length es < 2 ^ 32" "n + 1 < 2 ^ 64"
  shows "if \<exists>e \<in> set es. n \<le> unat (raw_src e) then csr_build es n = Panicked
    else case csr_build es n of
      Ok b \<Rightarrow> num_symbols b = n \<and> length (csr_evidence b) = length es
        \<and> (\<forall>s. csr_edges b s = Ok (map to_edge (filter (\<lambda>e. raw_src e = s) es))
             \<and> take (length (filter (\<lambda>e. raw_src e = s) es)) (drop (edge_base b s) (csr_evidence b))
                 = map raw_evidence (filter (\<lambda>e. raw_src e = s) es))
    | _ \<Rightarrow> False"
proof (cases "\<exists>e \<in> set es. n \<le> unat (raw_src e)")
  case True
  then obtain e where "e \<in> set (sort_key raw_src es)" "n \<le> unat (raw_src e)" by auto
  then show ?thesis
    using True assms(2) count_sources_Panicked [of e "sort_key raw_src es" "replicate (n + 1) 0"]
    by (simp add: csr_build_def del: replicate.simps)
next
  case False
  let ?es = "sort_key raw_src es"
  obtain b where b: "csr_build es n = Ok b" "built_from ?es n b"
    using csr_build_Ok [of es n] False assms by (auto simp: not_le)
  have flt: "filter (\<lambda>e. raw_src e = s) ?es = filter (\<lambda>e. raw_src e = s) es" for s
    by (rule sort_key_stable)
  have "take (length (filter (\<lambda>e. raw_src e = s) ?es)) (drop (edge_base b s) (csr_evidence b))
      = map raw_evidence (filter (\<lambda>e. raw_src e = s) ?es)" for s
    by (rule built_evidence [OF b(2)])
  then show ?thesis
    using False b built_edges [OF b(2)] built_num_symbols [OF b(2)]
    by (simp add: flt) (simp add: built_from_def)
qed

theorem csr_roundtrip_witness:
  "length sample_csr < 2 ^ 32 \<and> list_all (\<lambda>e. unat (raw_src e) < 3) sample_csr
   \<and> (case csr_build sample_csr 3 of
        Ok b \<Rightarrow> csr_edges b 2 = Ok [\<lparr>e_target = 1, e_kind = kind_calls, e_confidence = 7\<rparr>,
                                   \<lparr>e_target = 0, e_kind = kind_refs, e_confidence = 9\<rparr>]
      | _ \<Rightarrow> False)"
  using csr_roundtrip [of sample_csr 3]
  by (simp add: sample_csr_def csr_add_edge_def add_edge_with_evidence_def to_edge_def split: result.splits)

text \<open>
  C28: The reverse index is exact. On a built adjacency, for every filter the counting placement
  returns for each target exactly the matching edges with their source and edge number, in
  ascending edge number; and the one-pass bundle equals the three separate builds.
\<close>

theorem reverse_index_exact:
  assumes "length es < 2 ^ 32" "n < 2 ^ 32" "\<forall>e \<in> set es. unat (raw_src e) < n"
  shows "\<exists>b. csr_build es n = Ok b
    \<and> (\<forall>keep. \<exists>r. build_filtered b keep = Ok r \<and> (\<forall>t. callers r t =
         map (\<lambda>(k, e). (raw_src e, of_nat k))
           (filter (\<lambda>(k, e). keep (raw_kind e) \<and> raw_dst e = t \<and> unat t < n)
             (enumerate 0 (sort_key raw_src es)))))
    \<and> (\<exists>al bl ca. reverse_build b None = Ok al \<and> build_filtered b is_blast_kind = Ok bl
         \<and> reverse_build b (Some kind_calls) = Ok ca
         \<and> bundle_build b = Ok \<lparr>rb_all = al, rb_blast = bl, rb_calls = ca\<rparr>)"
proof -
  obtain b where b: "csr_build es n = Ok b" "built_from (sort_key raw_src es) n b"
    using csr_build_Ok [OF assms(3,1)] assms(2) by auto
  note rev = built_reverse [OF b(2) assms(2)]
  obtain al bl ca where "build_filtered b (\<lambda>_. True) = Ok al" "build_filtered b is_blast_kind = Ok bl"
    "build_filtered b (\<lambda>k. k = kind_calls) = Ok ca"
    using rev [of "\<lambda>_. True"] rev [of is_blast_kind] rev [of "\<lambda>k. k = kind_calls"] by blast
  then show ?thesis
    using b(1) rev build_filtered_bundle by (auto simp: reverse_build_def)
qed

theorem reverse_index_exact_witness:
  "length sample_csr < 2 ^ 32 \<and> list_all (\<lambda>e. unat (raw_src e) < 3) sample_csr
   \<and> (\<exists>b r. csr_build sample_csr 3 = Ok b \<and> build_filtered b (\<lambda>k. k = kind_calls) = Ok r
        \<and> callers r 1 = [(0, 0), (2, 1)])"
proof -
  have "length sample_csr < 2 ^ 32" "\<forall>e \<in> set sample_csr. unat (raw_src e) < 3"
    by (simp_all add: sample_csr_def csr_add_edge_def add_edge_with_evidence_def)
  moreover have "map (\<lambda>(k, e). (raw_src e, of_nat k :: u32))
      (filter (\<lambda>(k, e). raw_kind e = kind_calls \<and> raw_dst e = 1 \<and> unat (1 :: u32) < 3)
        (enumerate 0 (sort_key raw_src sample_csr))) = [(0, 0), (2, 1)]"
    by (simp add: sample_csr_def csr_add_edge_def add_edge_with_evidence_def kind_calls_def kind_refs_def
        span_default_def)
  ultimately show ?thesis
    unfolding list_all_iff using reverse_index_exact [of sample_csr 3] by fastforce
qed

end
