(* ===== verification/Coverage_Bitmap.thy ===== *)
theory Coverage_Bitmap
  imports Prelude
begin

unbundle bit_operations_syntax

text \<open>
  The packed coverage bitmap of a snapshot (graphzero-store/src/store/coverage.rs): three bits
  per blob, one for each tier, least significant bit first. The counting routines read eight
  blobs at a time as a 24-bit group, mask one tier and count ones; the theorems show that they
  compute the number of blobs whose bit \<open>get\<close> reports, and that \<open>set\<close> writes exactly one bit,
  for every blob count whose bit length fits a \<open>usize\<close>. Bit numbers are unchecked \<open>usize\<close>
  products and wrap, as in a release build; what that does to a larger count is shown too.
\<close>

section \<open>Definitions\<close>

datatype tier = TierA | TierB | TierC

definition bits_per_blob :: nat where
  "bits_per_blob = 3"

record coverage_bitmap =
  cov_blob_count :: nat
  cov_bits :: bytes

primrec tier_bit :: "tier \<Rightarrow> nat" where
  "tier_bit TierA = 0"
| "tier_bit TierB = 1"
| "tier_bit TierC = 2"

definition tier_a_mask :: u32 where "tier_a_mask = 0x249249"
definition tier_b_mask :: u32 where "tier_b_mask = 0x492492"
definition tier_c_mask :: u32 where "tier_c_mask = 0x924924"

primrec tier_mask :: "tier \<Rightarrow> u32" where
  "tier_mask TierA = tier_a_mask"
| "tier_mask TierB = tier_b_mask"
| "tier_mask TierC = tier_c_mask"

definition div_ceil :: "nat \<Rightarrow> nat \<Rightarrow> nat" where
  "div_ceil n d = (if n mod d = 0 then n div d else n div d + 1)"

definition bitmap_new :: "nat \<Rightarrow> coverage_bitmap" where
  "bitmap_new n = \<lparr>cov_blob_count = n, cov_bits = replicate (div_ceil (wrap_usize (n * bits_per_blob)) 8) 0\<rparr>"

text \<open>\<open>Vec::resize\<close> with zeros.\<close>

definition resize0 :: "nat \<Rightarrow> bytes \<Rightarrow> bytes" where
  "resize0 want bits = take want bits @ replicate (want - length bits) 0"

definition from_packed :: "nat \<Rightarrow> bytes \<Rightarrow> coverage_bitmap" where
  "from_packed n bits =
     \<lparr>cov_blob_count = n, cov_bits = resize0 (div_ceil (wrap_usize (n * bits_per_blob)) 8) bits\<rparr>"

definition bit_index :: "nat \<Rightarrow> tier \<Rightarrow> nat" where
  "bit_index blob t = wrap_usize (wrap_usize (blob * bits_per_blob) + tier_bit t)"

definition bitmap_set :: "nat \<Rightarrow> tier \<Rightarrow> bool \<Rightarrow> coverage_bitmap \<Rightarrow> (coverage_bitmap, unit) result" where
  "bitmap_set blob t v m =
     (if \<not> blob < cov_blob_count m then Panicked
      else let k = bit_index blob t; byte = k div 8; off = k mod 8
           in if \<not> byte < length (cov_bits m) then Panicked
              else Ok (m\<lparr>cov_bits := (cov_bits m)[byte :=
                     (if v then cov_bits m ! byte OR push_bit off 1
                      else cov_bits m ! byte AND NOT (push_bit off 1))]\<rparr>))"

definition bitmap_get :: "coverage_bitmap \<Rightarrow> nat \<Rightarrow> tier \<Rightarrow> (bool, unit) result" where
  "bitmap_get m blob t =
     (if cov_blob_count m \<le> blob then Ok False
      else let k = bit_index blob t
           in if \<not> k div 8 < length (cov_bits m) then Panicked
              else Ok (drop_bit (k mod 8) (cov_bits m ! (k div 8)) AND 1 = 1))"

text \<open>\<open>count_ones\<close>, \<open>chunks_exact(3)\<close> and \<open>bits.get(i).copied().unwrap_or(0)\<close>.\<close>

definition count_ones :: "u32 \<Rightarrow> nat" where
  "count_ones w = length (filter (bit w) [0..<32])"

fun chunks3 :: "'a list \<Rightarrow> ('a \<times> 'a \<times> 'a) list" where
  "chunks3 (a # b # c # xs) = (a, b, c) # chunks3 xs"
| "chunks3 xs = []"

definition byte_or_0 :: "bytes \<Rightarrow> nat \<Rightarrow> byte" where
  "byte_or_0 bits i = (if i < length bits then bits ! i else 0)"

definition group_word :: "byte \<times> byte \<times> byte \<Rightarrow> u32" where
  "group_word c = (case c of (c0, c1, c2) \<Rightarrow> ucast c0 OR push_bit 8 (ucast c1) OR push_bit 16 (ucast c2))"

definition bit_value :: "bytes \<Rightarrow> nat \<Rightarrow> nat" where
  "bit_value bits k = unat (drop_bit (k mod 8) (byte_or_0 bits (k div 8)) AND 1)"

definition tier_count_packed :: "bytes \<Rightarrow> nat \<Rightarrow> tier \<Rightarrow> nat" where
  "tier_count_packed bits n t =
     (let full_groups = n div 8;
          count = foldl (\<lambda>count c. count + count_ones (group_word c AND tier_mask t)) 0
                    (take full_groups (chunks3 bits))
      in foldl (\<lambda>count i. count + bit_value bits (bit_index i t)) count
           [full_groups * 8..<n])"

datatype coverage_error = BlobCountOverflow | BitsTruncated

definition tier_counts_packed :: "bytes \<Rightarrow> nat \<Rightarrow> (nat \<times> nat \<times> nat, coverage_error) result" where
  "tier_counts_packed bits n =
     (if 2 ^ 64 \<le> n * bits_per_blob then Err BlobCountOverflow
      else if length bits < div_ceil (n * bits_per_blob) 8 then Err BitsTruncated
      else let full_groups = n div 8;
               counts = foldl (\<lambda>(a, b, c) g.
                   (a + count_ones (group_word g AND tier_a_mask),
                    b + count_ones (group_word g AND tier_b_mask),
                    c + count_ones (group_word g AND tier_c_mask))) (0, 0, 0)
                 (take full_groups (chunks3 bits))
           in Ok (foldl (\<lambda>(a, b, c) i.
                  let base_bit = wrap_usize (i * bits_per_blob)
                  in (a + unat (drop_bit (base_bit mod 8) (byte_or_0 bits (base_bit div 8)) AND 1),
                      b + bit_value bits (wrap_usize (base_bit + 1)), c + bit_value bits (wrap_usize (base_bit + 2))))
                counts [full_groups * 8..<n]))"

definition tier_count :: "coverage_bitmap \<Rightarrow> tier \<Rightarrow> nat" where
  "tier_count m t = tier_count_packed (cov_bits m) (cov_blob_count m) t"

section \<open>The bit stream\<close>

definition stream_bit :: "bytes \<Rightarrow> nat \<Rightarrow> bool" where
  "stream_bit bits k = bit (byte_or_0 bits (k div 8)) (k mod 8)"

definition tier_set :: "bytes \<Rightarrow> nat \<Rightarrow> tier \<Rightarrow> nat set" where
  "tier_set bits n t = {i. i < n \<and> stream_bit bits (i * 3 + tier_bit t)}"

text \<open>The bitmaps whose bit length fits a \<open>usize\<close>.\<close>

definition bitmap_ok :: "coverage_bitmap \<Rightarrow> bool" where
  "bitmap_ok m = (cov_blob_count m * 3 < 2 ^ 64 \<and> length (cov_bits m) = div_ceil (cov_blob_count m * 3) 8)"

lemma and_one_word: "(w :: 'a :: len word) AND 1 = of_bool (bit w 0)"
  by (rule bit_eqI) (auto simp: bit_simps)

lemma bit_value_eq: "bit_value bits k = of_bool (stream_bit bits k)"
  by (simp add: bit_value_def stream_bit_def and_one_word bit_simps)

lemma div_ceil_bound: "i < n \<Longrightarrow> j < 3 \<Longrightarrow> (i * 3 + j) div 8 < div_ceil (n * 3) 8"
  unfolding div_ceil_def by (auto; presburger)

lemma tier_bit_less: "tier_bit t < 3"
  by (cases t) simp_all

lemma bit_index_eq:
  assumes "i < n" "n * 3 < 2 ^ 64"
  shows "bit_index i t = i * 3 + tier_bit t"
proof -
  have "i * 3 + tier_bit t < n * 3" using assms(1) tier_bit_less [of t] by linarith
  then have "i * 3 < 2 ^ 64" "i * 3 + tier_bit t < 2 ^ 64" using assms(2) by linarith+
  then show ?thesis unfolding bit_index_def bits_per_blob_def by (simp only: wrap_usize_small)
qed

lemma bitmap_get_eq:
  assumes "bitmap_ok m"
  shows "bitmap_get m i t = Ok (i \<in> tier_set (cov_bits m) (cov_blob_count m) t)"
proof (cases "i < cov_blob_count m")
  case True
  have k: "bit_index i t = i * 3 + tier_bit t"
    using bit_index_eq [OF True] assms by (simp add: bitmap_ok_def)
  show ?thesis
    using assms True div_ceil_bound [OF True tier_bit_less, of t]
    by (simp add: bitmap_get_def k bitmap_ok_def tier_set_def stream_bit_def Let_def
        and_one_word bit_simps byte_or_0_def)
qed (simp add: bitmap_get_def tier_set_def)

section \<open>Counting by groups\<close>

lemma byte_bit_high: "8 \<le> k \<Longrightarrow> \<not> bit (c :: byte) k"
  by (auto dest: bit_imp_le_length)

lemma bit_group_word:
  assumes "k < 24"
  shows "bit (group_word (c0, c1, c2)) k = bit ([c0, c1, c2] ! (k div 8)) (k mod 8)"
proof -
  consider "k < 8" | "8 \<le> k" "k < 16" | "16 \<le> k" "k < 24" using assms by linarith
  then show ?thesis
  proof cases
    case 1
    then show ?thesis by (simp add: group_word_def bit_simps)
  next
    case 2
    then obtain j where "k = 8 + j" "j < 8" using that [of "k - 8"] by auto
    then show ?thesis by (auto simp: group_word_def bit_simps byte_bit_high)
  next
    case 3
    then obtain j where j: "k = 16 + j" "j < 8" using that [of "k - 16"] by auto
    moreover have "(j + 2 * 8) mod 8 = j" using j(2) by (subst mod_mult_self1) simp
    ultimately have "k mod 8 = j" by (simp add: add.commute)
    then show ?thesis using j by (auto simp: group_word_def bit_simps byte_bit_high)
  qed
qed

lemma mask_positions: "filter (bit (tier_mask t)) [0..<32] = map (\<lambda>i. i * 3 + tier_bit t) [0..<8]"
proof (cases t)
  case TierA
  have "filter (bit (tier_mask TierA)) [0..<32] = map (\<lambda>i. i * 3 + tier_bit TierA) [0..<8]" by code_simp
  then show ?thesis using TierA by simp
next
  case TierB
  have "filter (bit (tier_mask TierB)) [0..<32] = map (\<lambda>i. i * 3 + tier_bit TierB) [0..<8]" by code_simp
  then show ?thesis using TierB by simp
next
  case TierC
  have "filter (bit (tier_mask TierC)) [0..<32] = map (\<lambda>i. i * 3 + tier_bit TierC) [0..<8]" by code_simp
  then show ?thesis using TierC by simp
qed

lemma count_ones_masked:
  "count_ones (w AND tier_mask t) = length (filter (\<lambda>i. bit w (i * 3 + tier_bit t)) [0..<8])"
proof -
  have "filter (bit (w AND tier_mask t)) [0..<32] = filter (bit w) (filter (bit (tier_mask t)) [0..<32])"
    by (auto simp: bit_simps intro: filter_cong)
  then show ?thesis
    unfolding count_ones_def mask_positions by (simp add: filter_map comp_def)
qed

lemma nth_chunks3:
  "g < length xs div 3 \<Longrightarrow> chunks3 xs ! g = (xs ! (3 * g), xs ! (3 * g + 1), xs ! (3 * g + 2))"
proof (induction xs arbitrary: g rule: chunks3.induct)
  case (1 a b c xs)
  show ?case
  proof (cases g)
    case (Suc h)
    then have "h < length xs div 3" using 1(2) by simp
    then show ?thesis using 1(1) [of h] Suc by simp
  qed simp
qed simp_all

lemma length_chunks3: "length (chunks3 xs) = length xs div 3"
  by (induction xs rule: chunks3.induct) simp_all

lemma group_stream_bit:
  assumes "g < length bits div 3" "k < 24"
  shows "bit (group_word (chunks3 bits ! g)) k = stream_bit bits (24 * g + k)"
proof -
  have e: "24 * g + k = k + (3 * g) * 8" by simp
  have d: "(24 * g + k) div 8 = 3 * g + k div 8" "(24 * g + k) mod 8 = k mod 8"
    unfolding e by (subst div_mult_self1 mod_mult_self1; simp)+
  have l: "3 * g + 2 < length bits" using assms(1) by linarith
  consider "k div 8 = 0" | "k div 8 = 1" | "k div 8 = 2" using assms(2) by linarith
  then show ?thesis
    using l by cases (simp_all add: nth_chunks3 [OF assms(1)] bit_group_word [OF assms(2)] stream_bit_def d byte_or_0_def)
qed

lemma card_tier_set:
  "card (tier_set bits n t) = length (filter (\<lambda>i. stream_bit bits (i * 3 + tier_bit t)) [0..<n])"
  unfolding tier_set_def by (subst length_filter_conv_card) (auto intro!: arg_cong [where f = card])

lemma card_tier_set_add:
  "card (tier_set bits (n + k) t) = card (tier_set bits n t) +
     length (filter (\<lambda>i. stream_bit bits ((n + i) * 3 + tier_bit t)) [0..<k])"
proof -
  have "[n..<n + k] = map (\<lambda>i. n + i) [0..<k]" by (simp add: map_add_upt add.commute)
  then have "[0..<n + k] = [0..<n] @ map (\<lambda>i. n + i) [0..<k]"
    using upt_add_eq_append [of 0 n k] by simp
  then show ?thesis
    unfolding card_tier_set by (simp add: filter_map comp_def)
qed

lemma groups_count:
  "g \<le> length bits div 3 \<Longrightarrow>
   foldl (\<lambda>count c. count + count_ones (group_word c AND tier_mask t)) 0 (take g (chunks3 bits)) =
     card (tier_set bits (g * 8) t)"
proof (induction g)
  case 0
  then show ?case by (simp add: tier_set_def)
next
  case (Suc g)
  then have g: "g < length bits div 3" by simp
  have "bit (group_word (chunks3 bits ! g)) (i * 3 + tier_bit t) = stream_bit bits ((g * 8 + i) * 3 + tier_bit t)"
    if "i < 8" for i
    using group_stream_bit [OF g, of "i * 3 + tier_bit t"] tier_bit_less [of t] that
    by (simp add: algebra_simps)
  then have "filter (\<lambda>i. bit (group_word (chunks3 bits ! g)) (i * 3 + tier_bit t)) [0..<8]
      = filter (\<lambda>i. stream_bit bits ((g * 8 + i) * 3 + tier_bit t)) [0..<8]"
    by (intro filter_cong) auto
  then show ?case
    using Suc g card_tier_set_add [of bits "g * 8" 8 t]
    by (simp add: take_Suc_conv_app_nth length_chunks3 count_ones_masked add.commute)
qed

lemma tail_count:
  "m \<le> n \<Longrightarrow> foldl (\<lambda>count i. count + bit_value bits (i * 3 + tier_bit t)) (card (tier_set bits m t)) [m..<n]
     = card (tier_set bits n t)"
proof (induction n)
  case (Suc n)
  then show ?case
    using card_tier_set_add [of bits n 1 t] by (cases "m = Suc n") (simp_all add: bit_value_eq)
qed simp

lemma groups_fit: "div_ceil (n * 3) 8 \<le> length bits \<Longrightarrow> n div 8 \<le> length bits div 3"
  unfolding div_ceil_def by (auto split: if_splits; presburger)

lemma tail_bit_index:
  assumes "n * 3 < 2 ^ 64"
  shows "foldl (\<lambda>count i. count + bit_value bits (bit_index i t)) c [m..<n] =
     foldl (\<lambda>count i. count + bit_value bits (i * 3 + tier_bit t)) c [m..<n]"
  by (rule foldl_cong) (use bit_index_eq [OF _ assms] in auto)

lemma tier_count_packed_eq:
  assumes "n * 3 < 2 ^ 64" "div_ceil (n * 3) 8 \<le> length bits"
  shows "tier_count_packed bits n t = card (tier_set bits n t)"
  using groups_count [OF groups_fit [OF assms(2)], of t] tail_count [of "n div 8 * 8" n bits t]
  by (simp add: tier_count_packed_def tail_bit_index [OF assms(1)])

lemma foldl_triple:
  "foldl (\<lambda>(a, b, c) x. (f a x, g b x, h c x)) (a, b, c) xs = (foldl f a xs, foldl g b xs, foldl h c xs)"
  by (induction xs arbitrary: a b c) simp_all

lemma triple_bit_index:
  "wrap_usize (i * bits_per_blob) = bit_index i TierA"
  "wrap_usize (bit_index i TierA + 1) = bit_index i TierB"
  "wrap_usize (bit_index i TierA + 2) = bit_index i TierC"
  by (simp_all add: bit_index_def)

lemma tier_counts_packed_eq:
  "tier_counts_packed bits n =
     (if 2 ^ 64 \<le> n * 3 then Err BlobCountOverflow
      else if length bits < div_ceil (n * 3) 8 then Err BitsTruncated
      else Ok (tier_count_packed bits n TierA, tier_count_packed bits n TierB, tier_count_packed bits n TierC))"
  unfolding tier_counts_packed_def triple_bit_index Let_def
  by (simp add: tier_count_packed_def foldl_triple bit_value_def [symmetric] triple_bit_index [simplified] Let_def
      bits_per_blob_def)

section \<open>Packed bytes\<close>

lemma from_packed_simps [simp]: "cov_blob_count (from_packed n bits) = n"
  by (simp add: from_packed_def)

lemma bitmap_ok_from_packed:
  "n * 3 < 2 ^ 64 \<Longrightarrow> bitmap_ok (from_packed n bits)"
  "n * 3 < 2 ^ 64 \<Longrightarrow> length (cov_bits (from_packed n bits)) = div_ceil (n * 3) 8"
  by (simp_all add: bitmap_ok_def from_packed_def resize0_def bits_per_blob_def)

lemma bitmap_ok_packed: "bitmap_ok m \<Longrightarrow> from_packed (cov_blob_count m) (cov_bits m) = m"
  by (simp add: bitmap_ok_def from_packed_def resize0_def bits_per_blob_def)

lemma stream_bit_resize: "k div 8 < want \<Longrightarrow> stream_bit (resize0 want bits) k = stream_bit bits k"
  by (auto simp: stream_bit_def byte_or_0_def resize0_def nth_append)

lemma tier_set_from_packed:
  assumes "n * 3 < 2 ^ 64"
  shows "tier_set (cov_bits (from_packed n bits)) n t = tier_set bits n t"
proof -
  have "cov_bits (from_packed n bits) = resize0 (div_ceil (n * 3) 8) bits"
    using assms by (simp add: from_packed_def bits_per_blob_def)
  then show ?thesis
    using stream_bit_resize div_ceil_bound [OF _ tier_bit_less, of _ n t] by (auto simp: tier_set_def)
qed

lemma stream_bit_write:
  assumes "k div 8 < length bits"
  shows "stream_bit (bits[k div 8 := (if v then bits ! (k div 8) OR push_bit (k mod 8) 1
           else bits ! (k div 8) AND NOT (push_bit (k mod 8) 1))]) j = (if j = k then v else stream_bit bits j)"
proof -
  have "j div 8 = k div 8 \<Longrightarrow> j mod 8 = k mod 8 \<Longrightarrow> j = k"
    by (metis div_mult_mod_eq)
  moreover have "j mod 8 < LENGTH(8)" by simp
  ultimately show ?thesis
    using assms by (cases "j div 8 = k div 8") (auto simp: stream_bit_def byte_or_0_def bit_simps)
qed

section \<open>Properties\<close>

text \<open>
  C29: The packed counters are exact for every blob count whose bit length fits a \<open>usize\<close>:
  whatever the bytes, the count of a tier is the number of blobs whose bit \<open>get\<close> reports, and
  the one-pass counter returns the three counts, or refuses exactly a byte string too short for
  the count. It refuses every larger blob count.
\<close>

theorem tier_counts_exact:
  "if 2 ^ 64 \<le> n * 3 then tier_counts_packed bits n = Err BlobCountOverflow
   else tier_count (from_packed n bits) t = card {i. bitmap_get (from_packed n bits) i t = Ok True}
     \<and> tier_counts_packed bits n =
         (if length bits * 8 < n * 3 then Err BitsTruncated
          else Ok (tier_count (from_packed n bits) TierA, tier_count (from_packed n bits) TierB,
                   tier_count (from_packed n bits) TierC))"
proof (cases "n * 3 < 2 ^ 64")
  case True
  have count: "tier_count (from_packed n bits) t = card (tier_set bits n t)" for t
    using True by (simp add: tier_count_def tier_count_packed_eq tier_set_from_packed bitmap_ok_from_packed(2))
  moreover have "length bits < div_ceil (n * 3) 8 \<longleftrightarrow> length bits * 8 < n * 3"
    unfolding div_ceil_def using div_mult_mod_eq [of "n * 3" 8] mod_less_divisor [of 8 "n * 3"]
    by (auto; linarith)
  moreover have "\<not> length bits < div_ceil (n * 3) 8 \<Longrightarrow> tier_count_packed bits n t = card (tier_set bits n t)" for t
    using True by (simp add: tier_count_packed_eq)
  ultimately show ?thesis
    using True by (simp add: bitmap_get_eq tier_set_from_packed bitmap_ok_from_packed tier_counts_packed_eq)
next
  case False
  then show ?thesis by (simp add: tier_counts_packed_eq)
qed

text \<open>
  C30: Writing a bit changes that bit and no other, for every blob count whose bit length fits a
  \<open>usize\<close>: \<open>set\<close> succeeds exactly on a blob in range, keeps the packed form, and \<open>get\<close> then
  reports the written value there and the old values everywhere else. \<open>get\<close> never panics and
  reports nothing out of range.
\<close>

theorem bitmap_set_get:
  assumes fits: "n * 3 < 2 ^ 64"
  shows "(case bitmap_set i t v (from_packed n bits) of
      Ok m \<Rightarrow> i < n \<and> m = from_packed n (cov_bits m)
        \<and> (\<forall>j u. bitmap_get m j u = (if j = i \<and> u = t then Ok v else bitmap_get (from_packed n bits) j u))
    | Err e \<Rightarrow> False
    | Panicked \<Rightarrow> n \<le> i)
   \<and> bitmap_get (from_packed n bits) i t \<noteq> Panicked
   \<and> (if n \<le> i then bitmap_get (from_packed n bits) i t = Ok False else True)"
proof (cases "i < n")
  case True
  note from_ok = bitmap_ok_from_packed [OF fits]
  define k where "k = i * 3 + tier_bit t"
  have k: "k div 8 < div_ceil (n * 3) 8" using div_ceil_bound [OF True tier_bit_less] by (simp add: k_def)
  define bs where "bs = cov_bits (from_packed n bits)"
  define m where "m = (from_packed n bits)\<lparr>cov_bits := bs[k div 8 :=
    (if v then bs ! (k div 8) OR push_bit (k mod 8) 1 else bs ! (k div 8) AND NOT (push_bit (k mod 8) 1))]\<rparr>"
  have m: "bitmap_set i t v (from_packed n bits) = Ok m"
    using True k by (simp add: bitmap_set_def Let_def m_def bs_def from_ok bit_index_eq [OF True fits]
        k_def [symmetric])
  have ok: "bitmap_ok m" and n: "cov_blob_count m = n"
    using fits by (simp_all add: m_def bs_def bitmap_ok_def from_ok)
  have bits: "stream_bit (cov_bits m) j = (if j = k then v else stream_bit bs j)" for j
    using stream_bit_write [of k bs v j] k by (simp add: m_def bs_def from_ok)
  have "j * 3 + tier_bit u = k \<longleftrightarrow> j = i \<and> u = t" for j u
    unfolding k_def by (cases u; cases t) (auto; presburger)+
  then have "bitmap_get m j u = (if j = i \<and> u = t then Ok v else bitmap_get (from_packed n bits) j u)" for j u
    using True by (auto simp: bitmap_get_eq ok n tier_set_def bits bs_def from_ok)
  then show ?thesis
    using m True bitmap_ok_packed [OF ok] n by (simp add: bitmap_get_eq from_ok)
next
  case False
  then show ?thesis by (simp add: bitmap_set_def bitmap_get_def)
qed

theorem bitmap_set_get_witness:
  "(case bitmap_set 1 TierB True (from_packed 3 [0]) of
      Ok m \<Rightarrow> bitmap_get m 1 TierB = Ok True \<and> bitmap_get m 1 TierA = Ok False
    | _ \<Rightarrow> False)
   \<and> bitmap_set 3 TierB True (from_packed 3 [0]) = Panicked"
proof -
  have "bitmap_get (from_packed 3 [0]) 1 TierA = Ok False" by code_simp
  moreover have "bitmap_set 3 TierB True (from_packed 3 [0]) = Panicked" by code_simp
  ultimately show ?thesis
    using bitmap_set_get [of 3 1 TierB True "[0]"] by (auto split: result.splits)
qed

text \<open>
  A blob count whose bit length does not fit wraps: the bitmap below has a single byte,
  so reading or writing a blob in range panics.
\<close>

lemma from_packed_wraps:
  "bitmap_get (from_packed 0x5555555555555556 []) 3 TierA = Panicked"
  "bitmap_set 3 TierA True (from_packed 0x5555555555555556 []) = Panicked"
proof -
  have "cov_bits (from_packed 0x5555555555555556 []) = [0]"
    by (simp add: from_packed_def bits_per_blob_def wrap_usize_mod div_ceil_def resize0_def)
  moreover have "bit_index 3 TierA = 9" by (simp add: bit_index_def bits_per_blob_def)
  ultimately show "bitmap_get (from_packed 0x5555555555555556 []) 3 TierA = Panicked"
    "bitmap_set 3 TierA True (from_packed 0x5555555555555556 []) = Panicked"
    by (simp_all add: bitmap_get_def bitmap_set_def Let_def)
qed

end
