(* ===== verification/Footprint.thy ===== *)
theory Footprint
  imports Csr Coverage_Bitmap "HOL-Library.List_Lexorder" "HOL-Library.Char_ord" Complex_Main
begin

text \<open>
  Contract footprints (graphzero-reserve/src/footprint.rs): the symbols within four reverse call
  hops of a target, with their evidence spans and the coverage of the snapshot, merged over the
  operations of an intent. A snapshot is given by its sections; the perfect-hash lookup of a
  name, the free-text intent parser and the rounding of floating-point results are parameters.
\<close>

section \<open>Definitions\<close>

record intent_operation =
  op_kind :: string
  op_target_symbol :: "string option"
  op_intent_text :: "string option"

text \<open>A floating-point value: a finite one is the rational it denotes.\<close>

datatype f64 = Finite rat | NonFinite

datatype reserve_error = Validation | ResNotFound string | StoreError

definition max_reverse_call_hops :: nat where
  "max_reverse_call_hops = 4"

record footprint_snapshot =
  fp_footprint_ref :: string
  fp_target_symbol :: string
  fp_contract_nodes :: "string list"
  fp_evidence_refs :: "string list"
  fp_tier_a_percent :: f64

text \<open>
  The sections of a snapshot: symbol names by number, the raw result of the perfect-hash lookup,
  the edges with their evidence, and the coverage section. \<open>fenv_target_symbol\<close> is the target
  symbol \<open>parse_intent\<close> finds, \<open>fenv_round\<close> the rounding of a rational to a double.
\<close>

record snapshot_view =
  sv_names :: "string list"
  sv_lookup :: "string \<Rightarrow> u32 option"
  sv_edges :: edges_view
  sv_evidence :: "span_entry list"
  sv_blob_hashes :: "bytes list"
  sv_coverage_bits :: bytes

record footprint_env =
  fenv_target_symbol :: "string \<Rightarrow> string option"
  fenv_round :: "rat \<Rightarrow> rat"

definition symbol_name :: "snapshot_view \<Rightarrow> u32 \<Rightarrow> string option" where
  "symbol_name v i = (if unat i < length (sv_names v) then Some (sv_names v ! unat i) else None)"

definition symbol_get :: "snapshot_view \<Rightarrow> string \<Rightarrow> u32 option" where
  "symbol_get v s = (case sv_lookup v s of
     None \<Rightarrow> None
   | Some i \<Rightarrow> (if symbol_name v i = Some s then Some i else None))"

definition depth_visit ::
  "nat \<Rightarrow> u32 list \<times> (u32, nat) btree_map \<Rightarrow> u32 \<times> u32 \<Rightarrow> u32 list \<times> (u32, nat) btree_map" where
  "depth_visit hop st c =
     (if bt_contains_key (snd st) (fst c) then st
      else (fst st @ [fst c], bt_insert (fst c) (hop + 1) (snd st)))"

lemma depth_visit_keys:
  "fst ` set (snd (foldl (depth_visit hop) st cs)) = fst ` set (snd st) \<union> fst ` set cs"
  by (induction cs arbitrary: st) (auto simp: depth_visit_def bt_contains_key_iff keys_bt_insert)

lemma depth_visit_same: "fst ` set cs \<subseteq> fst ` set (snd st) \<Longrightarrow> foldl (depth_visit hop) st cs = st"
  by (induction cs) (auto simp: depth_visit_def bt_contains_key_iff)

lemma depth_visit_measure:
  "card (- fst ` set (snd (foldl (depth_visit hop) (q, depth) cs))) < card (- fst ` set depth)
   \<or> foldl (depth_visit hop) (q, depth) cs = (q, depth :: (u32, nat) btree_map)"
proof (cases "fst ` set cs \<subseteq> fst ` set depth")
  case True
  then show ?thesis using depth_visit_same [of cs "(q, depth)" hop] by simp
next
  case False
  then have "card (- (fst ` set depth \<union> fst ` set cs)) < card (- fst ` set depth)"
    by (intro psubset_card_mono) auto
  then show ?thesis by (simp add: depth_visit_keys)
qed

function depth_loop ::
  "reverse_index \<Rightarrow> u32 list \<Rightarrow> (u32, nat) btree_map \<Rightarrow> ((u32, nat) btree_map, reserve_error) result" where
  "depth_loop r [] depth = Ok depth"
| "depth_loop r (node # q) depth =
     (case bt_get depth node of
        None \<Rightarrow> Panicked
      | Some hop \<Rightarrow>
          if max_reverse_call_hops \<le> hop then depth_loop r q depth
          else let st = foldl (depth_visit hop) (q, depth) (callers r node)
               in depth_loop r (fst st) (snd st))"
  by pat_completeness auto

termination
proof (relation "measures [\<lambda>(r, q, depth). card (- fst ` set depth), \<lambda>(r, q, depth). length q]", goal_cases)
  case (3 r node q depth hop st)
  then show ?case using depth_visit_measure [of hop q depth "callers r node"] by (auto simp: case_prod_unfold)
qed auto

definition reverse_call_depth :: "'z edges_view_scheme \<Rightarrow> u32 \<Rightarrow> ((u32, nat) btree_map, reserve_error) result" where
  "reverse_call_depth csr target =
     (case reverse_build csr (Some kind_calls) of
        Ok r \<Rightarrow> depth_loop r [target] (bt_insert target 0 [])
      | _ \<Rightarrow> Panicked)"

definition fast_hex :: "bytes \<Rightarrow> string" where
  "fast_hex bs = concat (map hex_byte bs)"

definition blob_hash_hex :: "bytes list \<Rightarrow> u32 \<Rightarrow> string" where
  "blob_hash_hex hashes i = (if unat i < length hashes then fast_hex (hashes ! unat i) else [])"

definition blob_span_ref :: "string \<Rightarrow> u32 \<Rightarrow> u32 \<Rightarrow> string" where
  "blob_span_ref hash_hex s e =
     ''z://blob/'' @ hash_hex @ ''#B'' @ show_nat (unat s) @ ''-'' @ show_nat (unat e)"

definition best_evidence_for_node ::
  "reverse_index \<Rightarrow> span_entry list \<Rightarrow> bytes list \<Rightarrow> u32 \<Rightarrow> string \<Rightarrow> string" where
  "best_evidence_for_node r evidence hashes node node_ref =
     foldl (\<lambda>best c.
         let ev = (if unat (snd c) < length evidence then evidence ! unat (snd c) else span_default);
             span = blob_span_ref (blob_hash_hex hashes (sp_blob_idx ev)) (sp_start ev) (sp_end ev)
         in if span \<noteq> [] then span else best)
       node_ref (callers r node)"

definition contract_nodes_and_evidence ::
  "(u32, nat) btree_map \<Rightarrow> snapshot_view \<Rightarrow> reverse_index \<Rightarrow> u32 \<Rightarrow> string list \<times> string list" where
  "contract_nodes_and_evidence depth v r target =
     (let named = filter (\<lambda>(i, hop). (case symbol_name v i of Some s \<Rightarrow> s | None \<Rightarrow> []) \<noteq> []) depth;
          node_ref = (\<lambda>i. ''node/'' @ (case symbol_name v i of Some s \<Rightarrow> s | None \<Rightarrow> []))
      in (bs_of_list (map (\<lambda>(i, hop). node_ref i) named),
          bs_of_list (map (\<lambda>(i, hop). best_evidence_for_node r (sv_evidence v) (sv_blob_hashes v) i (node_ref i))
            (filter (\<lambda>(i, hop). 0 < hop \<or> i = target) named))))"

definition tier_a_percent_from_coverage :: "(rat \<Rightarrow> rat) \<Rightarrow> coverage_bitmap option \<Rightarrow> f64" where
  "tier_a_percent_from_coverage rnd coverage =
     (case coverage of
        None \<Rightarrow> Finite 0
      | Some bm \<Rightarrow>
          if cov_blob_count bm = 0 then Finite 0
          else Finite (rnd (rnd (rnd (of_nat (tier_count bm TierA)) / rnd (of_nat (cov_blob_count bm))) * 100)))"

definition tier_a_percent :: "(rat \<Rightarrow> rat) \<Rightarrow> snapshot_view \<Rightarrow> f64" where
  "tier_a_percent rnd v =
     tier_a_percent_from_coverage rnd (Some (from_packed (length (sv_blob_hashes v)) (sv_coverage_bits v)))"

definition contract_footprint ::
  "footprint_env \<Rightarrow> snapshot_view \<Rightarrow> string \<Rightarrow> (footprint_snapshot, reserve_error) result" where
  "contract_footprint env v intent =
     r_bind (ok_or (fenv_target_symbol env intent) StoreError) (\<lambda>target.
     r_bind (ok_or (symbol_get v target) StoreError) (\<lambda>target_id.
     case reverse_build (sv_edges v) (Some kind_calls) of
       Ok r \<Rightarrow>
         r_bind (reverse_call_depth (sv_edges v) target_id) (\<lambda>depth.
           case contract_nodes_and_evidence depth v r target_id of (nodes, refs) \<Rightarrow>
             Ok \<lparr>fp_footprint_ref = ''footprint/'' @ target, fp_target_symbol = target,
                 fp_contract_nodes = nodes, fp_evidence_refs = refs,
                 fp_tier_a_percent = tier_a_percent (fenv_round env) v\<rparr>)
     | _ \<Rightarrow> Panicked))"

definition intent_text_for_op :: "intent_operation \<Rightarrow> string" where
  "intent_text_for_op op =
     (case op_intent_text op of
        Some t \<Rightarrow> t
      | None \<Rightarrow> (case op_target_symbol op of
                   Some s \<Rightarrow> ''change signature of '' @ s
                 | None \<Rightarrow> ''change '' @ op_kind op))"

record merge_st =
  mg_nodes :: "string btree_set"
  mg_evidence :: "string btree_set"
  mg_tier_a :: rat
  mg_footprint_ref :: string
  mg_target :: string

definition incoming_tier_a :: "f64 \<Rightarrow> rat" where
  "incoming_tier_a v = (case v of Finite q \<Rightarrow> max 0 (min 100 q) | NonFinite \<Rightarrow> 0)"

definition merge_footprint_into :: "footprint_snapshot \<Rightarrow> merge_st \<Rightarrow> merge_st" where
  "merge_footprint_into fp st =
     \<lparr>mg_nodes = foldl (\<lambda>s n. bs_insert n s) (mg_nodes st) (fp_contract_nodes fp),
      mg_evidence = foldl (\<lambda>s e. bs_insert e s) (mg_evidence st) (fp_evidence_refs fp),
      mg_tier_a = min (mg_tier_a st) (incoming_tier_a (fp_tier_a_percent fp)),
      mg_footprint_ref = (if mg_footprint_ref st = [] then fp_footprint_ref fp else mg_footprint_ref st),
      mg_target = (if mg_footprint_ref st = [] then fp_target_symbol fp else mg_target st)\<rparr>"

primrec merge_footprints ::
  "footprint_env \<Rightarrow> snapshot_view \<Rightarrow> intent_operation list \<Rightarrow> merge_st
    \<Rightarrow> (merge_st, reserve_error) result" where
  "merge_footprints env v [] st = Ok st"
| "merge_footprints env v (op # ops) st =
     r_bind (contract_footprint env v (intent_text_for_op op)) (\<lambda>fp.
       merge_footprints env v ops (merge_footprint_into fp st))"

definition footprint_from_intent_ops ::
  "footprint_env \<Rightarrow> snapshot_view \<Rightarrow> intent_operation list
    \<Rightarrow> (footprint_snapshot, reserve_error) result" where
  "footprint_from_intent_ops env v ops =
     r_bind (merge_footprints env v ops
               \<lparr>mg_nodes = [], mg_evidence = [], mg_tier_a = 100, mg_footprint_ref = [], mg_target = []\<rparr>)
       (\<lambda>st. Ok \<lparr>fp_footprint_ref =
                   (if mg_footprint_ref st = [] then ''footprint/unknown'' else mg_footprint_ref st),
                 fp_target_symbol = mg_target st, fp_contract_nodes = mg_nodes st,
                 fp_evidence_refs = mg_evidence st, fp_tier_a_percent = Finite (mg_tier_a st)\<rparr>)"


section \<open>Bounded breadth-first search\<close>

lemma depth_visit_spec:
  "\<exists>new. fst (foldl (depth_visit hop) (q, depth) cs) = q @ new
     \<and> set new = fst ` set cs - fst ` set depth
     \<and> (\<forall>v. bt_get (snd (foldl (depth_visit hop) (q, depth) cs)) v =
          (if v \<in> fst ` set cs - fst ` set depth then Some (hop + 1) else bt_get depth v))
     \<and> (bt_ok depth \<longrightarrow> bt_ok (snd (foldl (depth_visit hop) (q, depth) cs)))"
proof (induction cs arbitrary: q depth)
  case (Cons c cs)
  show ?case
  proof (cases "fst c \<in> fst ` set depth")
    case True
    then have "depth_visit hop (q, depth) c = (q, depth)" by (simp add: depth_visit_def bt_contains_key_iff)
    moreover have "fst ` set (c # cs) - fst ` set depth = fst ` set cs - fst ` set depth" using True by auto
    ultimately show ?thesis using Cons [of q depth] by simp
  next
    case False
    let ?d = "bt_insert (fst c) (hop + 1) depth"
    have keys: "fst ` set ?d = insert (fst c) (fst ` set depth)" by (simp add: keys_bt_insert)
    have "depth_visit hop (q, depth) c = (q @ [fst c], ?d)" using False by (simp add: depth_visit_def bt_contains_key_iff)
    moreover obtain new where "fst (foldl (depth_visit hop) (q @ [fst c], ?d) cs) = (q @ [fst c]) @ new"
      "set new = fst ` set cs - fst ` set ?d"
      "\<forall>v. bt_get (snd (foldl (depth_visit hop) (q @ [fst c], ?d) cs)) v =
          (if v \<in> fst ` set cs - fst ` set ?d then Some (hop + 1) else bt_get ?d v)"
      "bt_ok ?d \<longrightarrow> bt_ok (snd (foldl (depth_visit hop) (q @ [fst c], ?d) cs))"
      using Cons [of "q @ [fst c]" ?d] by blast
    ultimately show ?thesis
      using False unfolding keys by (intro exI [of _ "fst c # new"]) auto
  qed
qed simp

lemma depth_loop_induct [case_names empty step]:
  assumes "\<And>depth. P [] depth"
    and "\<And>node q depth. (\<And>hop. bt_get depth node = Some hop \<Longrightarrow> max_reverse_call_hops \<le> hop \<Longrightarrow> P q depth) \<Longrightarrow>
      (\<And>hop. bt_get depth node = Some hop \<Longrightarrow> \<not> max_reverse_call_hops \<le> hop \<Longrightarrow>
        P (fst (foldl (depth_visit hop) (q, depth) (callers r node)))
          (snd (foldl (depth_visit hop) (q, depth) (callers r node)))) \<Longrightarrow> P (node # q) depth"
  shows "P q depth"
  using assms by (induction r q depth rule: depth_loop.induct) blast+

text \<open>
  The interface of the reverse index to the search: which symbols call a target.
\<close>

locale caller_index =
  fixes r :: reverse_index and calls :: "(u32 \<times> u32) set"
  assumes callers_calls: "(s, t) \<in> calls \<longleftrightarrow> s \<in> fst ` set (callers r t)"
begin

definition depth_inv :: "u32 \<Rightarrow> u32 list \<Rightarrow> (u32, nat) btree_map \<Rightarrow> bool" where
  "depth_inv target q depth \<longleftrightarrow> bt_ok depth \<and> bt_get depth target = Some 0
     \<and> (\<forall>v k. bt_get depth v = Some k \<longrightarrow> k \<le> max_reverse_call_hops \<and> (v, target) \<in> calls ^^ k)
     \<and> (\<forall>v \<in> set q. bt_get depth v \<noteq> None)
     \<and> sorted (map (\<lambda>v. the (bt_get depth v)) q)
     \<and> (q \<noteq> [] \<longrightarrow> (\<forall>v k. bt_get depth v = Some k \<longrightarrow> k \<le> the (bt_get depth (hd q)) + 1))
     \<and> (\<forall>v k s. bt_get depth v = Some k \<longrightarrow> v \<notin> set q \<longrightarrow> k < max_reverse_call_hops \<longrightarrow> (s, v) \<in> calls
          \<longrightarrow> (\<exists>j \<le> k + 1. bt_get depth s = Some j))"

lemma depth_inv_init: "depth_inv target [target] (bt_insert target 0 [])"
  by (simp add: depth_inv_def bt_get_def bt_ok_def)

lemma depth_inv_limit:
  assumes "depth_inv target (node # q) depth" "bt_get depth node = Some hop" "max_reverse_call_hops \<le> hop"
  shows "depth_inv target q depth"
proof -
  have "k \<le> the (bt_get depth (hd q)) + 1" if "q \<noteq> []" "bt_get depth v = Some k" for v k
  proof -
    have "hop \<le> the (bt_get depth (hd q))" using assms(1,2) that(1) by (cases q) (auto simp: depth_inv_def)
    moreover have "k \<le> hop + 1" using assms(1,2) that(2) by (force simp: depth_inv_def)
    ultimately show ?thesis by simp
  qed
  moreover have "\<exists>j \<le> k + 1. bt_get depth s = Some j"
    if v: "bt_get depth v = Some k" "v \<notin> set q" "k < max_reverse_call_hops" "(s, v) \<in> calls" for v k s
  proof -
    have "v \<notin> set (node # q)" using v assms(2,3) by auto
    then show ?thesis using assms(1) v unfolding depth_inv_def by blast
  qed
  ultimately show ?thesis using assms(1) unfolding depth_inv_def by simp
qed

lemma depth_inv_visit:
  assumes inv: "depth_inv target (node # q) depth" and hop: "bt_get depth node = Some hop"
    and lt: "hop < max_reverse_call_hops"
  defines "st \<equiv> foldl (depth_visit hop) (q, depth) (callers r node)"
  shows "depth_inv target (fst st) (snd st)"
proof -
  define N where "N = fst ` set (callers r node) - fst ` set depth"
  obtain new where q: "fst st = q @ new" and new: "set new = N"
    and get: "\<And>v. bt_get (snd st) v = (if v \<in> N then Some (hop + 1) else bt_get depth v)"
    and ok: "bt_ok (snd st)"
    using depth_visit_spec [of hop q depth "callers r node"] inv unfolding st_def depth_inv_def N_def by blast
  have old: "bt_get (snd st) v = Some k" if "bt_get depth v = Some k" for v k
  proof -
    have "v \<notin> N" using that bt_get_None_iff [of depth v] by (auto simp: N_def)
    then show ?thesis using that get [of v] by simp
  qed
  have path: "(v, target) \<in> calls ^^ Suc hop" if "v \<in> N" for v
  proof -
    have "(v, node) \<in> calls" using that callers_calls unfolding N_def by blast
    moreover have "(node, target) \<in> calls ^^ hop" using inv hop by (auto simp: depth_inv_def)
    ultimately show ?thesis by (rule relpow_Suc_I2)
  qed
  have bound: "k \<le> hop + 1" if "bt_get (snd st) v = Some k" for v k
    using that inv hop get [of v] by (force simp: depth_inv_def split: if_splits)
  have qd: "map (\<lambda>v. the (bt_get (snd st) v)) q = map (\<lambda>v. the (bt_get depth v)) q"
    using inv old by (intro map_cong) (fastforce simp: depth_inv_def)+
  have nd: "map (\<lambda>v. the (bt_get (snd st) v)) new = map (\<lambda>v. hop + 1) new"
    using new get by (intro map_cong) auto
  have qle: "hop \<le> the (bt_get depth v)" "the (bt_get depth v) \<le> hop + 1" if "v \<in> set q" for v
    using inv hop that by (force simp: depth_inv_def)+
  have front: "hop \<le> the (bt_get (snd st) (hd (fst st)))" if "fst st \<noteq> []"
  proof (cases q)
    case Nil
    then show ?thesis using that q new get by (cases new) auto
  next
    case (Cons u us)
    then have "bt_get depth u \<noteq> None" using inv by (auto simp: depth_inv_def)
    then show ?thesis using Cons q qle [of u] old by auto
  qed
  have "sorted (map (\<lambda>v. the (bt_get depth v)) q @ map (\<lambda>v. hop + 1) new)"
    using inv qle by (auto simp: depth_inv_def sorted_append sorted_map)
  then have sorted: "sorted (map (\<lambda>v. the (bt_get (snd st) v)) (fst st))"
    unfolding q map_append qd nd .
  have reach: "\<exists>j \<le> k + 1. bt_get (snd st) s = Some j"
    if "bt_get (snd st) v = Some k" "v \<notin> set (fst st)" "k < max_reverse_call_hops" "(s, v) \<in> calls" for v k s
  proof (cases "v = node")
    case True
    then have "s \<in> fst ` set (callers r node)" using that(4) callers_calls by simp
    then obtain j where "bt_get (snd st) s = Some j"
      using get [of s] bt_get_None_iff [of depth s] by (cases "s \<in> N") (auto simp: N_def)
    moreover have "k = hop" using that(1) True old [OF hop] by simp
    ultimately show ?thesis using bound by blast
  next
    case False
    have "v \<notin> N" using that(2) q new by auto
    then have "bt_get depth v = Some k" using that(1) get [of v] by (simp only: if_False)
    moreover have "v \<notin> set (node # q)" using that(2) q False by simp
    ultimately show ?thesis using inv that(3,4) old unfolding depth_inv_def by blast
  qed
  have "k \<le> max_reverse_call_hops \<and> (v, target) \<in> calls ^^ k" if "bt_get (snd st) v = Some k" for v k
    using that get [of v] path [of v] inv lt by (cases "v \<in> N") (auto simp: depth_inv_def)
  moreover have "bt_get (snd st) v \<noteq> None" if "v \<in> set (fst st)" for v
    using that q new get [of v] inv by (auto simp: depth_inv_def)
  moreover have "k \<le> the (bt_get (snd st) (hd (fst st))) + 1" if "fst st \<noteq> []" "bt_get (snd st) v = Some k" for v k
    using bound [OF that(2)] front [OF that(1)] by simp
  ultimately show ?thesis
    unfolding depth_inv_def using ok sorted reach old inv by (auto simp: depth_inv_def)
qed

lemma depth_loop_inv:
  "depth_inv target q depth \<Longrightarrow> \<exists>out. depth_loop r q depth = Ok out \<and> depth_inv target [] out"
proof (induction q depth rule: depth_loop_induct [where r = r])
  case (step node q depth)
  then obtain hop where hop: "bt_get depth node = Some hop" by (auto simp: depth_inv_def)
  show ?case
  proof (cases "max_reverse_call_hops \<le> hop")
    case True
    then show ?thesis using step.IH(1) hop depth_inv_limit [OF step.prems hop] by simp
  next
    case False
    then show ?thesis using step.IH(2) hop depth_inv_visit [OF step.prems hop] by (simp add: Let_def)
  qed
qed simp

lemma depth_inv_done:
  assumes "depth_inv target [] out"
  shows "k \<le> max_reverse_call_hops \<Longrightarrow> (s, target) \<in> calls ^^ k \<Longrightarrow> \<exists>j \<le> k. bt_get out s = Some j"
proof (induction k arbitrary: s)
  case 0
  then show ?case using assms by (auto simp: depth_inv_def)
next
  case (Suc k)
  then obtain u where u: "(s, u) \<in> calls" "(u, target) \<in> calls ^^ k" by (meson relpow_Suc_D2)
  then obtain j where j: "j \<le> k" "bt_get out u = Some j" using Suc by auto
  then have "j < max_reverse_call_hops" using Suc.prems by simp
  then obtain i where "i \<le> j + 1" "bt_get out s = Some i"
    using assms u(1) j(2) unfolding depth_inv_def by force
  then show ?case using j(1) by force
qed

lemma depth_loop_exact:
  "\<exists>out. depth_loop r [target] (bt_insert target 0 []) = Ok out \<and> bt_ok out
    \<and> (\<forall>s k. bt_get out s = Some k \<longleftrightarrow>
         k \<le> max_reverse_call_hops \<and> (s, target) \<in> calls ^^ k \<and> (\<forall>j < k. (s, target) \<notin> calls ^^ j))"
proof -
  obtain out where out: "depth_loop r [target] (bt_insert target 0 []) = Ok out" "depth_inv target [] out"
    using depth_loop_inv [OF depth_inv_init] by blast
  have sound: "k \<le> max_reverse_call_hops \<and> (s, target) \<in> calls ^^ k" if "bt_get out s = Some k" for s k
    using out(2) that by (auto simp: depth_inv_def)
  have "(s, target) \<notin> calls ^^ j" if "bt_get out s = Some k" "j < k" for s k j
    using depth_inv_done [OF out(2), of j s] sound [OF that(1)] that by fastforce
  moreover have "bt_get out s = Some k"
    if "k \<le> max_reverse_call_hops" "(s, target) \<in> calls ^^ k" "\<forall>j < k. (s, target) \<notin> calls ^^ j" for s k
    using depth_inv_done [OF out(2) that(1,2)] sound that(3) by (metis le_neq_implies_less)
  ultimately have "bt_get out s = Some k \<longleftrightarrow>
      k \<le> max_reverse_call_hops \<and> (s, target) \<in> calls ^^ k \<and> (\<forall>j < k. (s, target) \<notin> calls ^^ j)" for s k
    using sound by blast
  moreover have "bt_ok out" using out(2) by (simp add: depth_inv_def)
  ultimately show ?thesis using out(1) by (intro exI [of _ out] conjI allI)
qed

end

definition caller_rel :: "reverse_index \<Rightarrow> (u32 \<times> u32) set" where
  "caller_rel r = {(s, t). s \<in> fst ` set (callers r t)}"

interpretation ci: caller_index r "caller_rel r" for r
  by unfold_locales (simp add: caller_rel_def)

section \<open>The call graph of a snapshot\<close>

definition call_edges :: "raw_edge list \<Rightarrow> nat \<Rightarrow> (u32 \<times> u32) set" where
  "call_edges es n = {(raw_src e, raw_dst e) | e. e \<in> set es \<and> raw_kind e = kind_calls \<and> unat (raw_dst e) < n}"

text \<open>A reader sees only the four edge sections.\<close>

lemma view_cong:
  assumes "v_offsets v = v_offsets w" "v_targets v = v_targets w" "v_kinds v = v_kinds w"
    "v_confidences v = v_confidences w"
  shows "reverse_build v k = reverse_build w k"
proof -
  have at: "edges_at v is = edges_at w is" for "is" by (induction "is") (simp_all add: assms)
  have rng: "csr_range v = csr_range w" unfolding csr_range_def assms by (rule refl)
  have "source_pairs keep v s = source_pairs keep w s" for keep s
    by (simp add: source_pairs_def csr_edges_def edge_base_def num_symbols_def at rng assms)
  then have "all_pairs keep v ss = all_pairs keep w ss" for keep ss by (induction ss) simp_all
  then show ?thesis
    by (simp add: reverse_build_def build_filtered_def num_symbols_def assms split: option.splits)
qed

lemma built_caller_rel:
  assumes "built_from (sort_key raw_src es) n b" "n < 2 ^ 32"
  shows "\<exists>r. reverse_build b (Some kind_calls) = Ok r \<and> caller_rel r = call_edges es n"
proof -
  obtain r where r: "build_filtered b (\<lambda>k. k = kind_calls) = Ok r"
    and c: "\<And>t. callers r t = map (\<lambda>(k, e). (raw_src e, of_nat k))
      (filter (\<lambda>(k, e). raw_kind e = kind_calls \<and> raw_dst e = t \<and> unat t < n) (enumerate 0 (sort_key raw_src es)))"
    using built_reverse [OF assms, of "\<lambda>k. k = kind_calls"] by blast
  have snd_set: "snd ` set (enumerate 0 (sort_key raw_src es)) = set es"
    by (metis map_snd_enumerate set_map set_sort)
  have "(s, t) \<in> caller_rel r \<longleftrightarrow> (s, t) \<in> call_edges es n" for s t
  proof -
    have "(s, t) \<in> caller_rel r \<longleftrightarrow>
        (\<exists>e \<in> snd ` set (enumerate 0 (sort_key raw_src es)). raw_kind e = kind_calls \<and> raw_dst e = t \<and> unat t < n \<and> raw_src e = s)"
      unfolding caller_rel_def c by force
    then show ?thesis unfolding snd_set call_edges_def mem_Collect_eq by blast
  qed
  then have "caller_rel r = call_edges es n" by auto
  then show ?thesis using r by (simp add: reverse_build_def)
qed

lemma bounded_least: "(\<exists>k. k \<le> (m :: nat) \<and> P k \<and> (\<forall>j < k. \<not> P j)) \<longleftrightarrow> (\<exists>k \<le> m. P k)"
proof
  assume "\<exists>k \<le> m. P k"
  then obtain k where k: "k \<le> m" "P k" by blast
  then have "(LEAST k. P k) \<le> m" by (meson Least_le le_trans)
  then show "\<exists>k. k \<le> m \<and> P k \<and> (\<forall>j < k. \<not> P j)"
    using LeastI [of P, OF k(2)] not_less_Least [of _ P] by blast
qed blast

lemma contract_nodes_set:
  "set (fst (contract_nodes_and_evidence depth v r t)) =
     {''node/'' @ name | i hop name. (i, hop) \<in> set depth \<and> symbol_name v i = Some name \<and> name \<noteq> []}"
  by (force simp: contract_nodes_and_evidence_def Let_def split: option.splits)

section \<open>Properties\<close>

definition sample_view :: "built_csr \<Rightarrow> snapshot_view" where
  "sample_view b = \<lparr>sv_names = [''a'', ''b'', ''c''], sv_lookup = (\<lambda>s. if s = ''b'' then Some 1 else None),
     sv_edges = edges_view.truncate b, sv_evidence = csr_evidence b, sv_blob_hashes = [], sv_coverage_bits = []\<rparr>"

definition sample_fenv :: footprint_env where
  "sample_fenv = \<lparr>fenv_target_symbol = (\<lambda>_. Some ''b''), fenv_round = (\<lambda>q. q)\<rparr>"

text \<open>
  C26: A contract footprint is the bounded call neighbourhood of its target. On a snapshot whose
  edge section was built from a list of edges, the footprint of a known target is always
  computed; its nodes are exactly the named symbols that reach the target in at most four call
  edges, sorted and without duplicates, and an unknown target is an error.
\<close>

theorem footprint_call_neighbourhood:
  assumes "length es < 2 ^ 32" "n < 2 ^ 32" "\<forall>e \<in> set es. unat (raw_src e) < n"
    and "csr_build es n = Ok b" "sv_edges v = edges_view.truncate b"
  shows "case fenv_target_symbol env intent of
      None \<Rightarrow> contract_footprint env v intent = Err StoreError
    | Some target \<Rightarrow>
        (case symbol_get v target of
           None \<Rightarrow> contract_footprint env v intent = Err StoreError
         | Some t \<Rightarrow> \<exists>fp. contract_footprint env v intent = Ok fp \<and> bs_ok (fp_contract_nodes fp)
             \<and> set (fp_contract_nodes fp) =
                 {''node/'' @ name | s k name. k \<le> 4 \<and> (s, t) \<in> call_edges es n ^^ k
                    \<and> symbol_name v s = Some name \<and> name \<noteq> []})"
proof -
  obtain b' where "csr_build es n = Ok b'" "built_from (sort_key raw_src es) n b'"
    using csr_build_Ok [OF assms(3,1)] assms(2) by auto
  then have "built_from (sort_key raw_src es) n b" using assms(4) by simp
  from built_caller_rel [OF this assms(2)]
  obtain r where r: "reverse_build b (Some kind_calls) = Ok r" and rel: "caller_rel r = call_edges es n" by blast
  have view: "reverse_build (sv_edges v) (Some kind_calls) = Ok r"
    using r view_cong [of "sv_edges v" b] by (simp add: assms(5) edges_view.truncate_def)
  have "\<exists>fp. contract_footprint env v intent = Ok fp \<and> bs_ok (fp_contract_nodes fp)
      \<and> set (fp_contract_nodes fp) = {''node/'' @ name | s k name. k \<le> 4 \<and> (s, t) \<in> call_edges es n ^^ k
            \<and> symbol_name v s = Some name \<and> name \<noteq> []}"
    if env: "fenv_target_symbol env intent = Some target" and get: "symbol_get v target = Some t" for target t
  proof -
    obtain depth where depth: "depth_loop r [t] (bt_insert t 0 []) = Ok depth" and ok: "bt_ok depth"
      and exact: "\<And>s k. bt_get depth s = Some k \<longleftrightarrow> k \<le> 4 \<and> (s, t) \<in> call_edges es n ^^ k
        \<and> (\<forall>j < k. (s, t) \<notin> call_edges es n ^^ j)"
      using ci.depth_loop_exact [of r t] unfolding rel max_reverse_call_hops_def by blast
    obtain nodes refs where cn: "contract_nodes_and_evidence depth v r t = (nodes, refs)" by force
    have mem: "(\<exists>hop. (s, hop) \<in> set depth) \<longleftrightarrow> (\<exists>k \<le> 4. (s, t) \<in> call_edges es n ^^ k)" for s
    proof -
      have "(\<exists>hop. (s, hop) \<in> set depth) \<longleftrightarrow> (\<exists>hop. bt_get depth s = Some hop)"
        using ok by (simp add: bt_get_eq_Some_iff)
      then show ?thesis unfolding exact by (simp only: bounded_least)
    qed
    have "set nodes = {''node/'' @ name | s k name. k \<le> 4 \<and> (s, t) \<in> call_edges es n ^^ k
            \<and> symbol_name v s = Some name \<and> name \<noteq> []}"
      using contract_nodes_set [of depth v r t] mem unfolding cn by auto blast+
    moreover have "bs_ok nodes" using cn by (auto simp: contract_nodes_and_evidence_def Let_def)
    ultimately show ?thesis
      using depth env get by (simp add: contract_footprint_def view reverse_call_depth_def cn)
  qed
  then show ?thesis by (auto simp: contract_footprint_def split: option.splits)
qed

theorem footprint_call_neighbourhood_witness:
  "length sample_csr < 2 ^ 32 \<and> list_all (\<lambda>e. unat (raw_src e) < 3) sample_csr
   \<and> (\<exists>b fp. csr_build sample_csr 3 = Ok b \<and> contract_footprint sample_fenv (sample_view b) ''change b'' = Ok fp
        \<and> ''node/c'' \<in> set (fp_contract_nodes fp))"
proof -
  have es: "length sample_csr < 2 ^ 32" "\<forall>e \<in> set sample_csr. unat (raw_src e) < 3"
    by (simp_all add: sample_csr_def csr_add_edge_def add_edge_with_evidence_def)
  then obtain b where b: "csr_build sample_csr 3 = Ok b" using csr_build_Ok [of sample_csr 3] by auto
  have call: "(2, 1) \<in> call_edges sample_csr 3 ^^ 1"
    by (simp add: call_edges_def sample_csr_def csr_add_edge_def add_edge_with_evidence_def)
  have names: "symbol_name (sample_view b) 2 = Some ''c''" "symbol_get (sample_view b) ''b'' = Some 1"
    by (simp_all add: symbol_name_def symbol_get_def sample_view_def)
  have env: "fenv_target_symbol sample_fenv ''change b'' = Some ''b''" "sv_edges (sample_view b) = edges_view.truncate b"
    by (simp_all add: sample_fenv_def sample_view_def)
  have "\<exists>fp. contract_footprint sample_fenv (sample_view b) ''change b'' = Ok fp
      \<and> set (fp_contract_nodes fp) = {''node/'' @ name | s k name. k \<le> 4 \<and> (s, 1) \<in> call_edges sample_csr 3 ^^ k
          \<and> symbol_name (sample_view b) s = Some name \<and> name \<noteq> []}"
    using footprint_call_neighbourhood [OF es(1) _ es(2) b env(2), of sample_fenv "''change b''"]
    unfolding env(1) option.case names(2) by auto
  then obtain fp where fp: "contract_footprint sample_fenv (sample_view b) ''change b'' = Ok fp"
    and nodes: "set (fp_contract_nodes fp) = {''node/'' @ name | s k name. k \<le> 4 \<and> (s, 1) \<in> call_edges sample_csr 3 ^^ k
          \<and> symbol_name (sample_view b) s = Some name \<and> name \<noteq> []}" by blast
  have "''node/'' @ ''c'' \<in> set (fp_contract_nodes fp)"
    unfolding nodes mem_Collect_eq using call names(1)
    by (intro exI [of _ 2] exI [of _ 1] exI [of _ "''c''"]) simp
  then show ?thesis using es b fp unfolding list_all_iff by (intro conjI exI [of _ b] exI [of _ fp]) simp_all
qed

end
