(* ===== verification/Reservation.thy ===== *)
theory Reservation
  imports Footprint
begin

text \<open>
  Intent reservations (crates/graphzero/graphzero-reserve/src): the append-only ledger with its
  last-write-wins tip (ledger.rs) and the declare / check / acquire / release service
  (service.rs, schema.rs) over the footprints of an intent.

  A declaration, check, acquisition or release first samples the snapshot's footprint and the
  clock, and only then takes the process mutex, the file lock and the writer lock. The sampled
  values are arguments here (\<open>v\<close> and \<open>now\<close>), so they may be older than the ledger; what follows
  under the locks is one atomic step on the ledger's records. A query samples the clock and reads
  the records without a lock, as they are at that moment. The write-ahead log is the list of the
  records. Time is the \<open>u64\<close> number of seconds the caller observed, and the addition of a
  lifetime wraps, as in a release build. SHA-256, the JSON text of the operations and the
  iteration order of a hash set are parameters.
\<close>

section \<open>Schema\<close>

datatype reservation_status = ResDeclared | ResActive | ResReleased | ResExpired

record intent_reservation =
  res_schema_version :: nat
  res_reservation_id :: string
  res_repo_id :: string
  res_agent_id :: string
  res_intent_ops :: "intent_operation list"
  res_footprint_ref :: string
  res_evidence_refs :: "string list"
  res_ttl_seconds :: u64
  res_status :: reservation_status
  res_created_at :: u64
  res_expires_at :: u64
  res_contract_nodes :: "string list"

record declare_response =
  dec_reservation_id :: string
  dec_footprint_ref :: string
  dec_status :: reservation_status
  dec_ttl_seconds :: u64
  dec_expires_at :: u64
  dec_evidence_refs :: "string list"

record conflict_graph_edge =
  ce_from_reservation_id :: string
  ce_to_agent_id :: string
  ce_node :: string
  ce_evidence_ref :: string

record reservation_check_response =
  chk_verdict :: string
  chk_overlap_nodes :: "string list"
  chk_evidence_refs :: "string list"
  chk_conflict_edges :: "conflict_graph_edge list"
  chk_coverage :: "f64 option"
  chk_certificate :: "(f64 \<times> f64) option"
  chk_blocking_reservation_ids :: "string list"

record reservation_query_response =
  q_active_count :: nat
  q_reservations :: "intent_reservation list"

definition reservation_schema_version :: nat where
  "reservation_schema_version = 1"

section \<open>The ledger\<close>

record reservation_ledger =
  rl_records :: "intent_reservation list"
  rl_tip :: "(string, intent_reservation) btree_map"

definition ledger_open :: "intent_reservation list \<Rightarrow> reservation_ledger" where
  "ledger_open records =
     \<lparr>rl_records = records,
      rl_tip = foldl (\<lambda>tip rec. bt_insert (res_reservation_id rec) rec tip) [] records\<rparr>"

definition ledger_append :: "intent_reservation \<Rightarrow> reservation_ledger \<Rightarrow> reservation_ledger" where
  "ledger_append rec l =
     \<lparr>rl_records = rl_records l @ [rec], rl_tip = bt_insert (res_reservation_id rec) rec (rl_tip l)\<rparr>"

definition materialize :: "u64 \<Rightarrow> intent_reservation \<Rightarrow> intent_reservation" where
  "materialize now r =
     (if (res_status r = ResActive \<or> res_status r = ResDeclared) \<and> res_expires_at r \<le> now
      then r\<lparr>res_status := ResExpired\<rparr> else r)"

definition materialized :: "reservation_ledger \<Rightarrow> u64 \<Rightarrow> intent_reservation list" where
  "materialized l now = map (materialize now) (bt_values (rl_tip l))"

definition active_reservations :: "reservation_ledger \<Rightarrow> string \<Rightarrow> u64 \<Rightarrow> intent_reservation list" where
  "active_reservations l repo now =
     filter (\<lambda>r. res_repo_id r = repo \<and> res_status r = ResActive) (materialized l now)"

definition blocking_for_conflict :: "reservation_ledger \<Rightarrow> string \<Rightarrow> u64 \<Rightarrow> intent_reservation list" where
  "blocking_for_conflict l repo now =
     filter (\<lambda>r. res_repo_id r = repo \<and> (res_status r = ResActive \<or> res_status r = ResDeclared))
       (materialized l now)"

section \<open>The service\<close>

record reserve_env =
  env_sha256 :: "bytes \<Rightarrow> bytes"
  env_ops_json :: "intent_operation list \<Rightarrow> bytes option"
  env_footprint :: footprint_env
  env_hash_iter :: "string list \<Rightarrow> string list"

record declare_request =
  req_agent_id :: string
  req_intent_ops :: "intent_operation list"
  req_ttl_seconds :: u64

fun trim_is_empty_steps :: "nat \<Rightarrow> string \<Rightarrow> bool" where
  "trim_is_empty_steps n [] = True"
| "trim_is_empty_steps 0 (c # cs) = False"
| "trim_is_empty_steps (Suc n) (c # cs) =
     (case List.find (\<lambda>w. starts_with w (c # cs)) whitespace_encodings of
        None \<Rightarrow> False
      | Some w \<Rightarrow> trim_is_empty_steps n (drop (length w) (c # cs)))"

definition trim_is_empty :: "string \<Rightarrow> bool" where
  "trim_is_empty s = trim_is_empty_steps (length s) s"

definition validate_declare_request :: "declare_request \<Rightarrow> (unit, reserve_error) result" where
  "validate_declare_request req =
     (if trim_is_empty (req_agent_id req) then Err Validation
      else if req_intent_ops req = [] then Err Validation else Ok ())"

definition reservation_id :: "string \<Rightarrow> bytes \<Rightarrow> string" where
  "reservation_id agent intent_hash =
     ''res_'' @ agent @ ''_'' @ fast_hex (take 8 intent_hash)"

definition intent_digest :: "reserve_env \<Rightarrow> string \<Rightarrow> intent_operation list \<Rightarrow> bytes" where
  "intent_digest env agent ops =
     env_sha256 env
       ((case env_ops_json env ops of Some payload \<Rightarrow> payload | None \<Rightarrow> []) @ map of_char agent)"

definition declare_response_of ::
  "string \<Rightarrow> footprint_snapshot \<Rightarrow> u64 \<Rightarrow> u64 \<Rightarrow> declare_response" where
  "declare_response_of rid fp ttl expires_at =
     \<lparr>dec_reservation_id = rid, dec_footprint_ref = fp_footprint_ref fp, dec_status = ResDeclared,
      dec_ttl_seconds = ttl, dec_expires_at = expires_at, dec_evidence_refs = fp_evidence_refs fp\<rparr>"

definition try_refresh_existing_declare ::
  "reservation_ledger \<Rightarrow> string \<Rightarrow> u64 \<Rightarrow> u64 \<Rightarrow> footprint_snapshot
    \<Rightarrow> (reservation_ledger \<times> declare_response) option" where
  "try_refresh_existing_declare l rid now ttl fp =
     (case List.find (\<lambda>r. res_reservation_id r = rid) (rl_records l) of
        None \<Rightarrow> None
      | Some existing \<Rightarrow>
          if res_status existing \<noteq> ResActive \<and> res_status existing \<noteq> ResDeclared then None
          else Some (ledger_append (existing\<lparr>res_expires_at := now + ttl, res_ttl_seconds := ttl\<rparr>) l,
                     declare_response_of rid fp ttl (now + ttl)))"

definition new_reservation ::
  "reservation_status \<Rightarrow> string \<Rightarrow> string \<Rightarrow> string \<Rightarrow> intent_operation list \<Rightarrow> footprint_snapshot
    \<Rightarrow> u64 \<Rightarrow> u64 \<Rightarrow> intent_reservation" where
  "new_reservation status rid repo agent ops fp now ttl =
     \<lparr>res_schema_version = reservation_schema_version, res_reservation_id = rid, res_repo_id = repo,
      res_agent_id = agent, res_intent_ops = ops, res_footprint_ref = fp_footprint_ref fp,
      res_evidence_refs = fp_evidence_refs fp, res_ttl_seconds = ttl, res_status = status,
      res_created_at = now, res_expires_at = now + ttl, res_contract_nodes = fp_contract_nodes fp\<rparr>"

abbreviation new_declared_reservation ::
  "string \<Rightarrow> string \<Rightarrow> string \<Rightarrow> intent_operation list \<Rightarrow> footprint_snapshot \<Rightarrow> u64 \<Rightarrow> u64 \<Rightarrow> intent_reservation" where
  "new_declared_reservation \<equiv> new_reservation ResDeclared"

definition evidence_ref_for_overlap :: "intent_reservation \<Rightarrow> footprint_snapshot \<Rightarrow> string \<Rightarrow> string" where
  "evidence_ref_for_overlap act fp node =
     (case res_evidence_refs act of
        e # _ \<Rightarrow> e
      | [] \<Rightarrow> (case fp_evidence_refs fp of e # _ \<Rightarrow> e | [] \<Rightarrow> node))"

text \<open>
  The overlap with one blocking reservation, and the accumulation over all of them. The
  intersection of two hash sets is enumerated in an unspecified order.
\<close>

definition overlap_with ::
  "reserve_env \<Rightarrow> footprint_snapshot \<Rightarrow> intent_reservation
    \<Rightarrow> string list \<times> conflict_graph_edge list \<times> string list
    \<Rightarrow> string list \<times> conflict_graph_edge list \<times> string list" where
  "overlap_with env fp act acc =
     foldl (\<lambda>(overlap, edges, blocking) node.
       (overlap @ [node],
        edges @ [\<lparr>ce_from_reservation_id = res_reservation_id act, ce_to_agent_id = res_agent_id act,
                  ce_node = node, ce_evidence_ref = evidence_ref_for_overlap act fp node\<rparr>],
        if res_reservation_id act \<in> set blocking then blocking
        else blocking @ [res_reservation_id act]))
       acc
       (env_hash_iter env
          (filter (\<lambda>n. n \<in> set (res_contract_nodes act)) (fp_contract_nodes fp)))"

definition conflict_overlap ::
  "reserve_env \<Rightarrow> reservation_ledger \<Rightarrow> string \<Rightarrow> u64 \<Rightarrow> string \<Rightarrow> footprint_snapshot
    \<Rightarrow> string list \<times> conflict_graph_edge list \<times> string list" where
  "conflict_overlap env l repo now agent fp =
     foldl (\<lambda>acc act. if res_agent_id act = agent then acc else overlap_with env fp act acc)
       ([], [], []) (blocking_for_conflict l repo now)"

definition should_return_unknown :: "footprint_snapshot \<Rightarrow> bool" where
  "should_return_unknown fp = (case fp_tier_a_percent fp of Finite q \<Rightarrow> q < 100 | NonFinite \<Rightarrow> False)"

definition f64_div100 :: "reserve_env \<Rightarrow> f64 \<Rightarrow> f64" where
  "f64_div100 env x = (case x of Finite q \<Rightarrow> Finite (fenv_round (env_footprint env) (q / 100)) | NonFinite \<Rightarrow> NonFinite)"

definition unknown_check_response :: "reserve_env \<Rightarrow> footprint_snapshot \<Rightarrow> reservation_check_response" where
  "unknown_check_response env fp =
     \<lparr>chk_verdict = ''unknown'', chk_overlap_nodes = [], chk_evidence_refs = fp_evidence_refs fp,
      chk_conflict_edges = [], chk_coverage = Some (f64_div100 env (fp_tier_a_percent fp)),
      chk_certificate = Some (fp_tier_a_percent fp, f64_div100 env (fp_tier_a_percent fp)),
      chk_blocking_reservation_ids = []\<rparr>"

definition conflict_check_response ::
  "string list \<Rightarrow> conflict_graph_edge list \<Rightarrow> string list \<Rightarrow> reservation_check_response" where
  "conflict_check_response overlap edges blocking =
     \<lparr>chk_verdict = ''conflict'', chk_overlap_nodes = overlap,
      chk_evidence_refs = map ce_evidence_ref edges, chk_conflict_edges = edges,
      chk_coverage = Some (Finite 1), chk_certificate = None, chk_blocking_reservation_ids = blocking\<rparr>"

definition clear_check_response :: "footprint_snapshot \<Rightarrow> reservation_check_response" where
  "clear_check_response fp =
     \<lparr>chk_verdict = ''clear'', chk_overlap_nodes = [], chk_evidence_refs = fp_evidence_refs fp,
      chk_conflict_edges = [], chk_coverage = Some (Finite 1), chk_certificate = None,
      chk_blocking_reservation_ids = []\<rparr>"

text \<open>
  An operation takes the records of the write-ahead log and returns them extended. \<open>repo\<close> is
  the canonical path of the repository.
\<close>

definition declare_reservation ::
  "reserve_env \<Rightarrow> snapshot_view \<Rightarrow> string \<Rightarrow> u64
    \<Rightarrow> declare_request \<Rightarrow> intent_reservation list
    \<Rightarrow> (intent_reservation list \<times> declare_response, reserve_error) result" where
  "declare_reservation env v repo now req wal =
     r_bind (validate_declare_request req) (\<lambda>_.
     r_bind (footprint_from_intent_ops (env_footprint env) v (req_intent_ops req)) (\<lambda>fp.
       let ttl = max (req_ttl_seconds req) 60;
           rid = reservation_id (req_agent_id req) (intent_digest env (req_agent_id req) (req_intent_ops req));
           l = ledger_open wal
       in case try_refresh_existing_declare l rid now ttl fp of
            Some (l', resp) \<Rightarrow> Ok (rl_records l', resp)
          | None \<Rightarrow>
              Ok (rl_records (ledger_append
                    (new_declared_reservation rid repo (req_agent_id req) (req_intent_ops req) fp now ttl) l),
                  declare_response_of rid fp ttl (now + ttl))))"

definition acquire_internal_locked ::
  "reserve_env \<Rightarrow> reservation_ledger \<Rightarrow> string \<Rightarrow> intent_operation list \<Rightarrow> footprint_snapshot \<Rightarrow> string
    \<Rightarrow> u64 \<Rightarrow> u64 \<Rightarrow> (reservation_ledger, reserve_error) result" where
  "acquire_internal_locked env l agent ops fp repo now ttl =
     (if fst (conflict_overlap env l repo now agent fp) \<noteq> [] then Err Validation
      else Ok (ledger_append
             (new_reservation ResActive (reservation_id agent (intent_digest env agent ops)) repo agent ops fp now ttl) l))"

definition check_with_ttl ::
  "reserve_env \<Rightarrow> snapshot_view \<Rightarrow> string \<Rightarrow> u64 \<Rightarrow> string
    \<Rightarrow> intent_operation list \<Rightarrow> bool \<Rightarrow> u64 option \<Rightarrow> intent_reservation list
    \<Rightarrow> (intent_reservation list \<times> reservation_check_response, reserve_error) result" where
  "check_with_ttl env v repo now agent ops acquire ttl_seconds wal =
     r_bind (footprint_from_intent_ops (env_footprint env) v ops) (\<lambda>fp.
       let l = ledger_open wal;
           (overlap, edges, blocking) = conflict_overlap env l repo now agent fp
       in if overlap \<noteq> [] then Ok (wal, conflict_check_response overlap edges blocking)
          else if should_return_unknown fp then Ok (wal, unknown_check_response env fp)
          else if acquire
          then r_map (\<lambda>l'. (rl_records l', clear_check_response fp))
                 (acquire_internal_locked env l agent ops fp repo now
                    (max (case ttl_seconds of Some t \<Rightarrow> t | None \<Rightarrow> 3600) 60))
          else Ok (wal, clear_check_response fp))"

definition check_reservation ::
  "reserve_env \<Rightarrow> snapshot_view \<Rightarrow> string \<Rightarrow> u64 \<Rightarrow> string
    \<Rightarrow> intent_operation list \<Rightarrow> bool \<Rightarrow> intent_reservation list
    \<Rightarrow> (intent_reservation list \<times> reservation_check_response, reserve_error) result" where
  "check_reservation env v repo now agent ops acquire wal =
     check_with_ttl env v repo now agent ops acquire None wal"

definition acquire_reservation ::
  "reserve_env \<Rightarrow> snapshot_view \<Rightarrow> string \<Rightarrow> u64 \<Rightarrow> string
    \<Rightarrow> intent_operation list \<Rightarrow> u64 option \<Rightarrow> intent_reservation list
    \<Rightarrow> (intent_reservation list \<times> reservation_check_response, reserve_error) result" where
  "acquire_reservation env v repo now agent ops ttl_seconds wal =
     check_with_ttl env v repo now agent ops True ttl_seconds wal"

definition release_reservation ::
  "u64 \<Rightarrow> string \<Rightarrow> string \<Rightarrow> intent_reservation list \<Rightarrow> (intent_reservation list, reserve_error) result" where
  "release_reservation now agent rid wal =
     (let l = ledger_open wal in
      case List.find (\<lambda>r. res_reservation_id r = rid \<and> res_agent_id r = agent) (materialized l now) of
        None \<Rightarrow> Err (ResNotFound rid)
      | Some rec \<Rightarrow> Ok (rl_records (ledger_append (rec\<lparr>res_status := ResReleased\<rparr>) l)))"

definition list_active_reservations :: "string \<Rightarrow> u64 \<Rightarrow> intent_reservation list \<Rightarrow> reservation_query_response" where
  "list_active_reservations repo now wal =
     (let act = active_reservations (ledger_open wal) repo now
      in \<lparr>q_active_count = length act, q_reservations = act\<rparr>)"

end
