(* ===== verification/Reservation_Correct.thy ===== *)
theory Reservation_Correct
  imports Reservation
begin

text \<open>
  Correctness of the reservation service: the tip of the ledger is the last record of each
  reservation, a check reports exactly the overlaps with live reservations of other agents,
  acquired reservations of different agents never overlap as long as an agent declares before
  it acquires, and a reservation lives exactly as long as its wrapped expiry allows.
\<close>

section \<open>The tip of an append-only log\<close>

locale last_write_log =
  fixes records :: "'l \<Rightarrow> 'r list" and tip :: "'l \<Rightarrow> 'k \<Rightarrow> 'r option"
    and log_append :: "'r \<Rightarrow> 'l \<Rightarrow> 'l" and key :: "'r \<Rightarrow> 'k"
  assumes records_append: "records (log_append r l) = records l @ [r]"
    and tip_append: "tip (log_append r l) = (tip l)(key r \<mapsto> r)"
begin

definition log_ok :: "'l \<Rightarrow> bool" where
  "log_ok l \<longleftrightarrow> tip l = map_of (rev (map (\<lambda>r. (key r, r)) (records l)))"

lemma log_ok_append: "log_ok l \<Longrightarrow> log_ok (log_append r l)"
  by (simp add: log_ok_def records_append tip_append)

lemma tip_key: "log_ok l \<Longrightarrow> tip l k = Some r \<Longrightarrow> key r = k \<and> r \<in> set (records l)"
  by (auto simp: log_ok_def dest!: map_of_SomeD)

end

interpretation rlog: last_write_log rl_records "\<lambda>l. bt_get (rl_tip l)" ledger_append res_reservation_id
  by unfold_locales (auto simp: ledger_append_def bt_get_insert fun_eq_iff)

lemma ledger_open_snoc: "ledger_open (wal @ [rec]) = ledger_append rec (ledger_open wal)"
  by (simp add: ledger_open_def ledger_append_def)

lemma rl_records_open [simp]: "rl_records (ledger_open wal) = wal"
  by (simp add: ledger_open_def)

lemma rl_records_append [simp]: "rl_records (ledger_append rec l) = rl_records l @ [rec]"
  by (simp add: ledger_append_def)

lemma open_ok: "rlog.log_ok (ledger_open wal) \<and> bt_ok (rl_tip (ledger_open wal))"
proof (induction wal rule: rev_induct)
  case Nil
  then show ?case by (simp add: rlog.log_ok_def ledger_open_def fun_eq_iff)
next
  case (snoc r wal)
  then have "rlog.log_ok (ledger_append r (ledger_open wal))" by (intro rlog.log_ok_append) simp
  moreover have "bt_ok (rl_tip (ledger_append r (ledger_open wal)))" using snoc by (simp add: ledger_append_def)
  ultimately show ?case unfolding ledger_open_snoc ..
qed

text \<open>The last record of every reservation.\<close>

definition latest :: "intent_reservation list \<Rightarrow> string \<Rightarrow> intent_reservation option" where
  "latest wal = bt_get (rl_tip (ledger_open wal))"

lemma latest_snoc: "latest (wal @ [rec]) = (latest wal)(res_reservation_id rec \<mapsto> rec)"
  by (simp add: latest_def ledger_open_snoc rlog.tip_append)

lemma latest_key: "latest wal rid = Some r \<Longrightarrow> res_reservation_id r = rid \<and> r \<in> set wal"
  using rlog.tip_key [of "ledger_open wal" rid r] open_ok by (simp add: latest_def)

lemma set_materialized:
  "set (materialized (ledger_open wal) now) = {materialize now r | rid r. latest wal rid = Some r}"
proof -
  have "set (bt_values (rl_tip (ledger_open wal))) = {r. \<exists>rid. latest wal rid = Some r}"
    using open_ok [of wal] by (force simp: latest_def bt_values_def bt_get_eq_Some_iff)
  then show ?thesis by (auto simp: materialized_def)
qed

lemma materialize_simps [simp]:
  "res_reservation_id (materialize now r) = res_reservation_id r"
  "res_repo_id (materialize now r) = res_repo_id r"
  "res_agent_id (materialize now r) = res_agent_id r"
  "res_contract_nodes (materialize now r) = res_contract_nodes r"
  "res_evidence_refs (materialize now r) = res_evidence_refs r"
  by (simp_all add: materialize_def)

lemma materialize_Active:
  "res_status (materialize now r) = ResActive \<longleftrightarrow> res_status r = ResActive \<and> now < res_expires_at r"
  by (auto simp: materialize_def)

lemma materialize_Declared:
  "res_status (materialize now r) = ResDeclared \<longleftrightarrow> res_status r = ResDeclared \<and> now < res_expires_at r"
  by (auto simp: materialize_def)

section \<open>Live reservations and overlap\<close>

text \<open>A reservation that is declared or active and has not expired.\<close>

definition live :: "u64 \<Rightarrow> intent_reservation \<Rightarrow> bool" where
  "live now r = ((res_status r = ResActive \<or> res_status r = ResDeclared) \<and> now < res_expires_at r)"

definition held :: "u64 \<Rightarrow> intent_reservation \<Rightarrow> bool" where
  "held now r = (res_status r = ResActive \<and> now < res_expires_at r)"

lemma filter_image2: "(\<And>r. Q (f r) = S r) \<Longrightarrow> {x \<in> {f r | k r. P k r}. Q x} = {f r | k r. P k r \<and> S r}"
  by blast

lemma set_blocking:
  "set (blocking_for_conflict (ledger_open wal) repo now) =
     {materialize now r | rid r. latest wal rid = Some r \<and> live now r \<and> res_repo_id r = repo}"
  unfolding blocking_for_conflict_def set_filter set_materialized
  by (rule filter_image2) (auto simp: live_def materialize_Active materialize_Declared)

lemma set_active:
  "set (active_reservations (ledger_open wal) repo now) =
     {materialize now r | rid r. latest wal rid = Some r \<and> held now r \<and> res_repo_id r = repo}"
  unfolding active_reservations_def set_filter set_materialized
  by (rule filter_image2) (auto simp: held_def materialize_Active)

text \<open>The iteration of a hash set visits its elements, in some order.\<close>

definition hash_iter_ok :: "reserve_env \<Rightarrow> bool" where
  "hash_iter_ok env \<longleftrightarrow> (\<forall>xs. set (env_hash_iter env xs) = set xs)"

lemma overlap_with_fst:
  "set (fst (overlap_with env fp act acc)) = set (fst acc) \<union>
     set (env_hash_iter env (filter (\<lambda>n. n \<in> set (res_contract_nodes act)) (fp_contract_nodes fp)))"
proof -
  have "set (fst (foldl (\<lambda>(overlap, edges, blocking) node. (overlap @ [node], f edges node, g blocking)) acc ns))
      = set (fst acc) \<union> set ns" for f g and ns :: "string list"
    by (induction ns arbitrary: acc) (auto split: prod.splits)
  then show ?thesis unfolding overlap_with_def .
qed

lemma conflict_overlap_fst:
  assumes "hash_iter_ok env"
  shows "set (fst (conflict_overlap env l repo now agent fp)) =
    {n \<in> set (fp_contract_nodes fp). \<exists>act \<in> set (blocking_for_conflict l repo now).
       res_agent_id act \<noteq> agent \<and> n \<in> set (res_contract_nodes act)}"
proof -
  have "set (fst (foldl (\<lambda>acc act. if res_agent_id act = agent then acc else overlap_with env fp act acc) acc acts))
      = set (fst acc) \<union> {n \<in> set (fp_contract_nodes fp). \<exists>act \<in> set acts.
          res_agent_id act \<noteq> agent \<and> n \<in> set (res_contract_nodes act)}" for acc acts
    using assms by (induction acts arbitrary: acc) (auto simp: overlap_with_fst hash_iter_ok_def)
  then show ?thesis by (simp add: conflict_overlap_def)
qed

lemma overlap_with_blocking:
  "set (snd (snd (overlap_with env fp act acc))) = set (snd (snd acc)) \<union>
     (if env_hash_iter env (filter (\<lambda>n. n \<in> set (res_contract_nodes act)) (fp_contract_nodes fp)) = [] then {}
      else {res_reservation_id act})"
proof -
  have "set (snd (snd (foldl (\<lambda>(overlap, edges, blocking) node. (f overlap node, g edges node,
        if rid \<in> set blocking then blocking else blocking @ [rid])) acc ns)))
      = set (snd (snd acc)) \<union> (if ns = [] then {} else {rid})" for f g rid and ns :: "string list"
    by (induction ns arbitrary: acc) (auto split: prod.splits)
  then show ?thesis unfolding overlap_with_def .
qed

lemma conflict_overlap_blocking:
  assumes "hash_iter_ok env"
  shows "set (snd (snd (conflict_overlap env l repo now agent fp))) =
    {res_reservation_id act | act. act \<in> set (blocking_for_conflict l repo now) \<and> res_agent_id act \<noteq> agent
       \<and> set (fp_contract_nodes fp) \<inter> set (res_contract_nodes act) \<noteq> {}}"
proof -
  have none: "env_hash_iter env (filter (\<lambda>n. n \<in> set ns) xs) = [] \<longleftrightarrow> set xs \<inter> set ns = {}" for xs ns
  proof -
    have "env_hash_iter env ys = [] \<longleftrightarrow> ys = []" for ys
      using assms unfolding hash_iter_ok_def by (metis set_empty)
    then show ?thesis by (auto simp: filter_empty_conv)
  qed
  have "set (snd (snd (foldl (\<lambda>acc act. if res_agent_id act = agent then acc else overlap_with env fp act acc) acc acts)))
      = set (snd (snd acc)) \<union> {res_reservation_id act | act. act \<in> set acts \<and> res_agent_id act \<noteq> agent
          \<and> set (fp_contract_nodes fp) \<inter> set (res_contract_nodes act) \<noteq> {}}" for acc acts
    by (induction acts arbitrary: acc) (auto simp: overlap_with_blocking none)
  then show ?thesis by (simp add: conflict_overlap_def)
qed

text \<open>The nodes of a footprint that a live reservation of another agent holds.\<close>

definition contested :: "intent_reservation list \<Rightarrow> string \<Rightarrow> u64 \<Rightarrow> string \<Rightarrow> footprint_snapshot \<Rightarrow> string set" where
  "contested wal repo now agent fp = {n \<in> set (fp_contract_nodes fp). \<exists>rid r. latest wal rid = Some r
     \<and> live now r \<and> res_repo_id r = repo \<and> res_agent_id r \<noteq> agent \<and> n \<in> set (res_contract_nodes r)}"

lemma overlap_contested:
  "hash_iter_ok env \<Longrightarrow>
   set (fst (conflict_overlap env (ledger_open wal) repo now agent fp)) = contested wal repo now agent fp"
  by (force simp: conflict_overlap_fst set_blocking contested_def)

text \<open>The reservations that hold one of them.\<close>

definition contenders :: "intent_reservation list \<Rightarrow> string \<Rightarrow> u64 \<Rightarrow> string \<Rightarrow> footprint_snapshot \<Rightarrow> string set" where
  "contenders wal repo now agent fp = {rid. \<exists>r. latest wal rid = Some r \<and> live now r \<and> res_repo_id r = repo
     \<and> res_agent_id r \<noteq> agent \<and> set (fp_contract_nodes fp) \<inter> set (res_contract_nodes r) \<noteq> {}}"

lemma blocking_contenders:
  assumes "hash_iter_ok env"
  shows "set (snd (snd (conflict_overlap env (ledger_open wal) repo now agent fp))) = contenders wal repo now agent fp"
  unfolding conflict_overlap_blocking [OF assms] set_blocking contenders_def
proof (rule set_eqI, rule iffI, goal_cases)
  case (1 rid)
  then obtain rid' r where r: "latest wal rid' = Some r" "live now r" "res_repo_id r = repo" "res_agent_id r \<noteq> agent"
    "set (fp_contract_nodes fp) \<inter> set (res_contract_nodes r) \<noteq> {}" "rid = res_reservation_id r"
    unfolding mem_Collect_eq by (metis materialize_simps)
  then have "rid' = rid" using latest_key by blast
  then show ?case using r by blast
next
  case (2 rid)
  then obtain r where r: "latest wal rid = Some r" "live now r" "res_repo_id r = repo" "res_agent_id r \<noteq> agent"
    "set (fp_contract_nodes fp) \<inter> set (res_contract_nodes r) \<noteq> {}" by blast
  then have "rid = res_reservation_id (materialize now r)" using latest_key [of wal rid r] by simp
  then show ?case
    unfolding mem_Collect_eq by (intro exI [of _ "materialize now r"] conjI exI [of _ rid] exI [of _ r]) (use r in simp_all)
qed

section \<open>Exclusion\<close>

definition exclusive :: "intent_reservation list \<Rightarrow> u64 \<Rightarrow> bool" where
  "exclusive wal now \<longleftrightarrow> (\<forall>rid r rid' r'. latest wal rid = Some r \<longrightarrow> latest wal rid' = Some r' \<longrightarrow>
     held now r \<longrightarrow> held now r' \<longrightarrow> res_repo_id r = res_repo_id r' \<longrightarrow> res_agent_id r \<noteq> res_agent_id r' \<longrightarrow>
     set (res_contract_nodes r) \<inter> set (res_contract_nodes r') = {})"

lemma exclusiveD:
  "exclusive wal now \<Longrightarrow> latest wal rid = Some r \<Longrightarrow> latest wal rid' = Some r' \<Longrightarrow> held now r \<Longrightarrow> held now r' \<Longrightarrow>
   res_repo_id r = res_repo_id r' \<Longrightarrow> res_agent_id r \<noteq> res_agent_id r' \<Longrightarrow>
   set (res_contract_nodes r) \<inter> set (res_contract_nodes r') = {}"
  unfolding exclusive_def by blast

lemma held_mono: "now \<le> later \<Longrightarrow> held later r \<Longrightarrow> held now r"
  by (auto simp: held_def)

lemma exclusive_mono: "exclusive wal now \<Longrightarrow> now \<le> later \<Longrightarrow> exclusive wal later"
  unfolding exclusive_def using held_mono by metis

lemma exclusive_snoc:
  assumes ex: "exclusive wal now"
    and new: "\<And>rid r. latest wal rid = Some r \<Longrightarrow> held now rec \<Longrightarrow> held now r \<Longrightarrow> res_repo_id r = res_repo_id rec \<Longrightarrow>
      res_agent_id r \<noteq> res_agent_id rec \<Longrightarrow> set (res_contract_nodes rec) \<inter> set (res_contract_nodes r) = {}"
  shows "exclusive (wal @ [rec]) now"
  unfolding exclusive_def latest_snoc
proof (intro allI impI, goal_cases)
  case (1 rid r rid' r')
  then show ?case
    using exclusiveD [OF ex, of rid r rid' r'] new [of rid r] new [of rid' r']
    by (auto split: if_splits)
qed

lemma exclusive_not_held: "exclusive wal now \<Longrightarrow> \<not> held now rec \<Longrightarrow> exclusive (wal @ [rec]) now"
  by (rule exclusive_snoc) auto

lemma exclusive_Nil: "exclusive [] now"
  by (simp add: exclusive_def latest_def ledger_open_def)

section \<open>The operations\<close>

abbreviation intent_rid :: "reserve_env \<Rightarrow> string \<Rightarrow> intent_operation list \<Rightarrow> string" where
  "intent_rid env agent ops \<equiv> reservation_id agent (intent_digest env agent ops)"

abbreviation ops_footprint ::
  "reserve_env \<Rightarrow> snapshot_view \<Rightarrow> intent_operation list \<Rightarrow> (footprint_snapshot, reserve_error) result" where
  "ops_footprint env v ops \<equiv> footprint_from_intent_ops (env_footprint env) v ops"

definition acquire_ttl :: "u64 option \<Rightarrow> u64" where
  "acquire_ttl ttl = max (case ttl of Some t \<Rightarrow> t | None \<Rightarrow> 3600) 60"

lemma check_with_ttl_cases:
  assumes "hash_iter_ok env" "ops_footprint env v ops = Ok fp"
  shows "\<exists>edges blocking overlap. set overlap = contested wal repo now agent fp
    \<and> set blocking = contenders wal repo now agent fp
    \<and> check_with_ttl env v repo now agent ops acquire ttl wal =
      Ok (if overlap \<noteq> [] then (wal, conflict_check_response overlap edges blocking)
          else if should_return_unknown fp then (wal, unknown_check_response env fp)
          else (if acquire
                then wal @ [new_reservation ResActive (intent_rid env agent ops) repo agent ops fp now (acquire_ttl ttl)]
                else wal, clear_check_response fp))"
proof -
  obtain overlap edges blocking where c: "conflict_overlap env (ledger_open wal) repo now agent fp = (overlap, edges, blocking)"
    by (metis prod_cases3)
  moreover have "set overlap = contested wal repo now agent fp"
    using overlap_contested [OF assms(1), of wal repo now agent fp] c by simp
  moreover have "set blocking = contenders wal repo now agent fp"
    using blocking_contenders [OF assms(1), of wal repo now agent fp] c by simp
  ultimately show ?thesis
    by (intro exI [of _ edges] exI [of _ blocking] exI [of _ overlap])
      (simp add: check_with_ttl_def acquire_internal_locked_def assms(2) acquire_ttl_def)
qed

lemma check_with_ttl_wal:
  assumes "hash_iter_ok env" "check_with_ttl env v repo now agent ops acquire ttl wal = Ok (wal', resp)"
  obtains "wal' = wal" | fp where "ops_footprint env v ops = Ok fp" "acquire" "contested wal repo now agent fp = {}"
    "wal' = wal @ [new_reservation ResActive (intent_rid env agent ops) repo agent ops fp now (acquire_ttl ttl)]"
proof (cases "ops_footprint env v ops")
  case (Ok fp)
  obtain edges blocking overlap where "set overlap = contested wal repo now agent fp"
    "check_with_ttl env v repo now agent ops acquire ttl wal =
      Ok (if overlap \<noteq> [] then (wal, conflict_check_response overlap edges blocking)
          else if should_return_unknown fp then (wal, unknown_check_response env fp)
          else (if acquire
                then wal @ [new_reservation ResActive (intent_rid env agent ops) repo agent ops fp now (acquire_ttl ttl)]
                else wal, clear_check_response fp))"
    using check_with_ttl_cases [OF assms(1) Ok, of wal repo now agent acquire ttl] by metis
  then show ?thesis using assms(2) Ok that by (auto split: if_splits)
qed (use assms(2) in \<open>simp_all add: check_with_ttl_def\<close>)

lemma declare_wal:
  assumes "declare_reservation env v repo now req wal = Ok (wal', resp)"
  obtains rec where "wal' = wal @ [rec]" "res_reservation_id rec = intent_rid env (req_agent_id req) (req_intent_ops req)"
    "(\<exists>r. List.find (\<lambda>r. res_reservation_id r = intent_rid env (req_agent_id req) (req_intent_ops req)) wal = Some r
       \<and> res_status rec = res_status r) \<or> res_status rec = ResDeclared"
proof (cases "List.find (\<lambda>r. res_reservation_id r = intent_rid env (req_agent_id req) (req_intent_ops req)) wal")
  case None
  then show ?thesis
    using assms by (auto simp: declare_reservation_def r_bind_eq_Ok Let_def try_refresh_existing_declare_def
        new_reservation_def intro: that)
next
  case (Some r)
  then have "res_reservation_id r = intent_rid env (req_agent_id req) (req_intent_ops req)"
    by (auto simp: find_Some_iff)
  then show ?thesis
    using assms Some that
    by (auto simp: declare_reservation_def r_bind_eq_Ok Let_def try_refresh_existing_declare_def
        new_reservation_def split: if_splits)
qed

lemma release_wal:
  assumes "release_reservation now agent rid wal = Ok wal'"
  obtains r where "latest wal rid = Some r" "wal' = wal @ [(materialize now r)\<lparr>res_status := ResReleased\<rparr>]"
proof -
  obtain rec where rec: "List.find (\<lambda>r. res_reservation_id r = rid \<and> res_agent_id r = agent) (materialized (ledger_open wal) now) = Some rec"
    "wal' = wal @ [rec\<lparr>res_status := ResReleased\<rparr>]"
    using assms by (auto simp: release_reservation_def Let_def split: option.splits)
  then have "rec \<in> set (materialized (ledger_open wal) now)" "res_reservation_id rec = rid"
    by (auto simp: find_Some_iff)
  then obtain rid' r where "latest wal rid' = Some r" "rec = materialize now r" "res_reservation_id r = rid"
    by (auto simp: set_materialized)
  then show ?thesis using that latest_key rec(2) by auto
qed

section \<open>Runs\<close>

datatype res_call =
  CallDeclare declare_request
| CallCheck string "intent_operation list" bool "u64 option"
| CallRelease string string

record res_event =
  ev_now :: u64
  ev_repo :: string
  ev_view :: snapshot_view
  ev_call :: res_call

definition res_step :: "reserve_env \<Rightarrow> res_event \<Rightarrow> intent_reservation list \<Rightarrow> intent_reservation list" where
  "res_step env ev wal =
     (case ev_call ev of
        CallDeclare req \<Rightarrow>
          (case declare_reservation env (ev_view ev) (ev_repo ev) (ev_now ev) req wal of
             Ok (wal', _) \<Rightarrow> wal' | _ \<Rightarrow> wal)
      | CallCheck agent ops acquire ttl \<Rightarrow>
          (case check_with_ttl env (ev_view ev) (ev_repo ev) (ev_now ev) agent ops acquire ttl wal of
             Ok (wal', _) \<Rightarrow> wal' | _ \<Rightarrow> wal)
      | CallRelease agent rid \<Rightarrow>
          (case release_reservation (ev_now ev) agent rid wal of Ok wal' \<Rightarrow> wal' | _ \<Rightarrow> wal))"

text \<open>An agent acquires only an intent it has declared before.\<close>

definition declared_before :: "reserve_env \<Rightarrow> res_event \<Rightarrow> intent_reservation list \<Rightarrow> bool" where
  "declared_before env ev wal =
     (case ev_call ev of
        CallCheck agent ops acquire ttl \<Rightarrow>
          acquire \<longrightarrow> list_ex (\<lambda>r. res_reservation_id r = intent_rid env agent ops) wal
      | _ \<Rightarrow> True)"

primrec res_run :: "reserve_env \<Rightarrow> res_event list \<Rightarrow> intent_reservation list \<Rightarrow> intent_reservation list" where
  "res_run env [] wal = wal"
| "res_run env (ev # evs) wal = res_run env evs (res_step env ev wal)"

text \<open>The clock never goes back and every acquisition is declared; \<open>t\<close> is the time of the last call.\<close>

primrec run_disciplined :: "reserve_env \<Rightarrow> u64 \<Rightarrow> res_event list \<Rightarrow> u64 \<Rightarrow> intent_reservation list \<Rightarrow> bool" where
  "run_disciplined env now [] t wal = (now \<le> t)"
| "run_disciplined env now (ev # evs) t wal =
     (now \<le> ev_now ev \<and> declared_before env ev wal \<and> run_disciplined env (ev_now ev) evs t (res_step env ev wal))"

definition declared_first :: "intent_reservation list \<Rightarrow> bool" where
  "declared_first wal \<longleftrightarrow> (\<forall>rid r. List.find (\<lambda>r. res_reservation_id r = rid) wal = Some r \<longrightarrow> res_status r = ResDeclared)"

lemma find_snoc:
  "List.find P (xs @ [y]) = (case List.find P xs of Some z \<Rightarrow> Some z | None \<Rightarrow> if P y then Some y else None)"
  by (induction xs) auto

lemma declared_first_snoc:
  assumes "declared_first wal" "res_status rec = ResDeclared \<or> (\<exists>r \<in> set wal. res_reservation_id r = res_reservation_id rec)"
  shows "declared_first (wal @ [rec])"
  using assms
  by (auto simp: declared_first_def find_snoc find_None_iff split: option.splits if_splits)

lemma live_contested:
  assumes "contested wal repo now agent fp = {}" "latest wal rid = Some r" "held now r" "res_repo_id r = repo"
    "res_agent_id r \<noteq> agent"
  shows "set (fp_contract_nodes fp) \<inter> set (res_contract_nodes r) = {}"
proof -
  have "live now r" using assms(3) by (simp add: live_def held_def)
  then show ?thesis using assms unfolding contested_def by blast
qed

lemma res_step_inv:
  assumes hash: "hash_iter_ok env" and decl: "declared_before env ev wal"
    and df: "declared_first wal" and ex: "exclusive wal (ev_now ev)"
  shows "declared_first (res_step env ev wal) \<and> exclusive (res_step env ev wal) (ev_now ev)"
proof (cases "res_step env ev wal = wal")
  case False
  show ?thesis
  proof (cases "ev_call ev")
    case (CallDeclare req)
    then obtain wal' resp where w: "declare_reservation env (ev_view ev) (ev_repo ev) (ev_now ev) req wal = Ok (wal', resp)"
      and st: "res_step env ev wal = wal'"
      using False by (auto simp: res_step_def split: result.splits)
    from w obtain rec where rec: "wal' = wal @ [rec]" "res_status rec = ResDeclared"
      by (rule declare_wal) (use df in \<open>auto simp: declared_first_def\<close>)
    then show ?thesis using st declared_first_snoc df exclusive_not_held ex by (simp add: held_def)
  next
    case (CallCheck agent ops acquire ttl)
    then obtain wal' resp where w: "check_with_ttl env (ev_view ev) (ev_repo ev) (ev_now ev) agent ops acquire ttl wal = Ok (wal', resp)"
      and st: "res_step env ev wal = wal'"
      using False by (auto simp: res_step_def split: result.splits)
    from hash w obtain fp where acq: "acquire" and free: "contested wal (ev_repo ev) (ev_now ev) agent fp = {}"
      and wal': "wal' = wal @ [new_reservation ResActive (intent_rid env agent ops) (ev_repo ev) agent ops fp (ev_now ev) (acquire_ttl ttl)]"
      by (rule check_with_ttl_wal) (use False st in auto)
    have "\<exists>r \<in> set wal. res_reservation_id r = intent_rid env agent ops"
      using decl CallCheck acq by (auto simp: declared_before_def list_ex_iff)
    then have "declared_first wal'" unfolding wal' using df by (intro declared_first_snoc) (auto simp: new_reservation_def)
    moreover have "exclusive wal' (ev_now ev)"
      unfolding wal' using live_contested [OF free] by (intro exclusive_snoc [OF ex]) (auto simp: new_reservation_def)
    ultimately show ?thesis using st by simp
  next
    case (CallRelease agent rid)
    then obtain wal' where w: "release_reservation (ev_now ev) agent rid wal = Ok wal'" and st: "res_step env ev wal = wal'"
      using False by (auto simp: res_step_def split: result.splits)
    from w obtain r where r: "latest wal rid = Some r" and wal': "wal' = wal @ [(materialize (ev_now ev) r)\<lparr>res_status := ResReleased\<rparr>]"
      by (rule release_wal)
    have "declared_first wal'"
      unfolding wal' using df latest_key [OF r] by (intro declared_first_snoc) auto
    moreover have "exclusive wal' (ev_now ev)"
      unfolding wal' by (intro exclusive_not_held [OF ex]) (simp add: held_def)
    ultimately show ?thesis using st by simp
  qed
qed (use df ex in simp)

lemma res_run_inv:
  "hash_iter_ok env \<Longrightarrow> declared_first wal \<Longrightarrow> exclusive wal now \<Longrightarrow> run_disciplined env now evs t wal \<Longrightarrow>
   exclusive (res_run env evs wal) t"
proof (induction evs arbitrary: wal now)
  case (Cons ev evs)
  then have "exclusive wal (ev_now ev)" using exclusive_mono by auto
  then have "declared_first (res_step env ev wal) \<and> exclusive (res_step env ev wal) (ev_now ev)"
    using Cons.prems res_step_inv [of env ev wal] by simp
  then show ?case using Cons.IH [of "res_step env ev wal" "ev_now ev"] Cons.prems by simp
qed (simp add: exclusive_mono)

section \<open>Properties\<close>

definition sample_snapshot :: snapshot_view where
  "sample_snapshot = \<lparr>sv_names = [''s'', ''t''], sv_lookup = (\<lambda>n. if n = ''s'' then Some 0 else Some 1),
     sv_edges = \<lparr>v_offsets = [0, 0, 0], v_targets = [], v_kinds = [], v_confidences = []\<rparr>,
     sv_evidence = [], sv_blob_hashes = [replicate 32 0], sv_coverage_bits = [1]\<rparr>"

definition sample_renv :: reserve_env where
  "sample_renv = \<lparr>env_sha256 = (\<lambda>bs. bs @ replicate 32 0),
     env_ops_json = (\<lambda>ops. Some (concat (map (\<lambda>op.
       case op_target_symbol op of Some t \<Rightarrow> map of_char t | None \<Rightarrow> []) ops))),
     env_footprint = \<lparr>fenv_target_symbol = (\<lambda>text. Some [last text]), fenv_round = (\<lambda>q. q)\<rparr>, env_hash_iter = remdups\<rparr>"

definition sample_ops :: "string \<Rightarrow> intent_operation list" where
  "sample_ops smb = [\<lparr>op_kind = ''edit'', op_target_symbol = Some smb, op_intent_text = None\<rparr>]"

definition sample_fp :: footprint_snapshot where
  "sample_fp = \<lparr>fp_footprint_ref = ''footprint/s'', fp_target_symbol = ''s'', fp_contract_nodes = [''node/s''],
     fp_evidence_refs = [''node/s''], fp_tier_a_percent = Finite 100\<rparr>"

lemma sample_footprint: "ops_footprint sample_renv sample_snapshot (sample_ops ''s'') = Ok sample_fp"
  by code_simp

lemma hash_iter_ok_sample: "hash_iter_ok sample_renv"
  by (simp add: hash_iter_ok_def sample_renv_def)

definition sample_event :: "u64 \<Rightarrow> res_call \<Rightarrow> res_event" where
  "sample_event t call = \<lparr>ev_now = t, ev_repo = ''/repo'', ev_view = sample_snapshot, ev_call = call\<rparr>"

definition sample_declare :: "string \<Rightarrow> string \<Rightarrow> res_call" where
  "sample_declare agent smb = CallDeclare \<lparr>req_agent_id = agent, req_intent_ops = sample_ops smb, req_ttl_seconds = 100\<rparr>"

definition sample_acquire :: "string \<Rightarrow> string \<Rightarrow> res_call" where
  "sample_acquire agent smb = CallCheck agent (sample_ops smb) True (Some 100)"

text \<open>
  C23: Reservations exclude each other. Whatever sequence of declarations, checks, acquisitions
  and releases the service has served, by any agents and over any snapshots, if the clock values
  they sampled never went back in the order in which they took the locks and every acquired
  intent was declared first, then at every later time two active reservations of one repository
  held by different agents share no contract node.
\<close>

theorem reservation_exclusion:
  assumes "hash_iter_ok env" "run_disciplined env now evs t []"
    and "r \<in> set (q_reservations (list_active_reservations repo t (res_run env evs [])))"
    and "r' \<in> set (q_reservations (list_active_reservations repo t (res_run env evs [])))"
    and "res_agent_id r \<noteq> res_agent_id r'"
  shows "set (res_contract_nodes r) \<inter> set (res_contract_nodes r') = {}"
proof -
  have ex: "exclusive (res_run env evs []) t"
    using res_run_inv [OF assms(1) _ exclusive_Nil assms(2)] by (simp add: declared_first_def)
  have act: "set (q_reservations (list_active_reservations repo t wal)) =
      {materialize t r | rid r. latest wal rid = Some r \<and> held t r \<and> res_repo_id r = repo}" for wal
    by (simp add: list_active_reservations_def Let_def set_active)
  show ?thesis
    using assms(3-5) unfolding act mem_Collect_eq
    by (elim exE conjE) (simp, rule exclusiveD [OF ex], assumption+, simp_all)
qed

definition sample_run :: "res_event list" where
  "sample_run = [sample_event 1 (sample_declare ''a'' ''s''), sample_event 2 (sample_acquire ''a'' ''s''),
     sample_event 3 (sample_declare ''b'' ''s''), sample_event 4 (sample_acquire ''b'' ''s''),
     sample_event 5 (sample_declare ''b'' ''t''), sample_event 6 (sample_acquire ''b'' ''t'')]"

theorem reservation_exclusion_witness:
  "hash_iter_ok sample_renv \<and> run_disciplined sample_renv 0 sample_run 7 []
   \<and> (\<exists>r r'. q_reservations (list_active_reservations ''/repo'' 7 (res_run sample_renv sample_run [])) = [r, r']
        \<and> res_agent_id r = ''a'' \<and> res_agent_id r' = ''b''
        \<and> set (res_contract_nodes r) \<inter> set (res_contract_nodes r') = {})"
proof -
  define act where "act = q_reservations (list_active_reservations ''/repo'' 7 (res_run sample_renv sample_run []))"
  have d: "run_disciplined sample_renv 0 sample_run 7 []" by code_simp
  have "map res_agent_id (q_reservations (list_active_reservations ''/repo'' 7 (res_run sample_renv sample_run []))) = [''a'', ''b'']"
    by code_simp
  then obtain r r' where r: "act = [r, r']" "res_agent_id r = ''a''" "res_agent_id r' = ''b''"
    unfolding act_def [symmetric] by (auto simp: map_eq_Cons_conv)
  then have "set (res_contract_nodes r) \<inter> set (res_contract_nodes r') = {}"
    using reservation_exclusion [OF hash_iter_ok_sample d, of r "''/repo''" r'] by (simp flip: act_def)
  then show ?thesis using hash_iter_ok_sample d r by (simp flip: act_def)
qed

text \<open>
  C24: A check reports the truth. On any ledger, once the footprint is known, the verdict is a
  conflict exactly when a live reservation of another agent in the repository shares a contract
  node; the overlap names exactly the shared nodes and the blocking list exactly the
  reservations that hold them. Otherwise the verdict is unknown exactly when the coverage is
  below 100 percent, and clear else. The ledger changes only on a clear acquisition, by one
  active reservation of the intent.
\<close>

theorem check_reports_conflicts:
  assumes "hash_iter_ok env" "ops_footprint env v ops = Ok fp"
  shows "case check_with_ttl env v repo now agent ops acquire ttl wal of
      Ok (wal', resp) \<Rightarrow>
        (chk_verdict resp = ''conflict'' \<longleftrightarrow> contested wal repo now agent fp \<noteq> {})
        \<and> (chk_verdict resp = ''unknown'' \<longleftrightarrow> contested wal repo now agent fp = {} \<and> should_return_unknown fp)
        \<and> chk_verdict resp \<in> {''conflict'', ''unknown'', ''clear''}
        \<and> set (chk_overlap_nodes resp) = contested wal repo now agent fp
        \<and> set (chk_blocking_reservation_ids resp) = contenders wal repo now agent fp
        \<and> wal' = (if chk_verdict resp = ''clear'' \<and> acquire
                  then wal @ [new_reservation ResActive (intent_rid env agent ops) repo agent ops fp now (acquire_ttl ttl)]
                  else wal)
    | _ \<Rightarrow> False"
proof -
  obtain edges blocking overlap where ov: "set overlap = contested wal repo now agent fp"
    and bl: "set blocking = contenders wal repo now agent fp"
    and eq: "check_with_ttl env v repo now agent ops acquire ttl wal =
      Ok (if overlap \<noteq> [] then (wal, conflict_check_response overlap edges blocking)
          else if should_return_unknown fp then (wal, unknown_check_response env fp)
          else (if acquire
                then wal @ [new_reservation ResActive (intent_rid env agent ops) repo agent ops fp now (acquire_ttl ttl)]
                else wal, clear_check_response fp))"
    using check_with_ttl_cases [OF assms, of wal repo now agent acquire ttl] by metis
  have "contested wal repo now agent fp = {} \<Longrightarrow> contenders wal repo now agent fp = {}"
    by (auto simp: contested_def contenders_def)
  moreover have "overlap = [] \<longleftrightarrow> contested wal repo now agent fp = {}" using ov by (metis set_empty)
  ultimately show ?thesis
    unfolding eq using ov bl
    by (simp add: conflict_check_response_def unknown_check_response_def clear_check_response_def)
qed

theorem check_reports_conflicts_witness:
  "hash_iter_ok sample_renv \<and> ops_footprint sample_renv sample_snapshot (sample_ops ''s'') = Ok sample_fp
   \<and> (case check_with_ttl sample_renv sample_snapshot ''/repo'' 2 ''b'' (sample_ops ''s'') True None
        [new_reservation ResActive ''res_a'' ''/repo'' ''a'' (sample_ops ''s'') sample_fp 1 100] of
        Ok (wal', resp) \<Rightarrow> chk_verdict resp = ''conflict'' \<and> length wal' = 1 | _ \<Rightarrow> False)"
proof -
  let ?wal = "[new_reservation ResActive ''res_a'' ''/repo'' ''a'' (sample_ops ''s'') sample_fp 1 100]"
  have "latest ?wal ''res_a'' = Some (new_reservation ResActive ''res_a'' ''/repo'' ''a'' (sample_ops ''s'') sample_fp 1 100)"
    by (simp add: latest_def ledger_open_def bt_get_def new_reservation_def)
  then have "''node/s'' \<in> contested ?wal ''/repo'' 2 ''b'' sample_fp"
    unfolding contested_def mem_Collect_eq
    by (intro conjI exI) (assumption | simp add: live_def new_reservation_def sample_fp_def)+
  then show ?thesis
    using check_reports_conflicts [OF hash_iter_ok_sample sample_footprint, of ?wal "''/repo''" 2 "''b''" True None]
      hash_iter_ok_sample sample_footprint by (auto split: result.splits)
qed

text \<open>
  C25: A reservation lives as long as the wrapped expiry allows. After a clear acquisition the
  intent's reservation is listed as active at a time exactly when that time is before the sum of
  the clock and the lifetime, taken modulo \<open>2 ^ 64\<close>; the lifetime is the requested one, at least
  60 and by default 3600 seconds. So a lifetime that overflows the clock is over at once.
\<close>

theorem acquired_lifetime:
  assumes "hash_iter_ok env" "acquire_reservation env v repo now agent ops ttl wal = Ok (wal', resp)"
    and "chk_verdict resp = ''clear''"
  shows "(\<exists>r \<in> set (q_reservations (list_active_reservations repo t wal')).
       res_reservation_id r = intent_rid env agent ops) \<longleftrightarrow>
     unat t < (unat now + max (case ttl of Some s \<Rightarrow> unat s | None \<Rightarrow> 3600) 60) mod 2 ^ 64"
proof -
  obtain fp where fp: "ops_footprint env v ops = Ok fp"
    using assms(2) by (auto simp: acquire_reservation_def check_with_ttl_def r_bind_eq_Ok)
  let ?rec = "new_reservation ResActive (intent_rid env agent ops) repo agent ops fp now (acquire_ttl ttl)"
  obtain edges blocking overlap where
    "check_with_ttl env v repo now agent ops True ttl wal =
      Ok (if overlap \<noteq> [] then (wal, conflict_check_response overlap edges blocking)
          else if should_return_unknown fp then (wal, unknown_check_response env fp)
          else (wal @ [?rec], clear_check_response fp))"
    using check_with_ttl_cases [OF assms(1) fp, of wal repo now agent True ttl] unfolding if_True by metis
  then have wal': "wal' = wal @ [?rec]"
    using assms(2,3) by (auto simp: acquire_reservation_def conflict_check_response_def unknown_check_response_def
        split: if_splits)
  have "unat (acquire_ttl ttl) = max (case ttl of Some s \<Rightarrow> unat s | None \<Rightarrow> 3600) 60"
    by (auto simp: acquire_ttl_def max_def word_le_nat_alt split: option.splits)
  then have exp: "unat (res_expires_at ?rec) = (unat now + max (case ttl of Some s \<Rightarrow> unat s | None \<Rightarrow> 3600) 60) mod 2 ^ 64"
    by (simp add: new_reservation_def unat_word_ariths)
  have act: "set (q_reservations (list_active_reservations repo t wal')) =
      {materialize t r | rid r. latest wal' rid = Some r \<and> held t r \<and> res_repo_id r = repo}"
    by (simp add: list_active_reservations_def Let_def set_active)
  have "(\<exists>r \<in> set (q_reservations (list_active_reservations repo t wal')). res_reservation_id r = intent_rid env agent ops)
      \<longleftrightarrow> held t ?rec"
  proof -
    have ids: "res_reservation_id ?rec = intent_rid env agent ops" "res_repo_id ?rec = repo" by (simp_all add: new_reservation_def)
    then have lat: "latest wal' (intent_rid env agent ops) = Some ?rec"
      and only: "\<And>rid r. latest wal' rid = Some r \<Longrightarrow> res_reservation_id r = intent_rid env agent ops \<Longrightarrow> r = ?rec"
      using latest_key unfolding wal' latest_snoc by (auto split: if_splits) 
    show ?thesis
    proof
      assume "\<exists>r \<in> set (q_reservations (list_active_reservations repo t wal')). res_reservation_id r = intent_rid env agent ops"
      then obtain rid r where "latest wal' rid = Some r" "held t r" "res_reservation_id r = intent_rid env agent ops"
        unfolding act by auto
      then show "held t ?rec" using only by metis
    next
      assume "held t ?rec"
      then have "materialize t ?rec \<in> set (q_reservations (list_active_reservations repo t wal'))"
        unfolding act using lat ids(2) by blast
      then show "\<exists>r \<in> set (q_reservations (list_active_reservations repo t wal')). res_reservation_id r = intent_rid env agent ops"
        by (rule rev_bexI) (simp add: ids(1))
    qed
  qed
  also have "\<dots> \<longleftrightarrow> unat t < unat (res_expires_at ?rec)"
    by (simp add: held_def word_less_nat_alt) (simp add: new_reservation_def)
  finally show ?thesis using exp by simp
qed

theorem acquired_lifetime_witness:
  "(case acquire_reservation sample_renv sample_snapshot ''/repo'' 5 ''a'' (sample_ops ''s'') (Some 0xFFFFFFFFFFFFFFFD) [] of
      Ok (wal', resp) \<Rightarrow> chk_verdict resp = ''clear''
        \<and> \<not> (\<exists>r \<in> set (q_reservations (list_active_reservations ''/repo'' 5 wal')).
               res_reservation_id r = intent_rid sample_renv ''a'' (sample_ops ''s''))
    | _ \<Rightarrow> False)"
proof -
  obtain wal' resp where a: "acquire_reservation sample_renv sample_snapshot ''/repo'' 5 ''a'' (sample_ops ''s'') (Some 0xFFFFFFFFFFFFFFFD) [] = Ok (wal', resp)"
    "chk_verdict resp = ''clear''"
  proof -
    have "(case acquire_reservation sample_renv sample_snapshot ''/repo'' 5 ''a'' (sample_ops ''s'') (Some 0xFFFFFFFFFFFFFFFD) [] of
        Ok (wal', resp) \<Rightarrow> chk_verdict resp = ''clear'' | _ \<Rightarrow> False)" by code_simp
    then show ?thesis using that by (auto split: result.splits)
  qed
  show ?thesis
    using acquired_lifetime [OF hash_iter_ok_sample a, of 5] a by simp
qed

section \<open>Refreshing the first record\<close>

text \<open>
  A declaration of a known intent refreshes the first record ever written for it, not the
  current one, and makes no conflict check. So an intent acquired without a declaration can be
  revived as active while another agent holds its nodes, and declaring an acquired intent again
  demotes it.
\<close>

lemma refresh_breaks_exclusion:
  "let evs = [sample_event 1 (sample_acquire ''a'' ''s''), sample_event 200 (sample_acquire ''b'' ''s''),
              sample_event 201 (sample_declare ''a'' ''s'')]
   in map res_agent_id (q_reservations (list_active_reservations ''/repo'' 202 (res_run sample_renv evs []))) = [''a'', ''b'']"
  by code_simp

lemma refresh_demotes:
  "let evs = [sample_event 1 (sample_declare ''a'' ''s''), sample_event 2 (sample_acquire ''a'' ''s''),
              sample_event 3 (sample_declare ''a'' ''s'')]
   in q_reservations (list_active_reservations ''/repo'' 4 (res_run sample_renv evs [])) = []"
  by code_simp

end
