(* ===== verification/Spec2Isabelle.thy ===== *)
theory Spec2Isabelle
  imports Zero_Ref Attempt_Journal_Runs Recompute_Correct Refinement Grades_Correct Derivability Dirty_Tracking Reservation_Correct
begin

text \<open>
  ZeroStack is a family of engines under one host: FSZero owns bytes, GraphZero owns structural
  facts about a repository, TokenZero owns representation sizes, and the ZeroStack crates own
  identity, durable storage, transactions and the host loop. This library models, from the Rust
  sources under \<^verbatim>\<open>src/crates\<close>, the parts of the program that are decided by data and control
  flow: the shared reference and encoding formats, the durable attempt journal, GraphZero's
  invalidation, refinement, evidence and derivability core, and the stored structures from
  which reservations between agents are decided. It states what each of them promises and
  proves that the code, as translated, keeps the promise.

  \<^bold>\<open>Conventions.\<close> A fallible Rust function returns \<open>Ok\<close>, \<open>Err\<close> or \<open>Panicked\<close>
  (\<^verbatim>\<open>Prelude\<close>); \<open>Panicked\<close> stands for an out-of-range index, a failed \<open>expect\<close> or assertion. An
  error is its class with its structured fields; diagnostic prose is not modelled. \<open>u32\<close>, \<open>u64\<close>
  and bytes are machine words; unchecked additions and products wrap, as in a release build,
  wherever the code can reach the boundary (CSR offsets and symbol counts, coverage bit numbers,
  reservation expiry), and checked ones fail as in the code. Lengths are natural numbers.
  \<open>BTreeMap\<close> and \<open>BTreeSet\<close> are ascending lists (\<^verbatim>\<open>Ordered_Containers\<close>), whose interface is the
  locales \<open>ordered_map\<close> and \<open>ordered_set\<close>, interpreted on them as \<open>btm\<close> and \<open>bts\<close>. Loops are total
  functions with a proved measure, or a partial function shown to return; none runs on fuel,
  except the white-space scan of \<open>str::trim\<close>, bounded by the length of its text. Third-party
  code is a parameter: the hash functions, JSON quoting and decoding, the registered producers,
  the perfect-hash lookup, the free-text intent parser, floating-point rounding, the iteration
  order of a hash set. What the code relies on of them is a named hypothesis (\<open>quote_ok\<close>,
  \<open>codec_ok\<close>, \<open>declared_support\<close>, \<open>hash_iter_ok\<close>), and each theorem that uses one has a witness
  at a concrete instance.

  \<^bold>\<open>References and encodings.\<close> \<^verbatim>\<open>Zero_Ref\<close> (zero-ref/src/lib.rs) models the portable blob
  reference: parser, printer, fragment selectors under both line-end policies, verification and
  digest-bound spans. The parser accepts exactly an independent grammar and inverts the printer;
  the offset-based selector refines a list-of-lines contract, errors included; line selections
  are valid UTF-8; a reference or a span identifies bytes up to a hash collision.
  \<^verbatim>\<open>Canonical_Json\<close> (zero-abi/src/schema.rs) models the canonical encoding, schema normalisation
  and the two schema comparisons: the encoding is injective, and the comparisons agree up to the
  sign of zero.

  \<^bold>\<open>The attempt journal.\<close> \<^verbatim>\<open>Attempt_Journal\<close> (zero-store/src/attempt_journal.rs, with the framing
  and digest helpers of zero-abi) models the journal directory as numbered entry files and
  temporary files, the write-once protocol with its fault boundaries and failing I/O steps, chain
  reading and validation, every call of the API and its recovery. \<^verbatim>\<open>Attempt_Journal_Correct\<close>
  gives the effect of a call on an arbitrary directory, \<^verbatim>\<open>Attempt_Journal_Runs\<close> the journals that
  runs build: they read as valid chains on one of eight state paths, only an explicit call
  crosses the dispatch boundary, retries are idempotent, recovery always ends the attempt, and
  the last digest commits to the history.

  \<^bold>\<open>GraphZero's core.\<close> \<^verbatim>\<open>Dependency_Graph\<close> and \<^verbatim>\<open>Topological_Order\<close> (graphzero-core/src/invalidation.rs)
  model the influence graph: construction, the certified upward closure, which is reachability
  (locale \<open>influence_closure\<close>, interpreted as \<open>uc\<close>), and Kahn's order, a linear extension exactly
  for acyclic graphs. \<^verbatim>\<open>Recompute\<close> and \<^verbatim>\<open>Recompute_Correct\<close> model the full and the incremental
  rebuild with its equality cutoff; under declared support the first finds the unique consistent
  state and the second refines it. \<^verbatim>\<open>Project_Graph\<close> (graph.rs, truth.rs, omission.rs) certifies
  absences, \<^verbatim>\<open>Refinement\<close> (refinement.rs) adds observed influences and terminates at a fixed
  point, \<^verbatim>\<open>Grades\<close> and \<^verbatim>\<open>Grades_Correct\<close> (grades.rs) keep the evidence-backed upgrade ledger with
  cascading revocation, \<^verbatim>\<open>Derivability\<close> (derivability.rs) answers whether an artifact derives from
  the roots and withholds absence after refinement, and \<^verbatim>\<open>Dirty_Tracking\<close> (dirty.rs,
  graphzero-types/src/schema_version.rs) reports dirty sets that are exact reachability images.

  \<^bold>\<open>Stored structures and reservations.\<close> \<^verbatim>\<open>Coverage_Bitmap\<close> and \<^verbatim>\<open>Csr\<close>
  (graphzero-store/src/store/coverage.rs, csr.rs) model the packed tier bits and the compressed
  adjacency with its reverse index: counters and lookups equal the plain definitions.
  \<^verbatim>\<open>Footprint\<close> (graphzero-reserve/src/footprint.rs) computes the symbols within four reverse call
  edges of a target through the locale \<open>caller_index\<close>, interpreted on the reverse index as \<open>ci\<close>.
  \<^verbatim>\<open>Reservation\<close> and \<^verbatim>\<open>Reservation_Correct\<close> (service.rs, ledger.rs, schema.rs) model the ledger,
  whose tip satisfies the locale \<open>last_write_log\<close> (interpretation \<open>rlog\<close>), and the service:
  checks report exactly the conflicts, reservations of different agents exclude each other, and
  a lifetime that overflows the clock is over at once. An operation is an atomic step on the
  ledger with the footprint and the clock it sampled before taking the locks.

  \<^bold>\<open>Not modelled.\<close> Loss of a rename that was not synced before a power failure; the temporary-name
  retry loops; the JSON text of reports. Of zero-abi and zero-store, the message types with their
  field validators, the content-addressed store, collection, the binary logs and the migrations,
  whose behaviour is that of the file system. The JavaScript interpreter, the child-process
  supervisor, the tokenizers, the parsers and language servers behind extraction and the bindings
  and transports wrap third-party code. zero-fs works on real files, symbolic links and times.
  The policy gate and the evidence verifiers (zero-gate, zero-cert) are rules over message types
  that are not modelled here; zero-gauge, zero-ledger, zero-pulse, graphzero-coverage and the
  query engine of GraphZero rank and bound with floating-point numbers. The indexer, the query
  router and the publication of snapshots (graphzero-store, graphzero-engine) work on
  memory-mapped files, git and third-party perfect hashing.
\<close>

end
